(* ===== verification/Prelude.thy ===== *)
theory Prelude
  imports Main "HOL-Library.Word" "HOL-Library.Sublist"
begin

text \<open>
  What every component of the development shares: the names of Rust's primitive types, the
  effect combinators that stand for Rust's error propagation, the integer casts and saturating
  operations of the standard library, little-endian byte strings, and the SQL clause
  \<open>ORDER BY ... DESC\<close> on lists of rows, each with the lemmas the components use.
\<close>

section \<open>Primitive types\<close>

type_synonym u8 = "8 word"
type_synonym u32 = "32 word"
type_synonym u64 = "64 word"

text \<open>Rust's \<open>usize\<close> on the 64-bit targets the service is built for.\<close>

type_synonym usize = "64 word"

text \<open>
  An \<open>i64\<close> is kept as the integer it denotes. Every one in the program comes from a cast
  \<open>as i64\<close> of a \<open>u64\<close> or \<open>usize\<close>, which reinterprets the 64 bits in two's complement.
\<close>

type_synonym i64 = int

type_synonym bytes = "u8 list"

named_theorems eff_simps \<open>equations that run the effect combinators\<close>
named_theorems eff_elims \<open>eliminations for a combinator that returned a given result\<close>

section \<open>Effects\<close>

text \<open>
  An asynchronous operation of the program reads and updates a state and returns a
  \<open>Result\<close>. \<open>try_await m k\<close> is \<open>let x = m.await?; k(x)\<close>: an error ends the operation with
  the state reached so far, a value is handed on. \<open>map_err\<close> is the method of the same name.
\<close>

type_synonym ('s, 'e, 'a) eff = "'s \<Rightarrow> ('e + 'a) \<times> 's"

definition ok :: "'a \<Rightarrow> ('s, 'e, 'a) eff" where
  "ok x = (\<lambda>s. (Inr x, s))"

definition fail :: "'e \<Rightarrow> ('s, 'e, 'a) eff" where
  "fail e = (\<lambda>s. (Inl e, s))"

definition lift_result :: "'e + 'a \<Rightarrow> ('s, 'e, 'a) eff" where
  "lift_result r = (\<lambda>s. (r, s))"

definition try_await ::
  "('s, 'e, 'a) eff \<Rightarrow> ('a \<Rightarrow> ('s, 'e, 'b) eff) \<Rightarrow> ('s, 'e, 'b) eff" where
  "try_await m k = (\<lambda>s. case m s of (Inl e, s') \<Rightarrow> (Inl e, s') | (Inr x, s') \<Rightarrow> k x s')"

definition map_err :: "('e \<Rightarrow> 'f) \<Rightarrow> ('s, 'e, 'a) eff \<Rightarrow> ('s, 'f, 'a) eff" where
  "map_err f m = (\<lambda>s. case m s of (Inl e, s') \<Rightarrow> (Inl (f e), s') | (Inr x, s') \<Rightarrow> (Inr x, s'))"

lemma run_ok [eff_simps]: "ok x s = (Inr x, s)"
  by (simp add: ok_def)

lemma run_fail [eff_simps]: "fail e s = (Inl e, s)"
  by (simp add: fail_def)

lemma run_lift_result [eff_simps]: "lift_result r s = (r, s)"
  by (simp add: lift_result_def)

lemma run_try_await_Inl [eff_simps]: "m s = (Inl e, s') \<Longrightarrow> try_await m k s = (Inl e, s')"
  by (simp add: try_await_def)

lemma run_try_await_Inr [eff_simps]: "m s = (Inr x, s') \<Longrightarrow> try_await m k s = k x s'"
  by (simp add: try_await_def)

lemma run_map_err_Inl [eff_simps]: "m s = (Inl e, s') \<Longrightarrow> map_err f m s = (Inl (f e), s')"
  by (simp add: map_err_def)

lemma run_map_err_Inr [eff_simps]: "m s = (Inr x, s') \<Longrightarrow> map_err f m s = (Inr x, s')"
  by (simp add: map_err_def)

lemma map_err_cases [eff_elims]:
  assumes "map_err f m s = (r, s')"
  obtains (err) e where "m s = (Inl e, s')" and "r = Inl (f e)"
  | (val) x where "m s = (Inr x, s')" and "r = Inr x"
  using assms by (cases "m s"; cases "fst (m s)") (auto simp: map_err_def)

lemma try_await_cases [eff_elims]:
  assumes "try_await m k s = (r, s')"
  obtains (err) e where "m s = (Inl e, s')" and "r = Inl e"
  | (val) x t where "m s = (Inr x, t)" and "k x t = (r, s')"
  using assms by (cases "m s"; cases "fst (m s)") (auto simp: try_await_def)

lemma try_await_assoc: "try_await (try_await m k) l = try_await m (\<lambda>x. try_await (k x) l)"
  by (rule ext) (auto simp: try_await_def split: sum.splits prod.splits)

text \<open>
  A state predicate is kept by an effect when the effect ends in a state satisfying it
  whatever it returns. The combinators compose such facts, so that an invariant of an operation
  is read off its parts.
\<close>

definition keeps :: "('s \<Rightarrow> bool) \<Rightarrow> ('s, 'e, 'a) eff \<Rightarrow> bool" where
  "keeps P m \<longleftrightarrow> (\<forall>s. P s \<longrightarrow> P (snd (m s)))"

lemma keepsI: "(\<And>s. P s \<Longrightarrow> P (snd (m s))) \<Longrightarrow> keeps P m"
  by (simp add: keeps_def)

lemma keepsD: "keeps P m \<Longrightarrow> P s \<Longrightarrow> P (snd (m s))"
  by (simp add: keeps_def)

lemma keeps_ok [simp, intro]: "keeps P (ok x)"
  by (simp add: keeps_def ok_def)

lemma keeps_fail [simp, intro]: "keeps P (fail e)"
  by (simp add: keeps_def fail_def)

lemma keeps_lift_result [simp, intro]: "keeps P (lift_result r)"
  by (simp add: keeps_def lift_result_def)

lemma keeps_try_await [intro]: "keeps P m \<Longrightarrow> (\<And>x. keeps P (k x)) \<Longrightarrow> keeps P (try_await m k)"
  unfolding keeps_def try_await_def by (force split: prod.splits sum.splits)

lemma keeps_map_err [simp]: "keeps P (map_err f m) = keeps P m"
proof -
  have "snd (map_err f m s) = snd (m s)" for s
    by (simp add: map_err_def split: prod.splits sum.splits)
  then show ?thesis by (simp add: keeps_def)
qed

section \<open>Integer casts and saturation\<close>

text \<open>\<open>x as i64\<close> for a 64-bit unsigned \<open>x\<close>, and \<open>u64::saturating_sub\<close>.\<close>

definition as_i64 :: "64 word \<Rightarrow> i64" where
  "as_i64 x = sint x"

definition saturating_sub :: "u64 \<Rightarrow> u64 \<Rightarrow> u64" where
  "saturating_sub a b = (if a \<le> b then 0 else a - b)"

lemma unat_saturating_sub: "unat (saturating_sub a b) = unat a - unat b"
  by (auto simp: saturating_sub_def unat_sub word_le_nat_alt)

lemma saturating_sub_le: "saturating_sub a b \<le> a"
  by (simp add: word_le_nat_alt unat_saturating_sub)

lemma uint_less_exp_63: "uint (x :: 64 word) < 9223372036854775808 \<longleftrightarrow> unat x < 9223372036854775808"
proof -
  have "uint x = int (unat x)" by simp
  then show ?thesis by linarith
qed

lemma as_i64_small: "unat x < 2 ^ 63 \<Longrightarrow> as_i64 x = int (unat x)"
  unfolding as_i64_def sint_uint
  by (subst signed_take_bit_int_eq_self) (auto simp: uint_less_exp_63 intro: order_trans [of _ 0])

lemma as_i64_large: "2 ^ 63 \<le> unat x \<Longrightarrow> as_i64 x < 0"
proof -
  assume "2 ^ 63 \<le> unat x"
  then have "(2 ^ 63 :: int) \<le> uint x" by (simp add: uint_less_exp_63 flip: not_less)
  then have "sint x \<le> uint x - 2 ^ 64"
    using signed_take_bit_int_less_eq [of 63 "uint x"] by (simp add: sint_uint)
  moreover have "uint x < 2 ^ 64" using uint_lt2p [of x] by simp
  ultimately show ?thesis by (simp add: as_i64_def)
qed

lemma less_as_i64: "unat m < 2 ^ 63 \<Longrightarrow> int n < as_i64 m \<longleftrightarrow> n < unat m"
  by (simp only: as_i64_small of_nat_less_iff)

lemma as_i64_range: "- (2 ^ 63) \<le> as_i64 x \<and> as_i64 x < 2 ^ 63"
  using sint_ge [of x] sint_lt [of x] by (simp add: as_i64_def)

section \<open>Little-endian byte strings\<close>

text \<open>
  \<open>u64::to_le_bytes\<close> and \<open>u64::from_le_bytes\<close>: the least significant byte comes first.
\<close>

fun le_digits :: "nat \<Rightarrow> nat \<Rightarrow> bytes" where
  "le_digits 0 n = []"
| "le_digits (Suc k) n = of_nat (n mod 256) # le_digits k (n div 256)"

fun le_value :: "bytes \<Rightarrow> nat" where
  "le_value [] = 0"
| "le_value (b # bs) = unat b + 256 * le_value bs"

definition to_le_bytes :: "u64 \<Rightarrow> bytes" where
  "to_le_bytes x = le_digits 8 (unat x)"

definition from_le_bytes :: "bytes \<Rightarrow> u64" where
  "from_le_bytes bs = of_nat (le_value bs)"

lemma unat_u8_less: "unat (b :: u8) < 256"
  using unsigned_less [of b, where 'a = nat] by simp

lemma length_le_digits [simp]: "length (le_digits k n) = k"
  by (induction k arbitrary: n) auto

lemma le_value_digits: "le_value (le_digits k n) = n mod 256 ^ k"
proof (induction k arbitrary: n)
  case (Suc k)
  have "unat (of_nat (n mod 256) :: u8) = n mod 256" by (simp add: unat_of_nat)
  then show ?case by (simp add: Suc mod_mult2_eq)
qed simp

lemma le_value_less: "le_value bs < 256 ^ length bs"
proof (induction bs)
  case (Cons b bs)
  then have "256 * le_value bs + 256 \<le> 256 * 256 ^ length bs" by simp
  then show ?case using unat_u8_less [of b] by simp
qed simp

lemma le_digits_value: "le_digits (length bs) (le_value bs) = bs"
proof (induction bs)
  case (Cons b bs)
  have "(of_nat (unat b mod 256) :: u8) = b" using unat_u8_less [of b] by simp
  moreover have "(unat b + 256 * le_value bs) div 256 = le_value bs"
    using unat_u8_less [of b] by simp
  ultimately show ?case using Cons by simp
qed simp

lemma length_to_le_bytes [simp]: "length (to_le_bytes x) = 8"
  by (simp add: to_le_bytes_def)

lemma from_to_le_bytes [simp]: "from_le_bytes (to_le_bytes x) = x"
proof -
  have "unat x < 256 ^ 8" using unsigned_less [of x, where 'a = nat] by simp
  then show ?thesis by (simp add: from_le_bytes_def to_le_bytes_def le_value_digits)
qed

lemma to_from_le_bytes: "length bs = 8 \<Longrightarrow> to_le_bytes (from_le_bytes bs) = bs"
  using le_digits_value [of bs] le_value_less [of bs]
  by (simp add: from_le_bytes_def to_le_bytes_def unat_of_nat)

section \<open>Bounded runs\<close>

text \<open>When no run of a relation is longer than a bound, some run reaches a state without successors.\<close>

lemma bounded_runs_end:
  assumes "\<forall>n y. (R ^^ n) x y \<longrightarrow> n \<le> (b :: nat)"
  shows "\<exists>n y. (R ^^ n) x y \<and> \<not> (\<exists>z. R y z)"
proof -
  define runs where "runs n \<longleftrightarrow> (\<exists>y. (R ^^ n) x y)" for n
  have start: "runs 0" unfolding runs_def by (rule exI [of _ x]) simp
  have bound: "\<forall>n. runs n \<longrightarrow> n \<le> b" unfolding runs_def using assms by blast
  obtain n where n: "runs n" "\<forall>m. runs m \<longrightarrow> m \<le> n" using Nat.ex_has_greatest_nat [OF start bound] by blast
  then obtain y where y: "(R ^^ n) x y" unfolding runs_def by blast
  have "\<not> R y z" for z
  proof
    assume "R y z"
    with y have "(R ^^ Suc n) x z" by (rule relpowp_Suc_I)
    then have "runs (Suc n)" unfolding runs_def by (rule exI)
    with n(2) show False by fastforce
  qed
  with y show ?thesis by blast
qed

section \<open>Options\<close>

lemma Some_eq_map_option: "Some y = map_option f x \<longleftrightarrow> (\<exists>z. x = Some z \<and> y = f z)"
  by (cases x) auto

end
