(* ===== verification/Timekeeping.thy ===== *)
theory Timekeeping
  imports Prelude
begin

text \<open>
  The clock of \<open>src/store.rs\<close>: Rust's \<open>Duration\<close> and \<open>SystemTime\<close> as far as the store uses
  them, the millisecond stamp \<open>now_ms\<close> put on every row, and the cutoff below which the two
  prune operations delete. The casts to \<open>u64\<close> and \<open>i64\<close> are kept, so the lemmas say for which
  clocks and retention windows the cutoff is the intended instant.
\<close>

section \<open>Durations\<close>

datatype duration = Duration (as_secs: u64) (subsec_nanos: u32)

definition from_secs :: "u64 \<Rightarrow> duration" where
  "from_secs s = Duration s 0"

text \<open>\<open>Duration::as_millis\<close> returns a \<open>u128\<close>, in which no value of this sum overflows.\<close>

definition as_millis :: "duration \<Rightarrow> nat" where
  "as_millis d = unat (as_secs d) * 1000 + unat (subsec_nanos d) div 1000000"

definition duration_wf :: "duration \<Rightarrow> bool" where
  "duration_wf d \<longleftrightarrow> unat (subsec_nanos d) < 1000000000"

text \<open>Durations are ordered by seconds, then by nanoseconds, as the derived \<open>Ord\<close> does.\<close>

instantiation duration :: linorder
begin

definition less_eq_duration :: "duration \<Rightarrow> duration \<Rightarrow> bool" where
  "less_eq_duration a b \<longleftrightarrow>
     as_secs a < as_secs b \<or> as_secs a = as_secs b \<and> subsec_nanos a \<le> subsec_nanos b"

definition less_duration :: "duration \<Rightarrow> duration \<Rightarrow> bool" where
  "less_duration a b \<longleftrightarrow> a \<le> b \<and> \<not> b \<le> (a :: duration)"

instance
  by standard (auto simp: less_eq_duration_def less_duration_def intro: duration.expand)

end

lemma as_millis_mono:
  assumes "duration_wf a" and "a \<le> b"
  shows "as_millis a \<le> as_millis b"
proof (cases "as_secs a = as_secs b")
  case True
  with assms(2) have "unat (subsec_nanos a) \<le> unat (subsec_nanos b)"
    by (auto simp: less_eq_duration_def word_le_nat_alt)
  with True show ?thesis by (simp add: as_millis_def div_le_mono)
next
  case False
  with assms(2) have "unat (as_secs a) + 1 \<le> unat (as_secs b)"
    by (auto simp: less_eq_duration_def word_less_nat_alt)
  moreover have "unat (subsec_nanos a) div 1000000 < 1000"
    using assms(1) by (auto simp: duration_wf_def)
  ultimately show ?thesis by (simp add: as_millis_def)
qed

section \<open>The clock\<close>

text \<open>
  A \<open>SystemTime\<close> is the integer number of nanoseconds since \<open>UNIX_EPOCH\<close>, negative before it.
  \<open>duration_since\<close> fails before the epoch, and \<open>unwrap_or_default\<close> then yields zero.
\<close>

type_synonym system_time = int

definition duration_since_epoch :: "system_time \<Rightarrow> duration option" where
  "duration_since_epoch t =
     (if t < 0 then None
      else Some (Duration (of_int (t div 1000000000)) (of_int (t mod 1000000000))))"

definition now_ms :: "system_time \<Rightarrow> u64" where
  "now_ms t =
     (let d = (case duration_since_epoch t of None \<Rightarrow> Duration 0 0 | Some d \<Rightarrow> d)
      in of_nat (as_millis d))"

text \<open>The stamp of a row and the cutoff of a prune, with the casts of the code.\<close>

definition stamp_ms :: "system_time \<Rightarrow> i64" where
  "stamp_ms t = as_i64 (now_ms t)"

definition cutoff_ms :: "system_time \<Rightarrow> duration \<Rightarrow> i64" where
  "cutoff_ms t retention =
     as_i64 (saturating_sub (now_ms t) (of_nat (as_millis retention)))"

text \<open>A clock in the range of the store: from the epoch on, below \<open>2 ^ 63\<close> milliseconds.\<close>

definition clock_sane :: "system_time \<Rightarrow> bool" where
  "clock_sane t \<longleftrightarrow> 0 \<le> t \<and> t div 1000000 < 2 ^ 63"

lemma clock_sane_nat: "clock_sane t \<Longrightarrow> nat (t div 1000000) < 9223372036854775808"
  by (auto simp: clock_sane_def nat_less_iff)

lemma now_ms_before_epoch: "t < 0 \<Longrightarrow> now_ms t = 0"
  by (simp add: now_ms_def duration_since_epoch_def as_millis_def)

lemma unat_now_ms: "clock_sane t \<Longrightarrow> unat (now_ms t) = nat (t div 1000000)"
proof -
  assume sane: "clock_sane t"
  define s where "s = nat (t div 1000000000)"
  define n where "n = nat (t mod 1000000000)"
  have t: "t = int s * 1000000000 + int n" and n: "n < 1000000000"
    using sane by (auto simp: s_def n_def clock_sane_def)
  have ms: "nat (t div 1000000) = s * 1000 + n div 1000000"
    unfolding t by (simp add: zdiv_int [symmetric] nat_add_distrib flip: of_nat_mult of_nat_add)
  have small: "s * 1000 + n div 1000000 < 2 ^ 63"
    using clock_sane_nat [OF sane] unfolding ms [symmetric] by simp
  then have "unat (of_nat s :: u64) = s" and "unat (of_nat n :: u32) = n"
    using n by (auto simp: unat_of_nat)
  moreover have "of_int (t div 1000000000) = (of_nat s :: u64)"
    and "of_int (t mod 1000000000) = (of_nat n :: u32)"
    using sane by (auto simp: s_def n_def clock_sane_def)
  ultimately have "now_ms t = of_nat (s * 1000 + n div 1000000)"
    using sane by (simp only: now_ms_def duration_since_epoch_def as_millis_def clock_sane_def Let_def)
      (simp del: of_nat_add of_nat_mult)
  with small show ?thesis by (simp add: ms unat_of_nat del: of_nat_add of_nat_mult)
qed

lemma stamp_ms_sane: "clock_sane t \<Longrightarrow> stamp_ms t = t div 1000000"
  by (auto simp: stamp_ms_def as_i64_small unat_now_ms clock_sane_def)

lemma stamp_ms_mono: "clock_sane t \<Longrightarrow> clock_sane u \<Longrightarrow> t \<le> u \<Longrightarrow> stamp_ms t \<le> stamp_ms u"
  by (simp add: stamp_ms_sane zdiv_mono1)

lemma cutoff_ms_sane:
  assumes "clock_sane t"
  shows "cutoff_ms t retention = max 0 (t div 1000000 - int (as_millis retention mod 2 ^ 64))"
proof -
  let ?c = "saturating_sub (now_ms t) (of_nat (as_millis retention))"
  have "unat ?c = nat (t div 1000000) - as_millis retention mod 2 ^ 64"
    by (simp add: unat_saturating_sub unat_now_ms assms unat_of_nat)
  moreover from this have "unat ?c < 2 ^ 63"
    using clock_sane_nat [OF assms] by (simp add: less_imp_diff_less)
  ultimately have "cutoff_ms t retention
      = int (nat (t div 1000000) - as_millis retention mod 2 ^ 64)"
    by (simp add: cutoff_ms_def as_i64_small)
  moreover have "0 \<le> t div 1000000" using assms by (simp add: clock_sane_def pos_imp_zdiv_nonneg_iff)
  ultimately show ?thesis by linarith
qed

lemma cutoff_le_stamp: "clock_sane t \<Longrightarrow> cutoff_ms t retention \<le> stamp_ms t"
  by (auto simp: cutoff_ms_sane stamp_ms_sane clock_sane_def max_def)

end
