(* ===== verification/Lamport.thy ===== *)
theory Lamport
  imports Prelude
begin

text \<open>
  The one piece of an account payload the server reads (\<open>src/store.rs\<close>): the lamport version in
  the header \<open>domain | version:u8 | lamport:u64 LE\<close>. The two slice methods the code calls are
  modelled first; the lemmas give the exact set of payloads that carry a lamport.
\<close>

text \<open>\<open>[T]::strip_prefix\<close> and \<open>[T]::get(a..b)\<close>.\<close>

definition strip_prefix :: "'a list \<Rightarrow> 'a list \<Rightarrow> 'a list option" where
  "strip_prefix pre xs = (if take (length pre) xs = pre then Some (drop (length pre) xs) else None)"

definition get_range :: "nat \<Rightarrow> nat \<Rightarrow> 'a list \<Rightarrow> 'a list option" where
  "get_range a b xs = (if a \<le> b \<and> b \<le> length xs then Some (take (b - a) (drop a xs)) else None)"

definition BUNDLE_DOMAIN :: bytes where
  "BUNDLE_DOMAIN = map of_char ''libchat:account-device-bundle'' @ [0]"

text \<open>
  \<open>try_into\<close> turns the slice into an array of eight bytes; its \<open>expect\<close> panics on any other
  length, the value \<open>None\<close> of \<open>array_8\<close>, which \<open>lamport_slice_is_8_bytes\<close> excludes.
\<close>

definition array_8 :: "bytes \<Rightarrow> bytes option" where
  "array_8 b = (if length b = 8 then Some b else None)"

definition payload_lamport :: "bytes \<Rightarrow> u64 option" where
  "payload_lamport payload =
     (case strip_prefix BUNDLE_DOMAIN payload of
        None \<Rightarrow> None
      | Some rest \<Rightarrow>
          (case get_range 1 9 rest of
             None \<Rightarrow> None
           | Some b \<Rightarrow> map_option from_le_bytes (array_8 b)))"

text \<open>
  The payload a client builds, as the tests and the benchmark client write it: the domain, a
  version byte, the lamport, and whatever follows (device keys, padding).
\<close>

definition account_header :: "u8 \<Rightarrow> u64 \<Rightarrow> bytes" where
  "account_header version lamport = BUNDLE_DOMAIN @ [version] @ to_le_bytes lamport"

definition payload_with_lamport :: "u64 \<Rightarrow> bytes" where
  "payload_with_lamport lamport = account_header 1 lamport"

definition account_payload :: "u64 \<Rightarrow> nat \<Rightarrow> bytes" where
  "account_payload lamport payload_bytes =
     account_header 1 lamport @ replicate payload_bytes (of_char CHR ''a'')"

section \<open>Lemmas\<close>

lemma strip_prefix_append [simp]: "strip_prefix pre (pre @ xs) = Some xs"
  by (simp add: strip_prefix_def)

lemma strip_prefix_Some_iff: "strip_prefix pre xs = Some ys \<longleftrightarrow> xs = pre @ ys"
  by (auto simp: strip_prefix_def) (metis append_take_drop_id)

lemma lamport_slice_is_8_bytes: "get_range 1 9 rest = Some b \<Longrightarrow> array_8 b = Some b"
  by (auto simp: get_range_def array_8_def split: if_splits)

lemma get_range_1_9_iff:
  "get_range 1 9 rest = Some b \<longleftrightarrow> (\<exists>v tail. rest = v # b @ tail \<and> length b = 8)"
proof
  assume "get_range 1 9 rest = Some b"
  then have len: "9 \<le> length rest" and b: "b = take 8 (drop 1 rest)"
    by (auto simp: get_range_def split: if_splits)
  then obtain v xs where "rest = v # xs" and "8 \<le> length xs" by (cases rest) auto
  with b show "\<exists>v tail. rest = v # b @ tail \<and> length b = 8"
    by (intro exI [of _ v] exI [of _ "drop 8 xs"]) simp
qed (auto simp: get_range_def)

lemma payload_lamport_Some_iff:
  "payload_lamport p = Some l \<longleftrightarrow> (\<exists>v rest. p = account_header v l @ rest)"
proof
  assume "payload_lamport p = Some l"
  then obtain r b where p: "p = BUNDLE_DOMAIN @ r" and b: "get_range 1 9 r = Some b"
    and l: "from_le_bytes b = l"
    by (auto simp: payload_lamport_def strip_prefix_Some_iff lamport_slice_is_8_bytes
        split: option.splits dest: lamport_slice_is_8_bytes)
  from b obtain v tail where "r = v # b @ tail" and "length b = 8"
    unfolding get_range_1_9_iff by blast
  with p have "p = account_header v l @ tail"
    using to_from_le_bytes [of b] l by (simp add: account_header_def)
  then show "\<exists>v rest. p = account_header v l @ rest" by blast
next
  assume "\<exists>v rest. p = account_header v l @ rest"
  then show "payload_lamport p = Some l"
    by (auto simp: payload_lamport_def account_header_def get_range_def array_8_def)
qed

lemma payload_lamport_header [simp]: "payload_lamport (account_header v l @ rest) = Some l"
  by (auto simp: payload_lamport_Some_iff)

lemma payload_lamport_with [simp]: "payload_lamport (payload_with_lamport l) = Some l"
  using payload_lamport_header [of 1 l "[]"] by (simp add: payload_with_lamport_def)

lemma payload_lamport_account_payload [simp]: "payload_lamport (account_payload l n) = Some l"
  by (simp add: account_payload_def)

lemma length_BUNDLE_DOMAIN [simp]: "length BUNDLE_DOMAIN = 30"
  by (simp add: BUNDLE_DOMAIN_def)

lemma payload_lamport_short: "length p < 39 \<Longrightarrow> payload_lamport p = None"
proof (rule ccontr)
  assume "length p < 39" and "payload_lamport p \<noteq> None"
  then obtain l v rest where "p = account_header v l @ rest"
    by (auto simp: payload_lamport_Some_iff)
  with \<open>length p < 39\<close> show False by (simp add: account_header_def)
qed

section \<open>The header\<close>

text \<open>
  C35. A payload has a lamport exactly when it starts with the domain, any version byte and eight
  more bytes, and the lamport is their little-endian value: what a client wrote is what the server
  compares, for every 64-bit lamport, and the shortest payload accepted has 39 bytes.
\<close>

theorem lamport_header_exact:
  "(payload_lamport p = Some l \<longleftrightarrow> (\<exists>version rest. p = BUNDLE_DOMAIN @ version # to_le_bytes l @ rest)) \<and>
   payload_lamport (account_payload l n) = Some l \<and>
   (39 \<le> length p \<or> payload_lamport p = None)"
  using payload_lamport_Some_iff [of p l] payload_lamport_short [of p]
  by (auto simp: account_header_def)

end
