(* ===== verification/External.thy ===== *)
theory External
  imports Prelude
begin

text \<open>
  The code the service calls but does not contain: the crates \<open>hex\<close>, \<open>base64\<close>,
  \<open>ed25519-dalek\<close>, \<open>account-log\<close>, \<open>anyhow\<close> and \<open>sqlx\<close>. Their functions are parameters of the
  model, collected in two records, and what the service relies on is stated as named
  predicates over those records, from the crates' documentation and from what \<open>README.md\<close> says of
  the account log. The error and outcome enumerations list the variants the sources match on,
  and one further constructor for the rest.
\<close>

section \<open>Errors\<close>

datatype sqlx_error = UniqueViolation | DriverError string

datatype account_log_error = SignatureInvalid | Malformed string | OtherLogError string

text \<open>\<open>anyhow::Error\<close>: a wrapped error, a message, or an error with a context around it.\<close>

datatype anyhow =
    AnySqlx sqlx_error
  | AnyLog account_log_error
  | AnyMsg string
  | AnyContext string anyhow

section \<open>The account-log crate\<close>

datatype log_freshness = Identical | Behind | Diverged | OtherFreshness string

datatype outcome = Updated | Unchanged log_freshness | OtherOutcome string

record 'r account_record_update =
  upd_outcome :: outcome
  upd_record :: 'r

text \<open>
  The types \<open>AccountAddr\<close>, \<open>SignedAccountLog\<close> and \<open>AccountRecord\<close> are the type parameters
  \<open>'a\<close>, \<open>'s\<close> and \<open>'r\<close>; the fields are their methods.
\<close>

record ('a, 's, 'r) account_log_api =
  addr_parse :: "string \<Rightarrow> 'a option"
  addr_to_string :: "'a \<Rightarrow> string"
  signed_from_bytes :: "bytes \<Rightarrow> account_log_error + 's"
  signed_to_bytes :: "'s \<Rightarrow> bytes"
  record_new :: "'a \<Rightarrow> 's \<Rightarrow> account_log_error + 'r"
  record_addr :: "'r \<Rightarrow> 'a"
  record_signed_log :: "'r \<Rightarrow> 's"
  record_update :: "'r \<Rightarrow> 's \<Rightarrow> 'r account_record_update"
  debug_outcome :: "outcome \<Rightarrow> string"
  display_log_error :: "account_log_error \<Rightarrow> string"

text \<open>
  The artifact is \<open>signature || payload\<close> with a signature of 64 bytes, so the payload of a
  signed log is what follows them.
\<close>

definition signed_payload :: "('a, 's, 'r) account_log_api \<Rightarrow> 's \<Rightarrow> bytes" where
  "signed_payload api s = drop 64 (signed_to_bytes api s)"

text \<open>
  What the service relies on. A displayed address parses back; an artifact read from its bytes
  is the artifact; a record keeps the address and the log it was made from; and \<open>update\<close>
  compares two verified logs of one account by their payloads: a log is newer exactly when
  the old payload is a strict prefix of the new one, in which case the record becomes the new
  log's, and otherwise it reports the same log as identical, a strict prefix as behind and two
  logs of which neither is a prefix of the other as diverged.
\<close>

definition addr_laws :: "('a, 's, 'r) account_log_api \<Rightarrow> bool" where
  "addr_laws api \<longleftrightarrow> (\<forall>a. addr_parse api (addr_to_string api a) = Some a)"

definition artifact_laws :: "('a, 's, 'r) account_log_api \<Rightarrow> bool" where
  "artifact_laws api \<longleftrightarrow>
     (\<forall>s. signed_from_bytes api (signed_to_bytes api s) = Inr s) \<and>
     (\<forall>b s. signed_from_bytes api b = Inr s \<longrightarrow> signed_to_bytes api s = b)"

definition record_laws :: "('a, 's, 'r) account_log_api \<Rightarrow> bool" where
  "record_laws api \<longleftrightarrow>
     (\<forall>a s r. record_new api a s = Inr r \<longrightarrow> record_addr api r = a \<and> record_signed_log api r = s)"

definition update_laws :: "('a, 's, 'r) account_log_api \<Rightarrow> bool" where
  "update_laws api \<longleftrightarrow>
     (\<forall>a s r s' r'. record_new api a s = Inr r \<longrightarrow> record_new api a s' = Inr r' \<longrightarrow>
        (let u = record_update api r s'; p = signed_payload api s; p' = signed_payload api s' in
          (upd_outcome u = Updated \<longleftrightarrow> strict_prefix p p') \<and>
          (upd_outcome u = Updated \<longrightarrow> upd_record u = r') \<and>
          (s' = s \<longrightarrow> upd_outcome u = Unchanged Identical) \<and>
          (strict_prefix p' p \<longrightarrow> upd_outcome u = Unchanged Behind) \<and>
          (\<not> prefix p p' \<and> \<not> prefix p' p \<longrightarrow> upd_outcome u = Unchanged Diverged)))"

definition account_log_laws :: "('a, 's, 'r) account_log_api \<Rightarrow> bool" where
  "account_log_laws api \<longleftrightarrow> addr_laws api \<and> artifact_laws api \<and> record_laws api \<and> update_laws api"

lemma addr_to_string_inject:
  "addr_laws api \<Longrightarrow> addr_to_string api a = addr_to_string api b \<longleftrightarrow> a = b"
  by (metis addr_laws_def option.inject)

lemma artifact_lawsD:
  assumes "artifact_laws api"
  shows "signed_from_bytes api (signed_to_bytes api s) = Inr s"
    and "signed_from_bytes api b = Inr s \<Longrightarrow> signed_to_bytes api s = b"
  using assms by (auto simp: artifact_laws_def)

lemma record_lawsD:
  assumes "record_laws api" and "record_new api a s = Inr r"
  shows "record_addr api r = a" and "record_signed_log api r = s"
  using assms by (auto simp: record_laws_def)

lemma update_lawsD:
  assumes "update_laws api" and "record_new api a s = Inr r" and "record_new api a s' = Inr r'"
  shows "upd_outcome (record_update api r s') = Updated \<longleftrightarrow>
      strict_prefix (signed_payload api s) (signed_payload api s')"
    and "upd_outcome (record_update api r s') = Updated \<Longrightarrow>
      upd_record (record_update api r s') = r'"
    and "s' = s \<Longrightarrow> upd_outcome (record_update api r s') = Unchanged Identical"
    and "strict_prefix (signed_payload api s') (signed_payload api s) \<Longrightarrow>
      upd_outcome (record_update api r s') = Unchanged Behind"
    and "\<not> prefix (signed_payload api s) (signed_payload api s') \<Longrightarrow>
      \<not> prefix (signed_payload api s') (signed_payload api s) \<Longrightarrow>
      upd_outcome (record_update api r s') = Unchanged Diverged"
  using assms unfolding update_laws_def Let_def by blast+

lemma account_log_lawsD:
  assumes "account_log_laws api"
  shows "addr_laws api" and "artifact_laws api" and "record_laws api" and "update_laws api"
  using assms by (auto simp: account_log_laws_def)

section \<open>Codecs and signatures\<close>

record deps =
  hex_encode :: "bytes \<Rightarrow> string"
  hex_decode :: "string \<Rightarrow> bytes option"
  b64_encode :: "bytes \<Rightarrow> string"
  b64_decode :: "string \<Rightarrow> bytes option"
  verifying_key_ok :: "bytes \<Rightarrow> bool"
  verify_strict :: "bytes \<Rightarrow> bytes \<Rightarrow> bytes \<Rightarrow> bool"
  display_anyhow :: "anyhow \<Rightarrow> string"

text \<open>
  \<open>verifying_key_ok k\<close> says that \<open>VerifyingKey::from_bytes\<close> accepts the 32 bytes \<open>k\<close>, and
  \<open>verify_strict k m s\<close> that the signature \<open>s\<close> over the message \<open>m\<close> verifies under that key.

  \<open>hex::encode\<close> writes lower case and \<open>hex::decode\<close> reads either case, so decoding undoes
  encoding, and a decoded string encodes back to itself when it was lower case.
\<close>

definition upper_char :: "char \<Rightarrow> char" where
  "upper_char c =
     (let n = of_char c :: nat in if 97 \<le> n \<and> n \<le> 122 then char_of (n - 32) else c)"

definition hex_laws :: "deps \<Rightarrow> bool" where
  "hex_laws d \<longleftrightarrow>
     (\<forall>b. hex_decode d (hex_encode d b) = Some b) \<and>
     (\<forall>b. hex_decode d (map upper_char (hex_encode d b)) = Some b)"

definition base64_laws :: "deps \<Rightarrow> bool" where
  "base64_laws d \<longleftrightarrow> (\<forall>b. b64_decode d (b64_encode d b) = Some b)"

lemma hex_lawsD:
  assumes "hex_laws d"
  shows "hex_decode d (hex_encode d b) = Some b"
    and "hex_decode d (map upper_char (hex_encode d b)) = Some b"
  using assms by (auto simp: hex_laws_def)

lemma hex_encode_inject: "hex_laws d \<Longrightarrow> hex_encode d a = hex_encode d b \<longleftrightarrow> a = b"
  by (metis hex_laws_def option.inject)

lemma base64_lawsD: "base64_laws d \<Longrightarrow> b64_decode d (b64_encode d b) = Some b"
  by (simp add: base64_laws_def)

end
