(* ===== verification/Sql_Tables.thy ===== *)
theory Sql_Tables
  imports Prelude "HOL-Library.Multiset"
begin

text \<open>
  The three SQLite tables of \<open>src/migrations\<close> and the SQL statements of \<open>src/store.rs\<close>, one
  definition per statement. A table is the list of its rows in the order they were inserted;
  a statement is a function on the tables, and an \<open>INSERT\<close> that would violate a primary key is
  refused. The lemmas describe each statement by the rows it keeps, and show that the
  statements keep the primary keys.
\<close>

section \<open>Rows and tables\<close>

record keypackage_row =
  kp_rowid :: int
  kp_device_id :: string
  kp_received_at :: i64
  kp_payload :: bytes
  kp_signature :: bytes

record account_bundle_row =
  ab_account_pub :: string
  ab_updated_at :: i64
  ab_payload :: bytes
  ab_signature :: bytes

record account_log_row =
  al_account_pub :: string
  al_updated_at :: i64
  al_signed_log :: bytes

record tables =
  keypackages :: "keypackage_row list"
  account_bundles :: "account_bundle_row list"
  account_logs :: "account_log_row list"

text \<open>A database on which only the migrations have run.\<close>

definition empty_tables :: tables where
  "empty_tables = \<lparr>keypackages = [], account_bundles = [], account_logs = []\<rparr>"

section \<open>Clauses\<close>

text \<open>
  \<open>ORDER BY f DESC\<close>. Rows with equal keys keep their order here; SQLite promises none, and the
  statements order rows by a column that is unique among them (\<open>keypackages_pk\<close> below).
\<close>

definition order_by_desc :: "('r \<Rightarrow> int) \<Rightarrow> 'r list \<Rightarrow> 'r list" where
  "order_by_desc f rows = sort_key (\<lambda>r. - f r) rows"

definition limit_1 :: "'r list \<Rightarrow> 'r option" where
  "limit_1 rows = (case rows of [] \<Rightarrow> None | r # _ \<Rightarrow> Some r)"

text \<open>The rowid SQLite gives a new row: one more than the largest in use.\<close>

definition next_rowid :: "keypackage_row list \<Rightarrow> int" where
  "next_rowid rows = fold (\<lambda>r m. max m (kp_rowid r)) rows 0 + 1"

section \<open>Statements on keypackages\<close>

text \<open>
  \<open>INSERT INTO keypackages (device_id, received_at, payload, signature) VALUES (?, ?, ?, ?)\<close>,
  with the primary key \<open>(device_id, received_at)\<close>; \<open>None\<close> is the constraint violation.
\<close>

definition sql_insert_keypackage ::
  "string \<Rightarrow> i64 \<Rightarrow> bytes \<Rightarrow> bytes \<Rightarrow> tables \<Rightarrow> tables option" where
  "sql_insert_keypackage device_id received_at payload signature db =
     (if list_ex (\<lambda>r. kp_device_id r = device_id \<and> kp_received_at r = received_at) (keypackages db)
      then None
      else Some (db\<lparr>keypackages := keypackages db @
             [\<lparr>kp_rowid = next_rowid (keypackages db), kp_device_id = device_id,
               kp_received_at = received_at, kp_payload = payload, kp_signature = signature\<rparr>]\<rparr>))"

text \<open>
  \<open>SELECT payload, signature FROM keypackages WHERE device_id = ? ORDER BY received_at DESC
  LIMIT 1\<close>
\<close>

definition sql_latest_keypackage :: "string \<Rightarrow> tables \<Rightarrow> keypackage_row option" where
  "sql_latest_keypackage device_id db =
     limit_1 (order_by_desc kp_received_at
       (filter (\<lambda>r. kp_device_id r = device_id) (keypackages db)))"

text \<open>\<open>DELETE FROM keypackages WHERE received_at < ?\<close>\<close>

definition sql_delete_old_keypackages :: "i64 \<Rightarrow> tables \<Rightarrow> tables" where
  "sql_delete_old_keypackages cutoff db =
     db\<lparr>keypackages := filter (\<lambda>r. \<not> kp_received_at r < cutoff) (keypackages db)\<rparr>"

text \<open>
  \<open>ROW_NUMBER() OVER (PARTITION BY device_id ORDER BY received_at DESC)\<close>: the rowids of the
  table, each with its row's position, from 1, in its device's rows sorted newest first.
\<close>

definition partition_row_numbers :: "string \<Rightarrow> keypackage_row list \<Rightarrow> (int \<times> int) list" where
  "partition_row_numbers device_id rows =
     (let part = order_by_desc kp_received_at (filter (\<lambda>r. kp_device_id r = device_id) rows)
      in zip (map kp_rowid part) (map int [1..<Suc (length part)]))"

definition row_numbers :: "keypackage_row list \<Rightarrow> (int \<times> int) list" where
  "row_numbers rows =
     concat (map (\<lambda>d. partition_row_numbers d rows) (remdups (map kp_device_id rows)))"

text \<open>
  \<open>DELETE FROM keypackages WHERE rowid IN (SELECT rowid FROM (SELECT rowid, ROW_NUMBER() ... AS
  rn FROM keypackages) WHERE rn > ?)\<close>
\<close>

definition sql_delete_excess_keypackages :: "i64 \<Rightarrow> tables \<Rightarrow> tables" where
  "sql_delete_excess_keypackages max_rows db =
     (let victims = map fst (filter (\<lambda>(_, rn). max_rows < rn) (row_numbers (keypackages db)))
      in db\<lparr>keypackages := filter (\<lambda>r. \<not> List.member victims (kp_rowid r)) (keypackages db)\<rparr>)"

section \<open>Statements on account_bundles and account_logs\<close>

text \<open>
  \<open>SELECT payload, signature, updated_at FROM account_bundles WHERE account_pub = ?\<close>, and the
  same on \<open>account_logs\<close>: the key is the primary key, so there is at most one row.
\<close>

definition sql_select_account :: "string \<Rightarrow> tables \<Rightarrow> account_bundle_row option" where
  "sql_select_account account_pub db =
     List.find (\<lambda>r. ab_account_pub r = account_pub) (account_bundles db)"

definition sql_select_log :: "string \<Rightarrow> tables \<Rightarrow> account_log_row option" where
  "sql_select_log account_pub db =
     List.find (\<lambda>r. al_account_pub r = account_pub) (account_logs db)"

text \<open>
  \<open>INSERT INTO t (...) VALUES (...) ON CONFLICT(account_pub) DO UPDATE SET ...\<close>: the row with
  the key gets the new columns, or the row is appended.
\<close>

definition upsert_row :: "('r \<Rightarrow> string) \<Rightarrow> 'r \<Rightarrow> 'r list \<Rightarrow> 'r list" where
  "upsert_row key row rows =
     (if list_ex (\<lambda>r. key r = key row) rows
      then map (\<lambda>r. if key r = key row then row else r) rows
      else rows @ [row])"

definition sql_upsert_account :: "string \<Rightarrow> i64 \<Rightarrow> bytes \<Rightarrow> bytes \<Rightarrow> tables \<Rightarrow> tables" where
  "sql_upsert_account account_pub updated_at payload signature db =
     db\<lparr>account_bundles := upsert_row ab_account_pub
          \<lparr>ab_account_pub = account_pub, ab_updated_at = updated_at,
            ab_payload = payload, ab_signature = signature\<rparr> (account_bundles db)\<rparr>"

definition sql_upsert_log :: "string \<Rightarrow> i64 \<Rightarrow> bytes \<Rightarrow> tables \<Rightarrow> tables" where
  "sql_upsert_log account_pub updated_at signed_log db =
     db\<lparr>account_logs := upsert_row al_account_pub
          \<lparr>al_account_pub = account_pub, al_updated_at = updated_at,
            al_signed_log = signed_log\<rparr> (account_logs db)\<rparr>"

text \<open>\<open>DELETE FROM account_bundles WHERE updated_at < ?\<close>\<close>

definition sql_delete_old_accounts :: "i64 \<Rightarrow> tables \<Rightarrow> tables" where
  "sql_delete_old_accounts cutoff db =
     db\<lparr>account_bundles := filter (\<lambda>r. \<not> ab_updated_at r < cutoff) (account_bundles db)\<rparr>"

section \<open>Primary keys\<close>

definition keypackages_pk :: "tables \<Rightarrow> bool" where
  "keypackages_pk db \<longleftrightarrow>
     distinct (map (\<lambda>r. (kp_device_id r, kp_received_at r)) (keypackages db)) \<and>
     distinct (map kp_rowid (keypackages db))"

definition accounts_pk :: "tables \<Rightarrow> bool" where
  "accounts_pk db \<longleftrightarrow> distinct (map ab_account_pub (account_bundles db))"

definition logs_pk :: "tables \<Rightarrow> bool" where
  "logs_pk db \<longleftrightarrow> distinct (map al_account_pub (account_logs db))"

definition tables_wf :: "tables \<Rightarrow> bool" where
  "tables_wf db \<longleftrightarrow> keypackages_pk db \<and> accounts_pk db \<and> logs_pk db"

lemmas tables_wf_defs = tables_wf_def keypackages_pk_def accounts_pk_def logs_pk_def

lemma tables_wf_empty [simp]: "tables_wf empty_tables"
  by (simp add: tables_wf_defs empty_tables_def)

subsection \<open>Sorting and row numbers\<close>

lemma set_order_by_desc [simp]: "set (order_by_desc f rows) = set rows"
  by (simp add: order_by_desc_def)

lemma length_order_by_desc [simp]: "length (order_by_desc f rows) = length rows"
  by (simp add: order_by_desc_def)

lemma length_filter_order_by_desc [simp]:
  "length (filter P (order_by_desc f rows)) = length (filter P rows)"
  unfolding order_by_desc_def by (metis mset_filter mset_sort size_mset)

lemma order_by_desc_sorted: "sorted_wrt (\<lambda>a b. f b \<le> f a) (order_by_desc f rows)"
proof -
  have "sorted_wrt (\<lambda>a b. - f a \<le> - f b) (sort_key (\<lambda>r. - f r) rows)"
    using sorted_sort_key [of "\<lambda>r. - f r" rows] by (simp add: sorted_wrt_map)
  then show ?thesis by (simp add: order_by_desc_def)
qed

lemma sorted_wrt_le_distinct:
  "sorted_wrt (\<lambda>a b. f b \<le> f a) xs \<Longrightarrow> distinct (map f xs) \<Longrightarrow>
     sorted_wrt (\<lambda>a b. f b < (f a :: int)) xs"
proof (induction xs)
  case (Cons a xs)
  then have "f x < f a" if "x \<in> set xs" for x
    using that by (auto simp: order.strict_iff_order) (metis imageI)
  with Cons show ?case by simp
qed simp

lemma order_by_desc_strict:
  assumes "distinct (map f rows)"
  shows "sorted_wrt (\<lambda>a b. f b < f a) (order_by_desc f rows)"
proof (rule sorted_wrt_le_distinct [OF order_by_desc_sorted])
  have "mset (map f (order_by_desc f rows)) = mset (map f rows)"
    by (simp add: order_by_desc_def)
  then show "distinct (map f (order_by_desc f rows))"
    using assms by (metis mset_eq_imp_distinct_iff)
qed

lemma limit_1_order_by_desc_Some:
  "limit_1 (order_by_desc f rows) = Some r \<Longrightarrow> r \<in> set rows \<and> (\<forall>r' \<in> set rows. f r' \<le> f r)"
proof -
  assume "limit_1 (order_by_desc f rows) = Some r"
  then obtain rs where eq: "order_by_desc f rows = r # rs"
    by (auto simp: limit_1_def split: list.splits)
  then have "\<forall>r' \<in> set rs. f r' \<le> f r" using order_by_desc_sorted [of f rows] by simp
  then show ?thesis using eq set_order_by_desc [of f rows] by auto
qed

lemma limit_1_order_by_desc_None: "limit_1 (order_by_desc f rows) = None \<longleftrightarrow> rows = []"
  by (cases "order_by_desc f rows"; use length_order_by_desc [of f rows] in \<open>auto simp: limit_1_def\<close>)

lemma count_above_index:
  "sorted_wrt (\<lambda>a b. f b < (f a :: int)) xs \<Longrightarrow> i < length xs \<Longrightarrow>
     length (filter (\<lambda>x. f (xs ! i) < f x) xs) = i"
proof (induction xs arbitrary: i)
  case (Cons x xs)
  show ?case
  proof (cases i)
    case 0
    with Cons.prems show ?thesis by (auto simp: filter_empty_conv)
  next
    case (Suc j)
    with Cons show ?thesis by auto
  qed
qed simp

text \<open>
  The number of rows of its device that are newer than a row. With the primary key in force
  it is one less than the row's \<open>ROW_NUMBER\<close>.
\<close>

definition newer_count :: "keypackage_row list \<Rightarrow> keypackage_row \<Rightarrow> nat" where
  "newer_count rows r =
     length (filter (\<lambda>r'. kp_device_id r' = kp_device_id r \<and> kp_received_at r < kp_received_at r') rows)"

lemma partition_row_numbers_iff:
  "(a, n) \<in> set (partition_row_numbers d rows) \<longleftrightarrow>
     (\<exists>i < length (filter (\<lambda>r. kp_device_id r = d) rows).
        a = kp_rowid (order_by_desc kp_received_at (filter (\<lambda>r. kp_device_id r = d) rows) ! i) \<and>
        n = int (Suc i))"
  unfolding partition_row_numbers_def Let_def set_zip
  by (force simp del: upt_Suc)

lemma distinct_part:
  assumes "distinct (map (\<lambda>r. (kp_device_id r, kp_received_at r)) rows)"
  shows "distinct (map kp_received_at (filter (\<lambda>r. kp_device_id r = d) rows))"
  using assms by (auto simp: distinct_map inj_on_def)

lemma partition_row_numbers_newer_count:
  assumes "distinct (map (\<lambda>r. (kp_device_id r, kp_received_at r)) rows)"
  shows "(a, n) \<in> set (partition_row_numbers d rows) \<longleftrightarrow>
     (\<exists>r \<in> set rows. kp_device_id r = d \<and> a = kp_rowid r \<and> n = 1 + int (newer_count rows r))"
proof -
  let ?ps = "filter (\<lambda>r. kp_device_id r = d) rows"
  let ?s = "order_by_desc kp_received_at ?ps"
  have index: "newer_count rows (?s ! i) = i" if "i < length ?ps" for i
  proof -
    have "?s ! i \<in> set ?ps" using that by (metis length_order_by_desc nth_mem set_order_by_desc)
    then have "newer_count rows (?s ! i) =
        length (filter (\<lambda>x. kp_received_at (?s ! i) < kp_received_at x) ?ps)"
      by (simp add: newer_count_def conj_commute)
    also have "\<dots> = length (filter (\<lambda>x. kp_received_at (?s ! i) < kp_received_at x) ?s)" by simp
    also have "\<dots> = i"
      using that order_by_desc_strict [OF distinct_part [OF assms]]
      by (intro count_above_index) auto
    finally show ?thesis .
  qed
  show ?thesis
  proof
    assume "(a, n) \<in> set (partition_row_numbers d rows)"
    then obtain i where i: "i < length ?ps" and "a = kp_rowid (?s ! i)" and "n = int (Suc i)"
      by (auto simp: partition_row_numbers_iff)
    moreover have "?s ! i \<in> set ?ps"
      using i by (metis length_order_by_desc nth_mem set_order_by_desc)
    ultimately show "\<exists>r \<in> set rows. kp_device_id r = d \<and> a = kp_rowid r \<and>
        n = 1 + int (newer_count rows r)"
      using index [OF i] by auto
  next
    assume "\<exists>r \<in> set rows. kp_device_id r = d \<and> a = kp_rowid r \<and> n = 1 + int (newer_count rows r)"
    then obtain r where "r \<in> set ?s" and "a = kp_rowid r" and "n = 1 + int (newer_count rows r)"
      by auto
    moreover from this obtain i where "i < length ?ps" and "r = ?s ! i"
      by (metis in_set_conv_nth length_order_by_desc)
    ultimately show "(a, n) \<in> set (partition_row_numbers d rows)"
      using index [of i] by (auto simp: partition_row_numbers_iff)
  qed
qed

lemma row_numbers_iff:
  assumes "distinct (map (\<lambda>r. (kp_device_id r, kp_received_at r)) rows)"
  shows "(a, n) \<in> set (row_numbers rows) \<longleftrightarrow>
     (\<exists>r \<in> set rows. a = kp_rowid r \<and> n = 1 + int (newer_count rows r))"
  using assms by (auto simp: row_numbers_def partition_row_numbers_newer_count)

lemma delete_excess_keeps_newest:
  assumes "keypackages_pk db"
  shows "keypackages (sql_delete_excess_keypackages m db) =
     filter (\<lambda>r. int (newer_count (keypackages db) r) < m) (keypackages db)"
proof -
  let ?rows = "keypackages db"
  have inj: "inj_on kp_rowid (set ?rows)"
    using assms by (simp add: keypackages_pk_def distinct_map)
  have "kp_rowid r \<in> fst ` {(a, n). (a, n) \<in> set (row_numbers ?rows) \<and> m < n} \<longleftrightarrow>
      \<not> int (newer_count ?rows r) < m" if "r \<in> set ?rows" for r
    using assms that inj_onD [OF inj, of r]
    by (force simp: row_numbers_iff keypackages_pk_def image_iff)
  then show ?thesis
    by (auto simp: sql_delete_excess_keypackages_def Let_def intro!: filter_cong)
qed

subsection \<open>Upserts and lookups\<close>

lemma map_key_upsert_row:
  "map key (upsert_row key row rows) =
     (if list_ex (\<lambda>r. key r = key row) rows then map key rows else map key rows @ [key row])"
  by (auto simp: upsert_row_def intro: map_cong)

lemma distinct_upsert_row:
  "distinct (map key rows) \<Longrightarrow> distinct (map key (upsert_row key row rows))"
  by (auto simp: map_key_upsert_row list_ex_iff)

lemma set_upsert_row: "set (upsert_row key row rows) \<subseteq> insert row (set rows)"
  by (auto simp: upsert_row_def)

lemma find_upsert_row:
  "List.find (\<lambda>r. key r = k) (upsert_row key row rows) =
     (if k = key row then Some row else List.find (\<lambda>r. key r = k) rows)"
proof -
  have map: "List.find (\<lambda>r. key r = k) (map (\<lambda>r. if key r = key row then row else r) rows) =
      (if k = key row then map_option (\<lambda>_. row) (List.find (\<lambda>r. key r = k) rows)
       else List.find (\<lambda>r. key r = k) rows)"
    by (induction rows) auto
  have append: "List.find P (rows @ [row]) =
      (case List.find P rows of None \<Rightarrow> if P row then Some row else None | Some r \<Rightarrow> Some r)" for P
    by (induction rows) auto
  show ?thesis
  proof (cases "list_ex (\<lambda>r. key r = key row) rows")
    case True
    then have "List.find (\<lambda>r. key r = key row) rows \<noteq> None"
      by (auto simp: find_None_iff list_ex_iff)
    with True show ?thesis by (auto simp: upsert_row_def map)
  next
    case False
    then have "List.find (\<lambda>r. key r = key row) rows = None"
      by (auto simp: find_None_iff list_ex_iff)
    with False show ?thesis by (auto simp: upsert_row_def append split: option.splits)
  qed
qed

lemma select_account_upsert [simp]:
  "sql_select_account k (sql_upsert_account k' t p s db) =
     (if k = k' then Some \<lparr>ab_account_pub = k', ab_updated_at = t, ab_payload = p, ab_signature = s\<rparr>
      else sql_select_account k db)"
  by (simp add: sql_select_account_def sql_upsert_account_def find_upsert_row)

lemma select_log_upsert [simp]:
  "sql_select_log k (sql_upsert_log k' t b db) =
     (if k = k' then Some \<lparr>al_account_pub = k', al_updated_at = t, al_signed_log = b\<rparr>
      else sql_select_log k db)"
  by (simp add: sql_select_log_def sql_upsert_log_def find_upsert_row)

lemma select_account_Some:
  "sql_select_account k db = Some r \<Longrightarrow> r \<in> set (account_bundles db) \<and> ab_account_pub r = k"
  by (auto simp: sql_select_account_def find_Some_iff)

lemma select_log_Some:
  "sql_select_log k db = Some r \<Longrightarrow> r \<in> set (account_logs db) \<and> al_account_pub r = k"
  by (auto simp: sql_select_log_def find_Some_iff)

lemma find_distinct_key:
  "distinct (map key rows) \<Longrightarrow> r \<in> set rows \<Longrightarrow> List.find (\<lambda>x. key x = key r) rows = Some r"
  by (induction rows) (auto simp: image_iff)

lemma select_account_row:
  "accounts_pk db \<Longrightarrow> r \<in> set (account_bundles db) \<Longrightarrow>
     sql_select_account (ab_account_pub r) db = Some r"
  by (simp add: accounts_pk_def sql_select_account_def find_distinct_key)

lemma find_key_None: "k \<notin> key ` set rows \<Longrightarrow> List.find (\<lambda>r. key r = k) rows = None"
  by (auto simp: find_None_iff)

lemma find_filter_distinct:
  "distinct (map key rows) \<Longrightarrow>
     List.find (\<lambda>r. key r = k) (filter P rows) =
     (case List.find (\<lambda>r. key r = k) rows of None \<Rightarrow> None | Some r \<Rightarrow> if P r then Some r else None)"
  by (induction rows) (auto simp: find_key_None image_iff split: option.splits)

lemma select_account_delete_old:
  "accounts_pk db \<Longrightarrow>
     sql_select_account k (sql_delete_old_accounts c db) =
     (case sql_select_account k db of None \<Rightarrow> None
      | Some r \<Rightarrow> if ab_updated_at r < c then None else Some r)"
  by (simp add: accounts_pk_def sql_select_account_def sql_delete_old_accounts_def
      find_filter_distinct split: option.splits)

subsection \<open>Statements keep the primary keys\<close>

lemma next_rowid_above: "r \<in> set rows \<Longrightarrow> kp_rowid r < next_rowid rows"
proof -
  have fold: "m \<le> fold (\<lambda>r m. max m (kp_rowid r)) xs m \<and>
      (\<forall>r \<in> set xs. kp_rowid r \<le> fold (\<lambda>r m. max m (kp_rowid r)) xs m)" for xs m
  proof (induction xs arbitrary: m)
    case (Cons x xs)
    from Cons [of "max m (kp_rowid x)"] show ?case by auto
  qed simp
  assume "r \<in> set rows"
  then show ?thesis using fold [of 0 rows] by (auto simp: next_rowid_def)
qed

lemma insert_keypackage_wf:
  assumes "tables_wf db" and "sql_insert_keypackage d t p s db = Some db'"
  shows "tables_wf db'"
proof -
  have "next_rowid (keypackages db) \<notin> kp_rowid ` set (keypackages db)"
    using next_rowid_above by (auto dest!: next_rowid_above)
  with assms show ?thesis
    by (auto simp: tables_wf_defs sql_insert_keypackage_def list_ex_iff split: if_splits)
qed

lemma distinct_map_filter_imp: "distinct (map f xs) \<Longrightarrow> distinct (map f (filter P xs))"
  by (simp add: distinct_map_filter)

lemma delete_old_keypackages_wf: "tables_wf db \<Longrightarrow> tables_wf (sql_delete_old_keypackages c db)"
  by (simp add: tables_wf_defs sql_delete_old_keypackages_def distinct_map_filter_imp)

lemma delete_excess_keypackages_wf: "tables_wf db \<Longrightarrow> tables_wf (sql_delete_excess_keypackages m db)"
  by (simp add: tables_wf_defs sql_delete_excess_keypackages_def Let_def distinct_map_filter_imp)

lemma delete_old_accounts_wf: "tables_wf db \<Longrightarrow> tables_wf (sql_delete_old_accounts c db)"
  by (simp add: tables_wf_defs sql_delete_old_accounts_def distinct_map_filter_imp)

lemma upsert_account_wf: "tables_wf db \<Longrightarrow> tables_wf (sql_upsert_account k t p s db)"
  by (simp add: tables_wf_defs sql_upsert_account_def distinct_upsert_row)

lemma upsert_log_wf: "tables_wf db \<Longrightarrow> tables_wf (sql_upsert_log k t b db)"
  by (simp add: tables_wf_defs sql_upsert_log_def distinct_upsert_row)

lemmas statements_wf = insert_keypackage_wf delete_old_keypackages_wf
  delete_excess_keypackages_wf delete_old_accounts_wf upsert_account_wf upsert_log_wf

subsection \<open>The latest keypackage\<close>

lemma latest_keypackage_Some:
  assumes "sql_latest_keypackage d db = Some r"
  shows "r \<in> set (keypackages db)" and "kp_device_id r = d"
    and "\<And>r'. r' \<in> set (keypackages db) \<Longrightarrow> kp_device_id r' = d \<Longrightarrow> kp_received_at r' \<le> kp_received_at r"
  using limit_1_order_by_desc_Some assms unfolding sql_latest_keypackage_def by fastforce+

lemma latest_keypackage_None:
  "sql_latest_keypackage d db = None \<longleftrightarrow> (\<forall>r \<in> set (keypackages db). kp_device_id r \<noteq> d)"
  by (simp add: sql_latest_keypackage_def limit_1_order_by_desc_None filter_empty_conv)

text \<open>With the primary key, the newest row of a device is the only one with its stamp.\<close>

lemma latest_keypackage_unique:
  assumes "keypackages_pk db" and "r \<in> set (keypackages db)"
    and "\<And>r'. r' \<in> set (keypackages db) \<Longrightarrow> kp_device_id r' = kp_device_id r \<Longrightarrow>
           kp_received_at r' \<le> kp_received_at r"
  shows "sql_latest_keypackage (kp_device_id r) db = Some r"
proof (cases "sql_latest_keypackage (kp_device_id r) db")
  case None
  with assms(2) show ?thesis by (auto simp: latest_keypackage_None)
next
  case (Some r')
  note r' = latest_keypackage_Some [OF Some]
  have "kp_received_at r' = kp_received_at r"
    using r'(3) [OF assms(2)] assms(3) [OF r'(1,2)] by simp
  with r'(1,2) assms(1,2) have "r' = r"
    by (auto simp: keypackages_pk_def distinct_map inj_on_def)
  with Some show ?thesis by simp
qed

lemma newer_count_0_iff:
  "newer_count rows r = 0 \<longleftrightarrow>
     (\<forall>r' \<in> set rows. kp_device_id r' = kp_device_id r \<longrightarrow> kp_received_at r' \<le> kp_received_at r)"
  by (auto simp: newer_count_def filter_empty_conv)

end
