(* ===== verification/Store.thy ===== *)
theory Store
  imports Timekeeping Lamport External Sql_Tables
begin

text \<open>
  The store of \<open>src/store.rs\<close>: its database calls and every operation of \<open>impl Store\<close> but
  \<open>open\<close>. The state holds the tables behind the connection pool and two things the environment
  decides: the clock, and the failures of the coming database calls. An operation runs under the
  store's write lock where the code takes it, so here it is one step; how the lock makes it so
  among concurrent requests is the subject of theory \<open>Write_Lock\<close>.
\<close>

section \<open>State and database calls\<close>

record store =
  pool :: tables
  clock :: system_time
  faults :: "sqlx_error option list"

type_synonym 'a store_op = "(store, anyhow, 'a) eff"

text \<open>
  Each call into the database consumes one entry of \<open>faults\<close>: \<open>Some e\<close> makes the call fail
  with \<open>e\<close> before it has any effect; when the list is used up no call fails.
\<close>

definition db_call :: "unit store_op" where
  "db_call = (\<lambda>s. case faults s of
       [] \<Rightarrow> (Inr (), s)
     | None # fs \<Rightarrow> (Inr (), s\<lparr>faults := fs\<rparr>)
     | Some e # fs \<Rightarrow> (Inl (AnySqlx e), s\<lparr>faults := fs\<rparr>))"

text \<open>A query and a statement on the pool; a statement commits when it ends.\<close>

definition fetch_pool :: "(tables \<Rightarrow> 'a) \<Rightarrow> 'a store_op" where
  "fetch_pool query = try_await db_call (\<lambda>_ s. (Inr (query (pool s)), s))"

definition execute_pool :: "(tables \<Rightarrow> tables option) \<Rightarrow> unit store_op" where
  "execute_pool stmt = try_await db_call (\<lambda>_ s.
     case stmt (pool s) of
       None \<Rightarrow> (Inl (AnySqlx UniqueViolation), s)
     | Some db \<Rightarrow> (Inr (), s\<lparr>pool := db\<rparr>))"

text \<open>
  A transaction is its own view of the tables: \<open>begin\<close> takes it, statements change it, \<open>commit\<close>
  publishes it, and dropping it publishes nothing.
\<close>

definition begin_tx :: "tables store_op" where
  "begin_tx = try_await db_call (\<lambda>_ s. (Inr (pool s), s))"

definition fetch_tx :: "(tables \<Rightarrow> 'a) \<Rightarrow> tables \<Rightarrow> 'a store_op" where
  "fetch_tx query tx = try_await db_call (\<lambda>_. ok (query tx))"

definition execute_tx :: "(tables \<Rightarrow> tables) \<Rightarrow> tables \<Rightarrow> tables store_op" where
  "execute_tx stmt tx = try_await db_call (\<lambda>_. ok (stmt tx))"

definition commit_tx :: "tables \<Rightarrow> unit store_op" where
  "commit_tx tx = try_await db_call (\<lambda>_ s. (Inr (), s\<lparr>pool := tx\<rparr>))"

section \<open>Operations\<close>

record stored_key_package_bundle =
  skp_payload :: bytes
  skp_signature :: bytes

record stored_account_bundle =
  sab_payload :: bytes
  sab_signature :: bytes
  sab_updated_at :: i64

definition store_insert :: "string \<Rightarrow> stored_key_package_bundle \<Rightarrow> unit store_op" where
  "store_insert device_id bundle = (\<lambda>s.
     let received_at = stamp_ms (clock s) in
     execute_pool (sql_insert_keypackage device_id received_at
       (skp_payload bundle) (skp_signature bundle)) s)"

definition latest :: "string \<Rightarrow> stored_key_package_bundle option store_op" where
  "latest device_id =
     fetch_pool (\<lambda>db. map_option
       (\<lambda>r. \<lparr>skp_payload = kp_payload r, skp_signature = kp_signature r\<rparr>)
       (sql_latest_keypackage device_id db))"

definition upsert_account :: "string \<Rightarrow> u64 \<Rightarrow> stored_account_bundle \<Rightarrow> bool store_op" where
  "upsert_account account_pub lamport bundle = (\<lambda>s.
     let updated_at = stamp_ms (clock s) in
     try_await begin_tx (\<lambda>tx.
     try_await (fetch_tx (\<lambda>db. map_option ab_payload (sql_select_account account_pub db)) tx) (\<lambda>row.
       let existing_lamport = Option.bind row payload_lamport in
       if (case existing_lamport of None \<Rightarrow> False | Some stored \<Rightarrow> lamport \<le> stored)
       then ok False
       else
         try_await (execute_tx (sql_upsert_account account_pub updated_at
           (sab_payload bundle) (sab_signature bundle)) tx) (\<lambda>tx.
         try_await (commit_tx tx) (\<lambda>_. ok True)))) s)"

definition get_account :: "string \<Rightarrow> stored_account_bundle option store_op" where
  "get_account account_pub =
     fetch_pool (\<lambda>db. map_option
       (\<lambda>r. \<lparr>sab_payload = ab_payload r, sab_signature = ab_signature r,
              sab_updated_at = ab_updated_at r\<rparr>)
       (sql_select_account account_pub db))"

definition put_account_log :: "('a, 's, 'r) account_log_api \<Rightarrow> 'r \<Rightarrow> outcome store_op" where
  "put_account_log api candidate = (\<lambda>s.
     let updated_at = stamp_ms (clock s);
         account_pub = addr_to_string api (record_addr api candidate) in
     try_await begin_tx (\<lambda>tx.
     try_await (fetch_tx (\<lambda>db. map_option al_signed_log (sql_select_log account_pub db)) tx) (\<lambda>stored.
     try_await
       (case stored of
          None \<Rightarrow> ok \<lparr>upd_outcome = Updated, upd_record = candidate\<rparr>
        | Some bytes \<Rightarrow>
            (case signed_from_bytes api bytes of
               Inl e \<Rightarrow> fail (AnyLog e)
             | Inr slog \<Rightarrow>
                 (case record_new api (record_addr api candidate) slog of
                    Inl e \<Rightarrow> fail (AnyContext ''stored account log no longer verifies'' (AnyLog e))
                  | Inr record \<Rightarrow> ok (record_update api record (record_signed_log api candidate)))))
       (\<lambda>update.
       if upd_outcome update \<noteq> Updated then ok (upd_outcome update)
       else
         try_await (execute_tx (sql_upsert_log account_pub updated_at
           (signed_to_bytes api (record_signed_log api (upd_record update)))) tx) (\<lambda>tx.
         try_await (commit_tx tx) (\<lambda>_. ok Updated))))) s)"

definition get_account_log :: "('a, 's, 'r) account_log_api \<Rightarrow> 'a \<Rightarrow> bytes option store_op" where
  "get_account_log api addr =
     fetch_pool (\<lambda>db. map_option al_signed_log (sql_select_log (addr_to_string api addr) db))"

definition prune_accounts :: "duration \<Rightarrow> unit store_op" where
  "prune_accounts retention = (\<lambda>s.
     let cutoff = cutoff_ms (clock s) retention in
     execute_pool (\<lambda>db. Some (sql_delete_old_accounts cutoff db)) s)"

definition prune_key_packages :: "usize \<Rightarrow> duration \<Rightarrow> unit store_op" where
  "prune_key_packages max_per_identity retention = (\<lambda>s.
     let cutoff = cutoff_ms (clock s) retention in
     try_await (execute_pool (\<lambda>db. Some (sql_delete_old_keypackages cutoff db))) (\<lambda>_.
     execute_pool (\<lambda>db. Some (sql_delete_excess_keypackages (as_i64 max_per_identity) db))) s)"

section \<open>Database calls, run\<close>

text \<open>
  A call changes nothing of the store but the list of faults. \<open>env_step s t\<close> says that \<open>t\<close> is
  \<open>s\<close> after some calls and no committed statement.
\<close>

definition env_step :: "store \<Rightarrow> store \<Rightarrow> bool" where
  "env_step s t \<longleftrightarrow> pool t = pool s \<and> clock t = clock s \<and> suffix (faults t) (faults s)"

lemma env_step_refl [simp]: "env_step s s"
  by (simp add: env_step_def)

lemma env_step_trans: "env_step s t \<Longrightarrow> env_step t u \<Longrightarrow> env_step s u"
  unfolding env_step_def by (metis suffix_order.trans)

lemma db_call_env: "db_call s = (r, t) \<Longrightarrow> env_step s t"
  by (auto simp: db_call_def env_step_def suffix_def split: list.splits option.splits)

lemma db_call_no_fault: "faults s = [] \<Longrightarrow> db_call s = (Inr (), s)"
  by (simp add: db_call_def)

lemma fetch_pool_cases:
  assumes "fetch_pool q s = (r, t)"
  obtains (err) e where "r = Inl e" and "env_step s t"
  | (val) "r = Inr (q (pool s))" and "env_step s t"
  using assms unfolding fetch_pool_def
  by (auto elim!: try_await_cases dest: db_call_env simp: env_step_def)

lemma begin_tx_cases:
  assumes "begin_tx s = (r, t)"
  obtains (err) e where "r = Inl e" and "env_step s t"
  | (val) "r = Inr (pool s)" and "env_step s t"
  using assms unfolding begin_tx_def
  by (auto elim!: try_await_cases dest: db_call_env simp: env_step_def)

lemma fetch_tx_cases:
  assumes "fetch_tx q tx s = (r, t)"
  obtains (err) e where "r = Inl e" and "env_step s t"
  | (val) "r = Inr (q tx)" and "env_step s t"
  using assms unfolding fetch_tx_def
  by (auto elim!: try_await_cases dest: db_call_env simp: ok_def)

lemma execute_tx_cases:
  assumes "execute_tx f tx s = (r, t)"
  obtains (err) e where "r = Inl e" and "env_step s t"
  | (val) "r = Inr (f tx)" and "env_step s t"
  using assms unfolding execute_tx_def
  by (auto elim!: try_await_cases dest: db_call_env simp: ok_def)

lemma commit_tx_cases:
  assumes "commit_tx tx s = (r, t)"
  obtains (err) e where "r = Inl e" and "env_step s t"
  | (val) u where "r = Inr ()" and "env_step s u" and "t = u\<lparr>pool := tx\<rparr>"
  using assms unfolding commit_tx_def
  by (auto elim!: try_await_cases dest: db_call_env)

lemma env_stepD: "env_step s t \<Longrightarrow> pool t = pool s" "env_step s t \<Longrightarrow> clock t = clock s"
  by (simp_all add: env_step_def)

lemma execute_pool_cases:
  assumes "execute_pool f s = (r, t)"
  obtains (err) e where "r = Inl e" and "env_step s t"
  | (conflict) "r = Inl (AnySqlx UniqueViolation)" and "f (pool s) = None" and "env_step s t"
  | (val) u db where "r = Inr ()" and "f (pool s) = Some db" and "env_step s u"
      and "t = u\<lparr>pool := db\<rparr>"
  using assms unfolding execute_pool_def
proof (cases rule: try_await_cases)
  case (err e)
  then show ?thesis using that(1) db_call_env by blast
next
  case (val x u)
  have "env_step s u" by (rule db_call_env [OF val(1)])
  with val(2) that(2,3) show ?thesis by (auto simp: env_stepD split: option.splits)
qed

text \<open>Both upserts end with one statement on the transaction and its commit.\<close>

lemma execute_commit_cases:
  assumes "try_await (execute_tx f tx) (\<lambda>tx. try_await (commit_tx tx) (\<lambda>_. ok x)) s = (r, t)"
  obtains (err) e where "r = Inl e" and "env_step s t"
  | (stored) u where "r = Inr x" and "env_step s u" and "t = u\<lparr>pool := f tx\<rparr>"
  using assms by (auto elim!: try_await_cases execute_tx_cases commit_tx_cases simp: eff_simps)
    (blast intro: env_step_trans)+

text \<open>And both start with the transaction and one query on it.\<close>

lemma begin_fetch_cases:
  assumes "try_await begin_tx (\<lambda>tx. try_await (fetch_tx q tx) (k tx)) s = (r, t)"
  obtains (err) e where "r = Inl e" and "env_step s t"
  | (val) u where "env_step s u" and "k (pool s) (q (pool s)) u = (r, t)"
  using assms by (auto elim!: try_await_cases begin_tx_cases fetch_tx_cases)
    (blast intro: env_step_trans)+

section \<open>Operations, run\<close>

text \<open>A row that an upsert with lamport \<open>l\<close> does not replace.\<close>

definition holds_lamport :: "string \<Rightarrow> u64 \<Rightarrow> tables \<Rightarrow> bool" where
  "holds_lamport k l db \<longleftrightarrow>
     (case Option.bind (map_option ab_payload (sql_select_account k db)) payload_lamport of
        None \<Rightarrow> False | Some stored \<Rightarrow> l \<le> stored)"

lemma holds_lamport_iff:
  "holds_lamport k l db \<longleftrightarrow>
     (\<exists>r stored. sql_select_account k db = Some r \<and> payload_lamport (ab_payload r) = Some stored \<and>
        l \<le> stored)"
  by (auto simp: holds_lamport_def split: option.splits bind_splits)

lemma upsert_account_cases:
  assumes "upsert_account k l b s = (r, t)"
  obtains (err) e where "r = Inl e" and "env_step s t"
  | (stale) "r = Inr False" and "env_step s t" and "holds_lamport k l (pool s)"
  | (stored) u where "r = Inr True" and "env_step s u" and "\<not> holds_lamport k l (pool s)"
      and "t = u\<lparr>pool := sql_upsert_account k (stamp_ms (clock s)) (sab_payload b)
                   (sab_signature b) (pool s)\<rparr>"
  using assms unfolding upsert_account_def Let_def
proof (cases rule: begin_fetch_cases)
  case (err e)
  then show thesis using that(1) by blast
next
  case (val u)
  show thesis
  proof (cases "holds_lamport k l (pool s)")
    case True
    with val that(2) show thesis by (simp add: holds_lamport_def eff_simps)
  next
    case False
    with val(2) have "try_await (execute_tx (sql_upsert_account k (stamp_ms (clock s))
        (sab_payload b) (sab_signature b)) (pool s))
        (\<lambda>tx. try_await (commit_tx tx) (\<lambda>_. ok True)) u = (r, t)"
      by (simp add: holds_lamport_def)
    then show thesis
      by (cases rule: execute_commit_cases) (use False env_step_trans [OF val(1)] that in blast)+
  qed
qed

lemma store_insert_cases:
  assumes "store_insert d b s = (r, t)"
  obtains (err) e where "r = Inl e" and "env_step s t"
  | (conflict) "r = Inl (AnySqlx UniqueViolation)" and "env_step s t"
      and "sql_insert_keypackage d (stamp_ms (clock s)) (skp_payload b) (skp_signature b) (pool s) = None"
  | (stored) u db where "r = Inr ()" and "env_step s u" and "t = u\<lparr>pool := db\<rparr>"
      and "sql_insert_keypackage d (stamp_ms (clock s)) (skp_payload b) (skp_signature b) (pool s) = Some db"
  using assms unfolding store_insert_def Let_def by (cases rule: execute_pool_cases) auto

text \<open>What a candidate log is compared with, and the result of the comparison.\<close>

definition log_decision ::
  "('a, 's, 'r) account_log_api \<Rightarrow> 'r \<Rightarrow> tables \<Rightarrow> anyhow + 'r account_record_update" where
  "log_decision api candidate db =
     (case sql_select_log (addr_to_string api (record_addr api candidate)) db of
        None \<Rightarrow> Inr \<lparr>upd_outcome = Updated, upd_record = candidate\<rparr>
      | Some row \<Rightarrow>
          (case signed_from_bytes api (al_signed_log row) of
             Inl e \<Rightarrow> Inl (AnyLog e)
           | Inr slog \<Rightarrow>
               (case record_new api (record_addr api candidate) slog of
                  Inl e \<Rightarrow> Inl (AnyContext ''stored account log no longer verifies'' (AnyLog e))
                | Inr rec \<Rightarrow> Inr (record_update api rec (record_signed_log api candidate)))))"

lemma try_await_fetch_tx: "try_await (fetch_tx q tx) k = try_await db_call (\<lambda>_. k (q tx))"
  by (rule ext) (simp add: fetch_tx_def try_await_def ok_def split: sum.split prod.split)

lemma try_await_option_log:
  "try_await (case map_option al_signed_log row of
          None \<Rightarrow> ok x
        | Some b \<Rightarrow> (case f b of Inl e \<Rightarrow> fail (g e)
             | Inr y \<Rightarrow> (case h y of Inl e \<Rightarrow> fail (i e) | Inr z \<Rightarrow> ok (j z)))) k =
     (case (case row of None \<Rightarrow> Inr x
        | Some w \<Rightarrow> (case f (al_signed_log w) of Inl e \<Rightarrow> Inl (g e)
             | Inr y \<Rightarrow> (case h y of Inl e \<Rightarrow> Inl (i e) | Inr z \<Rightarrow> Inr (j z)))) of
        Inl e \<Rightarrow> fail e | Inr z \<Rightarrow> k z)"
  by (rule ext) (simp add: try_await_def ok_def fail_def split: option.split sum.split)

lemma put_account_log_decision:
  "put_account_log api c s =
     try_await begin_tx (\<lambda>tx.
     try_await (fetch_tx (log_decision api c) tx) (\<lambda>d.
       case d of Inl e \<Rightarrow> fail e
       | Inr upd \<Rightarrow>
           if upd_outcome upd \<noteq> Updated then ok (upd_outcome upd)
           else try_await (execute_tx (sql_upsert_log (addr_to_string api (record_addr api c))
             (stamp_ms (clock s)) (signed_to_bytes api (record_signed_log api (upd_record upd)))) tx)
             (\<lambda>tx. try_await (commit_tx tx) (\<lambda>_. ok Updated)))) s"
  unfolding put_account_log_def Let_def try_await_fetch_tx try_await_option_log log_decision_def
  by (rule refl)

lemma put_account_log_cases:
  assumes "put_account_log api c s = (r, t)"
  obtains (err) e where "r = Inl e" and "env_step s t"
  | (refused) e where "r = Inl e" and "env_step s t" and "log_decision api c (pool s) = Inl e"
  | (unchanged) upd where "r = Inr (upd_outcome upd)" and "env_step s t"
      and "log_decision api c (pool s) = Inr upd" and "upd_outcome upd \<noteq> Updated"
  | (stored) upd u where "r = Inr Updated" and "env_step s u"
      and "log_decision api c (pool s) = Inr upd" and "upd_outcome upd = Updated"
      and "t = u\<lparr>pool := sql_upsert_log (addr_to_string api (record_addr api c)) (stamp_ms (clock s))
                   (signed_to_bytes api (record_signed_log api (upd_record upd))) (pool s)\<rparr>"
  using assms unfolding put_account_log_decision
proof (cases rule: begin_fetch_cases)
  case (err e)
  then show thesis using that(1) by blast
next
  case (val u)
  show thesis
  proof (cases "log_decision api c (pool s)")
    case (Inl e)
    with val have "r = Inl e" and "u = t" by (auto simp: eff_simps)
    with val(1) Inl that(2) show thesis by blast
  next
    case (Inr upd)
    show thesis
    proof (cases "upd_outcome upd = Updated")
      case True
      with val(2) Inr have "try_await (execute_tx (sql_upsert_log
          (addr_to_string api (record_addr api c)) (stamp_ms (clock s))
          (signed_to_bytes api (record_signed_log api (upd_record upd)))) (pool s))
          (\<lambda>tx. try_await (commit_tx tx) (\<lambda>_. ok Updated)) u = (r, t)"
        by simp
      then show thesis
        by (cases rule: execute_commit_cases) (use True Inr env_step_trans [OF val(1)] that in blast)+
    next
      case False
      with val Inr have "r = Inr (upd_outcome upd)" and "u = t" by (auto simp: eff_simps)
      with val(1) Inr False that(3) show thesis by blast
    qed
  qed
qed

lemma prune_accounts_cases:
  assumes "prune_accounts ret s = (r, t)"
  obtains (err) e where "r = Inl e" and "env_step s t"
  | (pruned) u where "r = Inr ()" and "env_step s u"
      and "t = u\<lparr>pool := sql_delete_old_accounts (cutoff_ms (clock s) ret) (pool s)\<rparr>"
  using assms unfolding prune_accounts_def Let_def by (cases rule: execute_pool_cases) auto

text \<open>
  \<open>prune_key_packages\<close> runs its two statements outside a transaction, so a failure of the
  second one leaves the first one's effect.
\<close>

lemma prune_key_packages_cases:
  assumes "prune_key_packages m ret s = (r, t)"
  obtains (err) e where "r = Inl e" and "env_step s t"
  | (half) e where "r = Inl e" and "clock t = clock s"
      and "pool t = sql_delete_old_keypackages (cutoff_ms (clock s) ret) (pool s)"
  | (pruned) "r = Inr ()" and "clock t = clock s"
      and "pool t = sql_delete_excess_keypackages (as_i64 m)
             (sql_delete_old_keypackages (cutoff_ms (clock s) ret) (pool s))"
  using assms unfolding prune_key_packages_def Let_def
  by (auto elim!: try_await_cases execute_pool_cases simp: env_stepD)

section \<open>Every operation keeps the primary keys\<close>

definition store_wf :: "store \<Rightarrow> bool" where
  "store_wf s \<longleftrightarrow> tables_wf (pool s)"

lemma store_wf_env: "env_step s t \<Longrightarrow> store_wf s \<Longrightarrow> store_wf t"
  by (simp add: store_wf_def env_stepD)

lemma keeps_casesI: "(\<And>s r t. m s = (r, t) \<Longrightarrow> P s \<Longrightarrow> P t) \<Longrightarrow> keeps P m"
  by (auto simp: keeps_def) (metis prod.collapse)

lemma store_insert_wf: "keeps store_wf (store_insert d b)"
proof (rule keeps_casesI)
  fix s r t assume "store_insert d b s = (r, t)" and "store_wf s"
  then show "store_wf t"
    by (cases rule: store_insert_cases)
      (auto simp: store_wf_def env_stepD intro: insert_keypackage_wf)
qed

lemma upsert_account_store_wf: "keeps store_wf (upsert_account k l b)"
proof (rule keeps_casesI)
  fix s r t assume "upsert_account k l b s = (r, t)" and "store_wf s"
  then show "store_wf t"
    by (cases rule: upsert_account_cases) (auto simp: store_wf_def env_stepD intro: upsert_account_wf)
qed

lemma put_account_log_wf: "keeps store_wf (put_account_log api c)"
proof (rule keeps_casesI)
  fix s r t assume "put_account_log api c s = (r, t)" and "store_wf s"
  then show "store_wf t"
    by (cases rule: put_account_log_cases) (auto simp: store_wf_def env_stepD intro: upsert_log_wf)
qed

lemma prune_accounts_wf: "keeps store_wf (prune_accounts ret)"
proof (rule keeps_casesI)
  fix s r t assume "prune_accounts ret s = (r, t)" and "store_wf s"
  then show "store_wf t"
    by (cases rule: prune_accounts_cases) (auto simp: store_wf_def env_stepD intro: delete_old_accounts_wf)
qed

lemma prune_key_packages_wf: "keeps store_wf (prune_key_packages m ret)"
proof (rule keeps_casesI)
  fix s r t assume "prune_key_packages m ret s = (r, t)" and "store_wf s"
  then show "store_wf t"
    by (cases rule: prune_key_packages_cases)
      (auto simp: store_wf_def env_stepD intro: delete_old_keypackages_wf delete_excess_keypackages_wf)
qed

lemmas store_ops_wf = store_insert_wf upsert_account_store_wf put_account_log_wf
  prune_accounts_wf prune_key_packages_wf

section \<open>Operations without database failures\<close>

text \<open>Where no call fails, each operation is a function of the tables and the clock.\<close>

definition quiet :: "store \<Rightarrow> bool" where
  "quiet s \<longleftrightarrow> faults s = []"

lemmas quiet_defs = quiet_def db_call_def try_await_def ok_def fail_def fetch_pool_def
  execute_pool_def begin_tx_def fetch_tx_def execute_tx_def commit_tx_def Let_def

lemma store_insert_quiet:
  "quiet s \<Longrightarrow> store_insert d b s =
     (case sql_insert_keypackage d (stamp_ms (clock s)) (skp_payload b) (skp_signature b) (pool s) of
        None \<Rightarrow> (Inl (AnySqlx UniqueViolation), s)
      | Some db \<Rightarrow> (Inr (), s\<lparr>pool := db\<rparr>))"
  by (simp add: store_insert_def quiet_defs)

lemma latest_quiet:
  "quiet s \<Longrightarrow> latest d s = (Inr (map_option
     (\<lambda>r. \<lparr>skp_payload = kp_payload r, skp_signature = kp_signature r\<rparr>)
     (sql_latest_keypackage d (pool s))), s)"
  by (simp add: latest_def quiet_defs)

lemma upsert_account_quiet:
  "quiet s \<Longrightarrow> upsert_account k l b s =
     (if holds_lamport k l (pool s) then (Inr False, s)
      else (Inr True, s\<lparr>pool := sql_upsert_account k (stamp_ms (clock s)) (sab_payload b)
                          (sab_signature b) (pool s)\<rparr>))"
  by (simp add: upsert_account_def holds_lamport_def quiet_defs)

lemma get_account_quiet:
  "quiet s \<Longrightarrow> get_account k s = (Inr (map_option
     (\<lambda>r. \<lparr>sab_payload = ab_payload r, sab_signature = ab_signature r,
            sab_updated_at = ab_updated_at r\<rparr>) (sql_select_account k (pool s))), s)"
  by (simp add: get_account_def quiet_defs)

lemma put_account_log_quiet:
  "quiet s \<Longrightarrow> put_account_log api c s =
     (case log_decision api c (pool s) of
        Inl e \<Rightarrow> (Inl e, s)
      | Inr upd \<Rightarrow>
          if upd_outcome upd = Updated
          then (Inr Updated, s\<lparr>pool := sql_upsert_log (addr_to_string api (record_addr api c))
                 (stamp_ms (clock s)) (signed_to_bytes api (record_signed_log api (upd_record upd)))
                 (pool s)\<rparr>)
          else (Inr (upd_outcome upd), s))"
  by (simp add: put_account_log_def log_decision_def quiet_defs split: option.splits sum.splits)

lemma get_account_log_quiet:
  "quiet s \<Longrightarrow> get_account_log api a s =
     (Inr (map_option al_signed_log (sql_select_log (addr_to_string api a) (pool s))), s)"
  by (simp add: get_account_log_def quiet_defs)

lemma prune_accounts_quiet:
  "quiet s \<Longrightarrow> prune_accounts ret s =
     (Inr (), s\<lparr>pool := sql_delete_old_accounts (cutoff_ms (clock s) ret) (pool s)\<rparr>)"
  by (simp add: prune_accounts_def quiet_defs)

lemma prune_key_packages_quiet:
  "quiet s \<Longrightarrow> prune_key_packages m ret s =
     (Inr (), s\<lparr>pool := sql_delete_excess_keypackages (as_i64 m)
                  (sql_delete_old_keypackages (cutoff_ms (clock s) ret) (pool s))\<rparr>)"
  by (simp add: prune_key_packages_def quiet_defs)

lemma quiet_pool_update [simp]: "quiet (s\<lparr>pool := db\<rparr>) = quiet s"
  by (simp add: quiet_def)

lemmas store_quiet = store_insert_quiet latest_quiet upsert_account_quiet get_account_quiet
  put_account_log_quiet get_account_log_quiet prune_accounts_quiet prune_key_packages_quiet

end
