(* ===== verification/Versioned.thy ===== *)
theory Versioned
  imports Prelude
begin

text \<open>
  The contract shared by the two account tables: a keyed store in which a submission replaces
  the value of its key only when it is newer. Locale \<open>cells\<close> is what a reader of such a store
  relies on, over any step relation of the system; locale \<open>cas_table\<close> is what the store's
  compare-and-swap operation promises, and gives the reader's contract for sequences of
  submissions. \<open>accepted\<close> lists the values a sequence of submissions stored under one key.
\<close>

section \<open>Cells that only advance\<close>

locale versions =
  fixes newer :: "'v \<Rightarrow> 'v \<Rightarrow> bool"
  assumes newer_trans: "newer a b \<Longrightarrow> newer b c \<Longrightarrow> newer a c"
    and newer_irrefl: "\<not> newer a a"

locale cells = versions newer
  for newer :: "'v \<Rightarrow> 'v \<Rightarrow> bool" +
  fixes get :: "'s \<Rightarrow> 'k \<Rightarrow> 'v option"
    and step :: "'s \<Rightarrow> 's \<Rightarrow> bool"
  assumes advance: "step s t \<Longrightarrow> get s k = Some v \<Longrightarrow>
      \<exists>v'. get t k = Some v' \<and> (v' = v \<or> newer v v')"
begin

lemma advance_steps:
  assumes "step\<^sup>*\<^sup>* s t" and "get s k = Some v"
  shows "\<exists>v'. get t k = Some v' \<and> (v' = v \<or> newer v v')"
  using assms(1)
proof (induction rule: rtranclp_induct)
  case base
  then show ?case using assms(2) by simp
next
  case (step t u)
  then show ?case by (metis advance newer_trans)
qed

text \<open>A value that has been replaced never comes back.\<close>

lemma no_return:
  assumes "get s k = Some v" and "step\<^sup>*\<^sup>* s t" and "get t k \<noteq> Some v" and "step\<^sup>*\<^sup>* t u"
  shows "get u k \<noteq> Some v"
proof
  assume u: "get u k = Some v"
  obtain v' where v': "get t k = Some v'" and "newer v v'"
    using advance_steps [OF assms(2,1)] assms(3) by auto
  then have "newer v v" using advance_steps [OF assms(4) v'] u newer_trans by auto
  then show False by (simp add: newer_irrefl)
qed

end

section \<open>Compare-and-swap\<close>

text \<open>
  \<open>put x o\<close> submits \<open>o\<close> under circumstances \<open>x\<close> (the instant, the failures of the medium), and
  \<open>stored\<close> reads off its result whether the submission was stored.
\<close>

fun accepted ::
  "('x \<Rightarrow> 'o \<Rightarrow> 's \<Rightarrow> 'r \<times> 's) \<Rightarrow> ('o \<Rightarrow> 'k) \<Rightarrow> ('o \<Rightarrow> 'v) \<Rightarrow> ('r \<Rightarrow> bool) \<Rightarrow> 'k \<Rightarrow>
   ('x \<times> 'o) list \<Rightarrow> 's \<Rightarrow> 'v list" where
  "accepted put key_of val_of stored k [] s = []"
| "accepted put key_of val_of stored k ((x, ob) # ops) s =
     (let (r, t) = put x ob s in
      (if key_of ob = k \<and> stored r then [val_of ob] else []) @
      accepted put key_of val_of stored k ops t)"

fun put_all :: "('x \<Rightarrow> 'o \<Rightarrow> 's \<Rightarrow> 'r \<times> 's) \<Rightarrow> ('x \<times> 'o) list \<Rightarrow> 's \<Rightarrow> 's" where
  "put_all put [] s = s"
| "put_all put ((x, ob) # ops) s = put_all put ops (snd (put x ob s))"

lemma accepted_all:
  assumes "\<And>x ob s r t. put x ob s = (r, t) \<Longrightarrow> stored r \<Longrightarrow> P (val_of ob)"
  shows "v \<in> set (accepted put key_of val_of stored k ops s) \<Longrightarrow> P v"
proof (induction ops arbitrary: s)
  case (Cons o1 ops)
  obtain x ob where o1: "o1 = (x, ob)" by (cases o1)
  obtain r t where "put x ob s = (r, t)" by fastforce
  with Cons o1 show ?case using assms [of x ob s r t] by (auto split: if_splits)
qed simp

locale cas_table = versions newer
  for newer :: "'v \<Rightarrow> 'v \<Rightarrow> bool" +
  fixes put :: "'x \<Rightarrow> 'o \<Rightarrow> 's \<Rightarrow> 'r \<times> 's"
    and key_of :: "'o \<Rightarrow> 'k"
    and val_of :: "'o \<Rightarrow> 'v"
    and get :: "'s \<Rightarrow> 'k \<Rightarrow> 'v option"
    and stored :: "'r \<Rightarrow> bool"
    and valid :: "'o \<Rightarrow> bool"
    and inv :: "'s \<Rightarrow> bool"
  assumes put_stored: "inv s \<Longrightarrow> valid ob \<Longrightarrow> put x ob s = (r, t) \<Longrightarrow> stored r \<Longrightarrow>
      get t = (get s)(key_of ob \<mapsto> val_of ob) \<and>
      (\<forall>v. get s (key_of ob) = Some v \<longrightarrow> newer v (val_of ob))"
    and put_refused: "inv s \<Longrightarrow> valid ob \<Longrightarrow> put x ob s = (r, t) \<Longrightarrow> \<not> stored r \<Longrightarrow> get t = get s"
    and put_inv: "inv s \<Longrightarrow> valid ob \<Longrightarrow> inv (snd (put x ob s))"
begin

definition submit :: "'s \<Rightarrow> 's \<Rightarrow> bool" where
  "submit s t \<longleftrightarrow> inv s \<and> (\<exists>x ob. valid ob \<and> t = snd (put x ob s))"

lemma submit_advance:
  assumes "submit s t" and "get s k = Some v"
  shows "\<exists>v'. get t k = Some v' \<and> (v' = v \<or> newer v v')"
proof -
  from assms(1) obtain x ob where inv: "inv s" and valid: "valid ob" and t: "t = snd (put x ob s)"
    by (auto simp: submit_def)
  obtain r where put: "put x ob s = (r, t)" using t by (metis prod.collapse)
  show ?thesis
  proof (cases "stored r")
    case True
    from put_stored [OF inv valid put this] assms(2) show ?thesis
      by (cases "key_of ob = k") auto
  next
    case False
    from put_refused [OF inv valid put this] assms(2) show ?thesis by simp
  qed
qed

end

sublocale cas_table \<subseteq> cells newer get submit
  by unfold_locales (fact submit_advance)

context cas_table
begin

lemma put_all_inv: "inv s \<Longrightarrow> \<forall>(x, ob) \<in> set ops. valid ob \<Longrightarrow> inv (put_all put ops s)"
  by (induction ops arbitrary: s) (auto simp: put_inv)

lemma put_all_submits:
  "inv s \<Longrightarrow> \<forall>(x, ob) \<in> set ops. valid ob \<Longrightarrow> submit\<^sup>*\<^sup>* s (put_all put ops s)"
proof (induction ops arbitrary: s)
  case (Cons o1 ops)
  obtain x ob where o1: "o1 = (x, ob)" by (cases o1)
  have "submit s (snd (put x ob s))" using Cons.prems o1 by (auto simp: submit_def)
  moreover have "submit\<^sup>*\<^sup>* (snd (put x ob s)) (put_all put ops (snd (put x ob s)))"
    using Cons.prems o1 by (intro Cons.IH) (auto intro: put_inv)
  ultimately show ?case using o1 by (simp add: converse_rtranclp_into_rtranclp)
qed simp

text \<open>Whatever is stored under a key by a sequence is newer than what the key held before.\<close>

lemma accepted_newer_than_start:
  "inv s \<Longrightarrow> \<forall>(x, ob) \<in> set ops. valid ob \<Longrightarrow> get s k = Some v \<Longrightarrow>
     w \<in> set (accepted put key_of val_of stored k ops s) \<Longrightarrow> newer v w"
proof (induction ops arbitrary: s v)
  case (Cons o1 ops)
  obtain x ob where o1: "o1 = (x, ob)" by (cases o1)
  obtain r t where put: "put x ob s = (r, t)" by fastforce
  have valid: "valid ob" using Cons.prems(2) o1 by auto
  have inv: "inv t" using put_inv [OF Cons.prems(1) valid, of x] put by simp
  have IH: "newer v' w" if "get t k = Some v'"
      and "w \<in> set (accepted put key_of val_of stored k ops t)" for v'
    using Cons.IH [OF inv _ that(1,2)] Cons.prems(2) by auto
  show ?case
  proof (cases "key_of ob = k \<and> stored r")
    case True
    note st = put_stored [OF Cons.prems(1) valid put conjunct2 [OF True]]
    have "newer v (val_of ob)" and "get t k = Some (val_of ob)" using st True Cons.prems(3) by auto
    then show ?thesis using Cons.prems(4) o1 put True IH newer_trans by auto
  next
    case False
    then have "get t k = Some v"
      using Cons.prems(3) put_stored [OF Cons.prems(1) valid put] put_refused [OF Cons.prems(1) valid put]
      by (cases "stored r") auto
    then show ?thesis using Cons.prems(4) o1 put False IH by auto
  qed
qed simp

lemma accepted_chain:
  "inv s \<Longrightarrow> \<forall>(x, ob) \<in> set ops. valid ob \<Longrightarrow>
     sorted_wrt newer (accepted put key_of val_of stored k ops s)"
proof (induction ops arbitrary: s)
  case (Cons o1 ops)
  obtain x ob where o1: "o1 = (x, ob)" by (cases o1)
  obtain r t where put: "put x ob s = (r, t)" by fastforce
  have valid: "valid ob" using Cons.prems(2) o1 by auto
  have inv: "inv t" using put_inv [OF Cons.prems(1) valid, of x] put by simp
  have chain: "sorted_wrt newer (accepted put key_of val_of stored k ops t)"
    using Cons.IH [OF inv] Cons.prems(2) by auto
  have "newer (val_of ob) w" if "key_of ob = k" "stored r"
      "w \<in> set (accepted put key_of val_of stored k ops t)" for w
    using accepted_newer_than_start [OF inv _ _ that(3)] Cons.prems(2) that(1)
      put_stored [OF Cons.prems(1) valid put that(2)] by auto
  with chain show ?case using o1 put by auto
qed simp

text \<open>After a sequence, a key holds the last value stored under it, or what it held before.\<close>

lemma get_put_all:
  "inv s \<Longrightarrow> \<forall>(x, ob) \<in> set ops. valid ob \<Longrightarrow>
     get (put_all put ops s) k =
     (case accepted put key_of val_of stored k ops s of [] \<Rightarrow> get s k | vs \<Rightarrow> Some (last vs))"
proof (induction ops arbitrary: s)
  case (Cons o1 ops)
  obtain x ob where o1: "o1 = (x, ob)" by (cases o1)
  obtain r t where put: "put x ob s = (r, t)" by fastforce
  have valid: "valid ob" using Cons.prems(2) o1 by auto
  have inv: "inv t" using put_inv [OF Cons.prems(1) valid, of x] put by simp
  have IH: "get (put_all put ops t) k =
      (case accepted put key_of val_of stored k ops t of [] \<Rightarrow> get t k | vs \<Rightarrow> Some (last vs))"
    using Cons.IH [OF inv] Cons.prems(2) by auto
  have "get t k = (if key_of ob = k \<and> stored r then Some (val_of ob) else get s k)"
    using put_stored [OF Cons.prems(1) valid put] put_refused [OF Cons.prems(1) valid put]
    by (cases "stored r") auto
  with IH show ?case using o1 put by (auto split: list.splits)
qed simp

text \<open>Submitting again what was stored before is never stored.\<close>

lemma replay_refused:
  assumes "inv s" and "valid ob" and "put x ob s = (r, t)" and "stored r"
    and "\<forall>(x, ob) \<in> set ops. valid ob" and "put y ob (put_all put ops t) = (r', u)"
  shows "\<not> stored r'"
proof
  assume "stored r'"
  have inv: "inv t" using put_inv [OF assms(1,2), of x] assms(3) by simp
  have t: "get t (key_of ob) = Some (val_of ob)" using put_stored [OF assms(1-4)] by simp
  obtain v where v: "get (put_all put ops t) (key_of ob) = Some v"
    and old: "v = val_of ob \<or> newer (val_of ob) v"
    using advance_steps [OF put_all_submits [OF inv assms(5)] t] by blast
  have "newer v (val_of ob)"
    using put_stored [OF put_all_inv [OF inv assms(5)] assms(2,6) \<open>stored r'\<close>] v by blast
  with old show False using newer_trans newer_irrefl by blast
qed

end

end
