(* ===== verification/Sample_Crates.thy ===== *)
theory Sample_Crates
  imports External
begin

text \<open>
  Concrete functions for the parameters of theory \<open>External\<close>: base 16 and base 64 as RFC 4648
  defines them, a stand-in signature that is a fixed function of key and message, and an account
  log that carries it. They show that the laws the development assumes of the crates can hold
  together, and the closed examples of the other theories are computed with them. They are
  not models of the crates.
\<close>

section \<open>Base 16\<close>

definition hex_digit :: "nat \<Rightarrow> char" where
  "hex_digit n = ''0123456789abcdef'' ! n"

definition hex_value :: "char \<Rightarrow> nat option" where
  "hex_value c =
     (let n = of_char c :: nat in
      if 48 \<le> n \<and> n \<le> 57 then Some (n - 48)
      else if 97 \<le> n \<and> n \<le> 102 then Some (n - 87)
      else if 65 \<le> n \<and> n \<le> 70 then Some (n - 55)
      else None)"

fun base16_encode :: "bytes \<Rightarrow> string" where
  "base16_encode [] = []"
| "base16_encode (b # bs) = hex_digit (unat b div 16) # hex_digit (unat b mod 16) # base16_encode bs"

fun base16_decode :: "string \<Rightarrow> bytes option" where
  "base16_decode [] = Some []"
| "base16_decode [c] = None"
| "base16_decode (c1 # c2 # cs) =
     (case (hex_value c1, hex_value c2, base16_decode cs) of
        (Some h, Some l, Some bs) \<Rightarrow> Some (of_nat (16 * h + l) # bs)
      | _ \<Rightarrow> None)"

lemma hex_digits_table:
  "list_all (\<lambda>n. hex_value (hex_digit n) = Some n \<and> hex_value (upper_char (hex_digit n)) = Some n)
     [0..<16]"
  by code_simp

lemma hex_value_digit:
  assumes "n < 16"
  shows "hex_value (hex_digit n) = Some n" and "hex_value (upper_char (hex_digit n)) = Some n"
  using assms hex_digits_table by (auto simp: list_all_iff)

lemma nibbles: "of_nat (16 * (unat b div 16) + unat b mod 16) = (b :: u8)"
  by (simp only: mult.commute [of 16] div_mult_mod_eq) simp

lemma nibble_bounds: "unat (b :: u8) div 16 < 16" "unat b mod 16 < 16"
  using unat_u8_less [of b] by auto

lemma base16_decode_encode: "base16_decode (base16_encode bs) = Some bs"
  by (induction bs) (simp_all add: hex_value_digit nibble_bounds nibbles del: of_nat_add of_nat_mult)

lemma base16_decode_upper: "base16_decode (map upper_char (base16_encode bs)) = Some bs"
  by (induction bs) (simp_all add: hex_value_digit nibble_bounds nibbles del: of_nat_add of_nat_mult)

section \<open>Base 64\<close>

definition b64_digit :: "nat \<Rightarrow> char" where
  "b64_digit n = ''ABCDEFGHIJKLMNOPQRSTUVWXYZabcdefghijklmnopqrstuvwxyz0123456789+/'' ! n"

definition b64_value :: "char \<Rightarrow> nat option" where
  "b64_value c =
     (let n = of_char c :: nat in
      if 65 \<le> n \<and> n \<le> 90 then Some (n - 65)
      else if 97 \<le> n \<and> n \<le> 122 then Some (n - 71)
      else if 48 \<le> n \<and> n \<le> 57 then Some (n + 4)
      else if n = 43 then Some 62
      else if n = 47 then Some 63
      else None)"

fun base64_encode :: "bytes \<Rightarrow> string" where
  "base64_encode [] = []"
| "base64_encode [a] = [b64_digit (unat a div 4), b64_digit (unat a mod 4 * 16), CHR ''='', CHR ''='']"
| "base64_encode [a, b] =
     [b64_digit (unat a div 4), b64_digit (unat a mod 4 * 16 + unat b div 16),
      b64_digit (unat b mod 16 * 4), CHR ''='']"
| "base64_encode (a # b # c # bs) =
     b64_digit (unat a div 4) # b64_digit (unat a mod 4 * 16 + unat b div 16) #
     b64_digit (unat b mod 16 * 4 + unat c div 64) # b64_digit (unat c mod 64) # base64_encode bs"

fun base64_decode :: "string \<Rightarrow> bytes option" where
  "base64_decode [] = Some []"
| "base64_decode (c1 # c2 # c3 # c4 # cs) =
     (if c4 = CHR ''='' \<and> cs = [] then
        (if c3 = CHR ''='' then
           (case (b64_value c1, b64_value c2) of
              (Some w, Some x) \<Rightarrow> if x mod 16 = 0 then Some [of_nat (w * 4 + x div 16)] else None
            | _ \<Rightarrow> None)
         else
           (case (b64_value c1, b64_value c2, b64_value c3) of
              (Some w, Some x, Some y) \<Rightarrow>
                if y mod 4 = 0
                then Some [of_nat (w * 4 + x div 16), of_nat (x mod 16 * 16 + y div 4)] else None
            | _ \<Rightarrow> None))
      else
        (case (b64_value c1, b64_value c2, b64_value c3, b64_value c4, base64_decode cs) of
           (Some w, Some x, Some y, Some z, Some bs) \<Rightarrow>
             Some (of_nat (w * 4 + x div 16) # of_nat (x mod 16 * 16 + y div 4) #
                   of_nat (y mod 4 * 64 + z) # bs)
         | _ \<Rightarrow> None))"
| "base64_decode _ = None"

lemma b64_digits_table:
  "list_all (\<lambda>n. b64_value (b64_digit n) = Some n \<and> b64_digit n \<noteq> CHR ''='') [0..<64]"
  by (simp add: b64_digit_def b64_value_def upt_rec)

lemma b64_value_digit:
  assumes "n < 64"
  shows "b64_value (b64_digit n) = Some n" and "b64_digit n \<noteq> CHR ''=''"
  using assms b64_digits_table by (auto simp: list_all_iff)

lemma two_digits_64:
  "x < 4 \<Longrightarrow> y < 16 \<Longrightarrow> x * 16 + y < (64 :: nat)" "x < 16 \<Longrightarrow> y < 4 \<Longrightarrow> x * 4 + y < (64 :: nat)"
  by simp_all

lemma octet_parts:
  fixes b :: u8
  shows "unat b div 4 < 64" and "unat b div 16 < 16" and "unat b div 64 < 4"
    and "unat b mod 4 < 4" and "unat b mod 16 < 16" and "unat b mod 64 < 64"
  using unat_u8_less [of b] by auto

lemma sextet_bounds:
  fixes a b c :: u8
  shows "unat a mod 4 * 16 < 64" and "unat a mod 4 * 16 + unat b div 16 < 64"
    and "unat b mod 16 * 4 < 64" and "unat b mod 16 * 4 + unat c div 64 < 64"
  using two_digits_64(1) [of "unat a mod 4" 0] two_digits_64(2) [of "unat b mod 16" 0]
  by (auto intro!: two_digits_64 octet_parts)

lemma octet_quotients [simp]:
  fixes b :: u8
  shows "unat b div 16 div 16 = 0" and "unat b div 16 mod 16 = unat b div 16"
    and "unat b div 64 div 4 = 0" and "unat b div 64 mod 4 = unat b div 64"
  using octet_parts [of b] by simp_all

lemma base64_decode_encode: "base64_decode (base64_encode bs) = Some bs"
proof (induction bs rule: base64_encode.induct)
  case (4 a b c bs)
  then show ?case
    by (simp add: b64_value_digit octet_parts sextet_bounds del: of_nat_add of_nat_mult)
qed (simp_all add: b64_value_digit octet_parts sextet_bounds del: of_nat_add of_nat_mult)

section \<open>The parameters\<close>

definition sample_sign :: "bytes \<Rightarrow> bytes \<Rightarrow> bytes" where
  "sample_sign key msg = take 64 (key @ msg @ replicate 64 0)"

lemma length_sample_sign [simp]: "length (sample_sign key msg) = 64"
  by (simp add: sample_sign_def)

definition sample_deps :: deps where
  "sample_deps =
     \<lparr>hex_encode = base16_encode, hex_decode = base16_decode,
      b64_encode = base64_encode, b64_decode = base64_decode,
      verifying_key_ok = (\<lambda>key. length key = 32),
      verify_strict = (\<lambda>key msg sig. sig = sample_sign key msg),
      display_anyhow = (\<lambda>_. ''database error'')\<rparr>"

lemma sample_hex_laws: "hex_laws sample_deps"
  by (simp add: hex_laws_def sample_deps_def base16_decode_encode base16_decode_upper)

lemma sample_base64_laws: "base64_laws sample_deps"
  by (simp add: base64_laws_def sample_deps_def base64_decode_encode)

text \<open>
  An account log whose address is a byte string, whose signature is 64 bytes read as one
  number and whose payload is any byte string starting with a version byte 1.
\<close>

type_synonym sample_addr = bytes
type_synonym sample_signed = "512 word \<times> bytes"
type_synonym sample_record = "sample_addr \<times> sample_signed"

definition sample_log_signature :: "sample_addr \<Rightarrow> bytes \<Rightarrow> 512 word" where
  "sample_log_signature a payload = of_nat (le_value (a @ payload))"

definition sample_to_bytes :: "sample_signed \<Rightarrow> bytes" where
  "sample_to_bytes s = le_digits 64 (unat (fst s)) @ snd s"

definition sample_from_bytes :: "bytes \<Rightarrow> account_log_error + sample_signed" where
  "sample_from_bytes b =
     (if length b < 64 then Inl (Malformed ''truncated signature'')
      else Inr (of_nat (le_value (take 64 b)), drop 64 b))"

definition sample_record_new :: "sample_addr \<Rightarrow> sample_signed \<Rightarrow> account_log_error + sample_record" where
  "sample_record_new a s =
     (if fst s \<noteq> sample_log_signature a (snd s) then Inl SignatureInvalid
      else if take 1 (snd s) \<noteq> [1] then Inl (Malformed ''version'')
      else Inr (a, s))"

definition sample_update :: "sample_record \<Rightarrow> sample_signed \<Rightarrow> sample_record account_record_update" where
  "sample_update r s' =
     (let p = snd (snd r); p' = snd s' in
      if strict_prefix p p' then \<lparr>upd_outcome = Updated, upd_record = (fst r, s')\<rparr>
      else \<lparr>upd_outcome = Unchanged (if p' = p then Identical else if prefix p' p then Behind else Diverged),
             upd_record = r\<rparr>)"

definition sample_log :: "(sample_addr, sample_signed, sample_record) account_log_api" where
  "sample_log =
     \<lparr>addr_parse = (\<lambda>s. case base16_decode s of None \<Rightarrow> None
        | Some a \<Rightarrow> if base16_encode a = s then Some a else None),
      addr_to_string = base16_encode,
      signed_from_bytes = sample_from_bytes, signed_to_bytes = sample_to_bytes,
      record_new = sample_record_new, record_addr = fst, record_signed_log = snd,
      record_update = sample_update,
      debug_outcome = (\<lambda>_. ''outcome''), display_log_error = (\<lambda>_. ''account log error'')\<rparr>"

lemma sample_from_to_bytes: "sample_from_bytes (sample_to_bytes s) = Inr s"
proof -
  have "unat (fst s) < 256 ^ 64" using unsigned_less [of "fst s", where 'a = nat] by simp
  then show ?thesis
    by (cases s) (simp add: sample_from_bytes_def sample_to_bytes_def le_value_digits)
qed

lemma sample_to_from_bytes: "sample_from_bytes b = Inr s \<Longrightarrow> sample_to_bytes s = b"
proof -
  assume "sample_from_bytes b = Inr s"
  then have len: "64 \<le> length b" and s: "s = (of_nat (le_value (take 64 b)), drop 64 b)"
    by (auto simp: sample_from_bytes_def split: if_splits)
  have "le_value (take 64 b) < 256 ^ 64" using le_value_less [of "take 64 b"] len by simp
  moreover have "le_digits 64 (le_value (take 64 b)) = take 64 b"
    using le_digits_value [of "take 64 b"] len by simp
  ultimately show ?thesis by (simp add: s sample_to_bytes_def unat_of_nat)
qed

lemma sample_signed_payload [simp]: "signed_payload sample_log s = snd s"
  by (simp add: signed_payload_def sample_log_def sample_to_bytes_def)

lemma sample_account_log_laws: "account_log_laws sample_log"
  unfolding account_log_laws_def
proof (intro conjI)
  show "addr_laws sample_log"
    by (simp add: addr_laws_def sample_log_def base16_decode_encode)
  show "artifact_laws sample_log"
    by (auto simp: artifact_laws_def sample_log_def sample_from_to_bytes dest: sample_to_from_bytes)
  show "record_laws sample_log"
    by (auto simp: record_laws_def sample_log_def sample_record_new_def split: if_splits)
  show "update_laws sample_log"
    unfolding update_laws_def sample_signed_payload
    by (auto simp: sample_log_def sample_record_new_def sample_update_def Let_def
        prefix_order.less_le split: if_splits)
qed

end
