(* ===== verification/Bundle.thy ===== *)
theory Bundle
  imports Store Versioned Sample_Crates
begin

text \<open>
  The bundles of \<open>src/bundle.rs\<close>: decoding raw bytes into a bundle, the proof-of-possession
  check, and the three \<open>apply_*\<close> operations that both write paths end in. The lemmas give the
  exact condition under which each is accepted and what it leaves in the tables; the two account
  tables are shown to implement the contract of theory \<open>Versioned\<close>.
\<close>

section \<open>Definitions\<close>

datatype bundle_error =
    Invalid string
  | MalformedLog account_log_error
  | Stale
  | Forked
  | Internal anyhow

definition display_bundle_error ::
  "deps \<Rightarrow> ('a, 's, 'r) account_log_api \<Rightarrow> bundle_error \<Rightarrow> string" where
  "display_bundle_error d api e =
     (case e of
        Invalid msg \<Rightarrow> msg
      | MalformedLog err \<Rightarrow> display_log_error api err
      | Stale \<Rightarrow> ''stale bundle: not newer than the stored one''
      | Forked \<Rightarrow> ''forked log: does not extend the stored one''
      | Internal err \<Rightarrow> ''internal: '' @ display_anyhow d err)"

text \<open>The arrays of 32 and 64 bytes are byte lists; \<open>bundle_wf\<close> states their lengths.\<close>

record Bundle =
  bkey :: bytes
  bpayload :: bytes
  bsignature :: bytes

definition bundle_wf :: "Bundle \<Rightarrow> bool" where
  "bundle_wf b \<longleftrightarrow> length (bkey b) = 32 \<and> length (bsignature b) = 64"

definition from_bytes :: "bytes \<Rightarrow> bytes \<Rightarrow> bytes \<Rightarrow> bundle_error + Bundle" where
  "from_bytes key payload signature =
     (if length key \<noteq> 32 then Inl (Invalid ''key: must be 32 bytes'')
      else if length signature \<noteq> 64 then Inl (Invalid ''signature: must be 64 bytes'')
      else Inr \<lparr>bkey = key, bpayload = payload, bsignature = signature\<rparr>)"

definition key_hex :: "deps \<Rightarrow> Bundle \<Rightarrow> string" where
  "key_hex d b = hex_encode d (bkey b)"

definition verify :: "deps \<Rightarrow> Bundle \<Rightarrow> bundle_error + unit" where
  "verify d b =
     (if \<not> verifying_key_ok d (bkey b) then Inl (Invalid ''key: not a valid ed25519 key'')
      else if \<not> verify_strict d (bkey b) (bpayload b) (bsignature b)
      then Inl (Invalid ''signature: verification failed'')
      else Inr ())"

type_synonym 'a bundle_op = "(store, bundle_error, 'a) eff"

definition apply_keypackage :: "deps \<Rightarrow> Bundle \<Rightarrow> unit bundle_op" where
  "apply_keypackage d b =
     try_await (lift_result (verify d b)) (\<lambda>_.
     map_err Internal (store_insert (key_hex d b)
       \<lparr>skp_payload = bpayload b, skp_signature = bsignature b\<rparr>))"

definition apply_account :: "deps \<Rightarrow> Bundle \<Rightarrow> unit bundle_op" where
  "apply_account d b =
     try_await (lift_result (verify d b)) (\<lambda>_.
     try_await (lift_result (case payload_lamport (bpayload b) of
         None \<Rightarrow> Inl (Invalid ''payload: too short to contain a lamport header'')
       | Some lamport \<Rightarrow> Inr lamport)) (\<lambda>lamport.
     try_await (map_err Internal (upsert_account (key_hex d b) lamport
         \<lparr>sab_payload = bpayload b, sab_signature = bsignature b, sab_updated_at = 0\<rparr>)) (\<lambda>applied.
     if \<not> applied then fail Stale else ok ())))"

definition apply_account_log :: "('a, 's, 'r) account_log_api \<Rightarrow> 'a \<Rightarrow> 's \<Rightarrow> unit bundle_op" where
  "apply_account_log api addr slog =
     try_await (lift_result (case record_new api addr slog of
         Inl SignatureInvalid \<Rightarrow> Inl (Invalid ''signature: verification failed'')
       | Inl err \<Rightarrow> Inl (MalformedLog err)
       | Inr candidate \<Rightarrow> Inr candidate)) (\<lambda>candidate.
     try_await (map_err Internal (put_account_log api candidate)) (\<lambda>result.
     case result of
       Updated \<Rightarrow> ok ()
     | Unchanged Identical \<Rightarrow> ok ()
     | Unchanged Behind \<Rightarrow> fail Stale
     | Unchanged Diverged \<Rightarrow> fail Forked
     | other \<Rightarrow> fail (Internal (AnyMsg (''unexpected account log outcome: '' @ debug_outcome api other)))))"

section \<open>Decoding and verifying\<close>

lemma from_bytes_Inr_iff:
  "from_bytes k p g = Inr b \<longleftrightarrow>
     length k = 32 \<and> length g = 64 \<and> b = \<lparr>bkey = k, bpayload = p, bsignature = g\<rparr>"
  by (auto simp: from_bytes_def)

lemma from_bytes_wf: "from_bytes k p g = Inr b \<Longrightarrow> bundle_wf b"
  by (auto simp: from_bytes_Inr_iff bundle_wf_def)

text \<open>What the proof of possession establishes of a bundle.\<close>

definition authentic :: "deps \<Rightarrow> bytes \<Rightarrow> bytes \<Rightarrow> bytes \<Rightarrow> bool" where
  "authentic d key payload signature \<longleftrightarrow>
     verifying_key_ok d key \<and> verify_strict d key payload signature"

lemma verify_Inr_iff: "verify d b = Inr u \<longleftrightarrow> authentic d (bkey b) (bpayload b) (bsignature b)"
  by (cases u) (simp add: verify_def authentic_def)

lemma verify_cases:
  obtains (ok) "verify d b = Inr ()" and "authentic d (bkey b) (bpayload b) (bsignature b)"
  | (bad) msg where "verify d b = Inl (Invalid msg)" and "\<not> authentic d (bkey b) (bpayload b) (bsignature b)"
proof (cases "authentic d (bkey b) (bpayload b) (bsignature b)")
  case True
  then show thesis using ok by (simp add: verify_Inr_iff)
next
  case False
  then have "\<exists>msg. verify d b = Inl (Invalid msg)" by (auto simp: verify_def authentic_def)
  with False show thesis using bad by blast
qed

section \<open>Applying a bundle, every outcome\<close>

lemma apply_keypackage_cases:
  assumes "apply_keypackage d b s = (r, t)"
  obtains (rejected) msg where "r = Inl (Invalid msg)" and "t = s"
      and "\<not> authentic d (bkey b) (bpayload b) (bsignature b)"
  | (failed) e where "r = Inl (Internal e)" and "env_step s t"
  | (stored) u db where "r = Inr ()" and "env_step s u" and "t = u\<lparr>pool := db\<rparr>"
      and "authentic d (bkey b) (bpayload b) (bsignature b)"
      and "sql_insert_keypackage (key_hex d b) (stamp_ms (clock s)) (bpayload b) (bsignature b) (pool s)
           = Some db"
proof (cases rule: verify_cases [of d b])
  case ok
  with assms have "map_err Internal (store_insert (key_hex d b)
      \<lparr>skp_payload = bpayload b, skp_signature = bsignature b\<rparr>) s = (r, t)"
    by (simp add: apply_keypackage_def eff_simps try_await_def)
  then show thesis
    by (cases rule: map_err_cases; elim store_insert_cases) (use ok that(2,3) in auto)
next
  case (bad msg)
  with assms have "r = Inl (Invalid msg)" and "t = s"
    by (auto simp: apply_keypackage_def run_try_await_Inl [of _ s "Invalid msg" s] lift_result_def)
  with bad(2) that(1) show thesis by blast
qed

lemma apply_account_cases:
  assumes "apply_account d b s = (r, t)"
  obtains (rejected) msg where "r = Inl (Invalid msg)" and "t = s"
      and "\<not> (authentic d (bkey b) (bpayload b) (bsignature b) \<and> payload_lamport (bpayload b) \<noteq> None)"
  | (failed) e where "r = Inl (Internal e)" and "env_step s t"
  | (stale) l where "r = Inl Stale" and "env_step s t" and "payload_lamport (bpayload b) = Some l"
      and "authentic d (bkey b) (bpayload b) (bsignature b)" and "holds_lamport (key_hex d b) l (pool s)"
  | (stored) l u where "r = Inr ()" and "env_step s u" and "payload_lamport (bpayload b) = Some l"
      and "authentic d (bkey b) (bpayload b) (bsignature b)"
      and "\<not> holds_lamport (key_hex d b) l (pool s)"
      and "t = u\<lparr>pool := sql_upsert_account (key_hex d b) (stamp_ms (clock s)) (bpayload b)
                   (bsignature b) (pool s)\<rparr>"
proof (cases rule: verify_cases [of d b])
  case ok
  show thesis
  proof (cases "payload_lamport (bpayload b)")
    case None
    with ok assms that(1) show thesis
      by (auto simp: apply_account_def eff_simps try_await_def)
  next
    case (Some l)
    with ok assms have "try_await (map_err Internal (upsert_account (key_hex d b) l
        \<lparr>sab_payload = bpayload b, sab_signature = bsignature b, sab_updated_at = 0\<rparr>))
        (\<lambda>applied. if \<not> applied then fail Stale else ok ()) s = (r, t)"
      by (simp add: apply_account_def eff_simps try_await_def)
    then show thesis
    proof (cases rule: try_await_cases)
      case (err e)
      from err(1) show thesis
        by (cases rule: map_err_cases; elim upsert_account_cases) (use err(2) that(2) in auto)
    next
      case (val applied u)
      from val(1) have "upsert_account (key_hex d b) l
          \<lparr>sab_payload = bpayload b, sab_signature = bsignature b, sab_updated_at = 0\<rparr> s = (Inr applied, u)"
        by (cases rule: map_err_cases) auto
      then show thesis
        by (cases rule: upsert_account_cases) (use val(2) ok Some that(3,4) in \<open>auto simp: eff_simps\<close>)
    qed
  qed
next
  case (bad msg)
  with assms have "r = Inl (Invalid msg)" and "t = s"
    by (auto simp: apply_account_def run_try_await_Inl [of _ s "Invalid msg" s] lift_result_def)
  with bad(2) that(1) show thesis by blast
qed

text \<open>How \<open>apply_account_log\<close> reports the outcome of the comparison.\<close>

definition outcome_result :: "('a, 's, 'r) account_log_api \<Rightarrow> outcome \<Rightarrow> bundle_error + unit" where
  "outcome_result api res =
     (case res of
        Updated \<Rightarrow> Inr ()
      | Unchanged Identical \<Rightarrow> Inr ()
      | Unchanged Behind \<Rightarrow> Inl Stale
      | Unchanged Diverged \<Rightarrow> Inl Forked
      | other \<Rightarrow> Inl (Internal (AnyMsg (''unexpected account log outcome: '' @ debug_outcome api other))))"

lemma outcome_result_Inr:
  "outcome_result api res = Inr u \<longleftrightarrow> res = Updated \<or> res = Unchanged Identical"
  by (auto simp: outcome_result_def split: outcome.splits log_freshness.splits)

definition log_rejection :: "account_log_error \<Rightarrow> bundle_error" where
  "log_rejection e =
     (case e of SignatureInvalid \<Rightarrow> Invalid ''signature: verification failed'' | _ \<Rightarrow> MalformedLog e)"

lemma apply_account_log_eq:
  "apply_account_log api a slog =
     (case record_new api a slog of
        Inl e \<Rightarrow> fail (log_rejection e)
      | Inr c \<Rightarrow> try_await (map_err Internal (put_account_log api c)) (\<lambda>res. lift_result (outcome_result api res)))"
  unfolding apply_account_log_def
  by (rule ext) (auto simp: try_await_def fail_def ok_def lift_result_def log_rejection_def
      outcome_result_def split: sum.splits prod.splits account_log_error.splits outcome.splits
      log_freshness.splits)

lemma apply_account_log_cases:
  assumes "apply_account_log api a slog s = (r, t)"
  obtains (rejected) e where "record_new api a slog = Inl e" and "r = Inl (log_rejection e)" and "t = s"
  | (failed) e where "r = Inl (Internal e)" and "env_step s t"
  | (unchanged) c upd where "record_new api a slog = Inr c" and "log_decision api c (pool s) = Inr upd"
      and "upd_outcome upd \<noteq> Updated" and "r = outcome_result api (upd_outcome upd)" and "env_step s t"
  | (stored) c upd u where "record_new api a slog = Inr c" and "log_decision api c (pool s) = Inr upd"
      and "upd_outcome upd = Updated" and "r = Inr ()" and "env_step s u"
      and "t = u\<lparr>pool := sql_upsert_log (addr_to_string api (record_addr api c)) (stamp_ms (clock s))
                   (signed_to_bytes api (record_signed_log api (upd_record upd))) (pool s)\<rparr>"
proof (cases "record_new api a slog")
  case (Inl e)
  with assms that(1) show thesis by (auto simp: apply_account_log_eq eff_simps)
next
  case (Inr c)
  with assms have "try_await (map_err Internal (put_account_log api c))
      (\<lambda>res. lift_result (outcome_result api res)) s = (r, t)"
    by (simp add: apply_account_log_eq)
  then show thesis
  proof (cases rule: try_await_cases)
    case (err e)
    from err(1) show thesis
      by (cases rule: map_err_cases; elim put_account_log_cases) (use err(2) that(2) in auto)
  next
    case (val res u)
    from val(1) have "put_account_log api c s = (Inr res, u)" by (cases rule: map_err_cases) auto
    then show thesis
      by (cases rule: put_account_log_cases)
        (use val(2) Inr that(3,4) in \<open>auto simp: eff_simps outcome_result_Inr\<close>)
  qed
qed

text \<open>The same operations as equations, where no database call fails.\<close>

lemma apply_keypackage_quiet:
  "quiet s \<Longrightarrow> apply_keypackage d b s =
     (case verify d b of
        Inl e \<Rightarrow> (Inl e, s)
      | Inr _ \<Rightarrow>
          (case sql_insert_keypackage (key_hex d b) (stamp_ms (clock s)) (bpayload b) (bsignature b) (pool s) of
             None \<Rightarrow> (Inl (Internal (AnySqlx UniqueViolation)), s)
           | Some db \<Rightarrow> (Inr (), s\<lparr>pool := db\<rparr>)))"
  by (simp add: apply_keypackage_def store_quiet map_err_def try_await_def lift_result_def
      split: sum.splits option.splits)

lemma apply_account_quiet:
  "quiet s \<Longrightarrow> apply_account d b s =
     (case verify d b of
        Inl e \<Rightarrow> (Inl e, s)
      | Inr _ \<Rightarrow>
          (case payload_lamport (bpayload b) of
             None \<Rightarrow> (Inl (Invalid ''payload: too short to contain a lamport header''), s)
           | Some l \<Rightarrow>
               if holds_lamport (key_hex d b) l (pool s) then (Inl Stale, s)
               else (Inr (), s\<lparr>pool := sql_upsert_account (key_hex d b) (stamp_ms (clock s))
                       (bpayload b) (bsignature b) (pool s)\<rparr>)))"
  by (simp add: apply_account_def store_quiet map_err_def try_await_def lift_result_def fail_def ok_def
      split: sum.splits option.splits)

lemma apply_account_log_quiet:
  "quiet s \<Longrightarrow> apply_account_log api a slog s =
     (case record_new api a slog of
        Inl e \<Rightarrow> (Inl (log_rejection e), s)
      | Inr c \<Rightarrow>
          (case log_decision api c (pool s) of
             Inl e \<Rightarrow> (Inl (Internal e), s)
           | Inr upd \<Rightarrow>
               if upd_outcome upd = Updated
               then (Inr (), s\<lparr>pool := sql_upsert_log (addr_to_string api (record_addr api c))
                      (stamp_ms (clock s)) (signed_to_bytes api (record_signed_log api (upd_record upd)))
                      (pool s)\<rparr>)
               else (outcome_result api (upd_outcome upd), s)))"
  by (simp add: apply_account_log_eq store_quiet map_err_def try_await_def lift_result_def fail_def
      outcome_result_def split: sum.splits)

lemmas apply_quiet = apply_keypackage_quiet apply_account_quiet apply_account_log_quiet

text \<open>No refusal, of any kind and on any of the three paths, changes a table.\<close>

lemma apply_refused_pool:
  "apply_keypackage d b s = (Inl e, t) \<Longrightarrow> pool t = pool s"
  "apply_account d b s = (Inl e, t) \<Longrightarrow> pool t = pool s"
  "apply_account_log api a slog s = (Inl e, t) \<Longrightarrow> pool t = pool s"
  by (auto elim!: apply_keypackage_cases apply_account_cases apply_account_log_cases simp: env_stepD)

section \<open>The account bundles as a versioned table\<close>

text \<open>A submission at an instant of the clock, with given failures of the coming calls.\<close>

definition at_instant :: "system_time \<times> sqlx_error option list \<Rightarrow> store \<Rightarrow> store" where
  "at_instant x s = s\<lparr>clock := fst x, faults := snd x\<rparr>"

lemma at_instant_simps [simp]:
  "pool (at_instant x s) = pool s" "clock (at_instant x s) = fst x" "faults (at_instant x s) = snd x"
  by (simp_all add: at_instant_def)

definition bundle_value :: "Bundle \<Rightarrow> bytes \<times> bytes" where
  "bundle_value b = (bpayload b, bsignature b)"

definition account_cell :: "store \<Rightarrow> string \<Rightarrow> (bytes \<times> bytes) option" where
  "account_cell s k = map_option (\<lambda>r. (ab_payload r, ab_signature r)) (sql_select_account k (pool s))"

definition lamport_newer :: "bytes \<times> bytes \<Rightarrow> bytes \<times> bytes \<Rightarrow> bool" where
  "lamport_newer old new \<longleftrightarrow>
     (case payload_lamport (fst new) of None \<Rightarrow> False
      | Some l \<Rightarrow> (case payload_lamport (fst old) of None \<Rightarrow> True | Some l0 \<Rightarrow> l0 < l))"

definition submit_account_at ::
  "deps \<Rightarrow> system_time \<times> sqlx_error option list \<Rightarrow> Bundle \<Rightarrow> store \<Rightarrow> (bundle_error + unit) \<times> store" where
  "submit_account_at d x b s = apply_account d b (at_instant x s)"

definition is_ok :: "'e + 'a \<Rightarrow> bool" where
  "is_ok r = (case r of Inl _ \<Rightarrow> False | Inr _ \<Rightarrow> True)"

lemma is_ok_simps [simp]: "is_ok (Inr x)" "\<not> is_ok (Inl e)"
  by (simp_all add: is_ok_def)

lemma account_cell_upsert:
  "account_cell (u\<lparr>pool := sql_upsert_account k t p g (pool s)\<rparr>) = (account_cell s)(k \<mapsto> (p, g))"
  by (rule ext) (simp add: account_cell_def)

lemma account_cell_env: "env_step s t \<Longrightarrow> account_cell t = account_cell s"
  by (rule ext) (simp add: account_cell_def env_stepD)

lemma account_cell_at [simp]: "account_cell (at_instant x s) = account_cell s"
  by (rule ext) (simp add: account_cell_def)

lemma not_holds_newer:
  assumes "\<not> holds_lamport k l (pool s)" and "payload_lamport p = Some l" and "account_cell s k = Some v"
  shows "lamport_newer v (p, g)"
  using assms by (auto simp: holds_lamport_iff account_cell_def lamport_newer_def split: option.splits)

lemma submit_account_at_stored:
  assumes "submit_account_at d x b s = (r, t)" and "is_ok r"
  shows "account_cell t = (account_cell s)(key_hex d b \<mapsto> bundle_value b)"
    and "account_cell s (key_hex d b) = Some v \<Longrightarrow> lamport_newer v (bundle_value b)"
    and "\<exists>l. payload_lamport (bpayload b) = Some l"
  using assms unfolding submit_account_at_def
  by (auto elim!: apply_account_cases simp: bundle_value_def account_cell_upsert
      dest: not_holds_newer [where g = "bsignature b" and v = v] account_cell_env)

lemma submit_account_at_refused:
  assumes "submit_account_at d x b s = (r, t)" and "\<not> is_ok r"
  shows "account_cell t = account_cell s"
  using assms unfolding submit_account_at_def
  by (auto elim!: apply_account_cases dest: account_cell_env)

lemma lamport_newer_trans: "lamport_newer a b \<Longrightarrow> lamport_newer b c \<Longrightarrow> lamport_newer a c"
  by (auto simp: lamport_newer_def split: option.splits)

lemma lamport_newer_irrefl: "\<not> lamport_newer a a"
  by (auto simp: lamport_newer_def split: option.splits)

interpretation accounts: cas_table lamport_newer "submit_account_at d" "key_hex d" bundle_value
  account_cell is_ok "\<lambda>_. True" "\<lambda>_. True" for d
proof unfold_locales
  fix a b c show "lamport_newer a b \<Longrightarrow> lamport_newer b c \<Longrightarrow> lamport_newer a c"
    by (rule lamport_newer_trans)
next
  fix a show "\<not> lamport_newer a a" by (rule lamport_newer_irrefl)
next
  fix s :: store and ob x r t
  assume "submit_account_at d x ob s = (r, t)" and "is_ok r"
  then show "account_cell t = (account_cell s)(key_hex d ob \<mapsto> bundle_value ob) \<and>
      (\<forall>v. account_cell s (key_hex d ob) = Some v \<longrightarrow> lamport_newer v (bundle_value ob))"
    using submit_account_at_stored by blast
next
  fix s :: store and ob x r t
  assume "submit_account_at d x ob s = (r, t)" and "\<not> is_ok r"
  then show "account_cell t = account_cell s" by (rule submit_account_at_refused)
qed simp

text \<open>The lamport a stored value carries.\<close>

definition value_lamport :: "bytes \<times> bytes \<Rightarrow> u64" where
  "value_lamport v = (case payload_lamport (fst v) of None \<Rightarrow> 0 | Some l \<Rightarrow> l)"

lemma accepted_accounts_have_lamport:
  "v \<in> set (accepted (submit_account_at d) (key_hex d) bundle_value is_ok k ops s) \<Longrightarrow>
     payload_lamport (fst v) \<noteq> None"
  by (rule accepted_all [where P = "\<lambda>v. payload_lamport (fst v) \<noteq> None"])
    (auto simp: bundle_value_def dest: submit_account_at_stored(3))

lemma lamport_newer_less:
  "lamport_newer a b \<Longrightarrow> payload_lamport (fst a) \<noteq> None \<Longrightarrow> value_lamport a < value_lamport b"
  by (auto simp: lamport_newer_def value_lamport_def split: option.splits)

section \<open>Properties of account bundles\<close>

text \<open>Values for the closed examples: a store on a fresh database, and a signed bundle.\<close>

definition fresh_store :: "system_time \<Rightarrow> store" where
  "fresh_store now = \<lparr>pool = empty_tables, clock = now, faults = []\<rparr>"

definition sample_bundle :: "u8 \<Rightarrow> bytes \<Rightarrow> Bundle" where
  "sample_bundle seed payload =
     \<lparr>bkey = replicate 32 seed, bpayload = payload,
      bsignature = sample_sign (replicate 32 seed) payload\<rparr>"

lemma sample_bundle_simps [simp]:
  "bpayload (sample_bundle seed p) = p" "bkey (sample_bundle seed p) = replicate 32 seed"
  "length (bsignature (sample_bundle seed p)) = 64" "bundle_wf (sample_bundle seed p)"
  by (simp_all add: sample_bundle_def bundle_wf_def)

lemma key_hex_sample [simp]:
  "key_hex sample_deps (sample_bundle seed p) = base16_encode (replicate 32 seed)"
  by (simp add: key_hex_def sample_deps_def)

lemma verify_sample [simp]: "verify sample_deps (sample_bundle seed p) = Inr ()"
  by (simp add: verify_def sample_bundle_def sample_deps_def)

lemma fresh_store_simps [simp]:
  "pool (fresh_store now) = empty_tables" "clock (fresh_store now) = now" "quiet (fresh_store now)"
  by (simp_all add: fresh_store_def quiet_def)

lemma holds_lamport_empty [simp]: "\<not> holds_lamport k l empty_tables"
  by (simp add: holds_lamport_def empty_tables_def sql_select_account_def)

lemma holds_lamport_upsert [simp]:
  "holds_lamport k l (sql_upsert_account k' t p g db) =
     (if k = k' then (case payload_lamport p of None \<Rightarrow> False | Some l0 \<Rightarrow> l \<le> l0)
      else holds_lamport k l db)"
  by (simp add: holds_lamport_def)

lemma quiet_at_instant [simp]: "quiet (at_instant (now, []) s)"
  by (simp add: quiet_def)

text \<open>
  C1. Anti-replay over whole histories. Take any sequence of account submissions, by anyone, each
  at any instant of the clock (which may jump back) and with any database failures. The
  submissions accepted for an account carry strictly increasing lamports, and afterwards the
  account's row is the last one accepted, or the one that was there before if none was.
\<close>

theorem account_history_lamports_increase:
  "let accepted_values = accepted (submit_account_at d) (key_hex d) bundle_value is_ok k ops s
   in sorted_wrt (<) (map value_lamport accepted_values) \<and>
      account_cell (put_all (submit_account_at d) ops s) k =
        (case accepted_values of [] \<Rightarrow> account_cell s k | vs \<Rightarrow> Some (last vs))"
proof -
  let ?vs = "accepted (submit_account_at d) (key_hex d) bundle_value is_ok k ops s"
  have "sorted_wrt lamport_newer ?vs" by (rule accounts.accepted_chain) auto
  then have "sorted_wrt (<) (map value_lamport ?vs)"
    unfolding sorted_wrt_map
    by (rule sorted_wrt_mono_rel [rotated]) (auto intro: lamport_newer_less dest: accepted_accounts_have_lamport)
  moreover have "account_cell (put_all (submit_account_at d) ops s) k =
      (case ?vs of [] \<Rightarrow> account_cell s k | vs \<Rightarrow> Some (last vs))"
    by (rule accounts.get_put_all) auto
  ultimately show ?thesis by (simp add: Let_def)
qed

text \<open>
  A bundle that was accepted once is refused whenever it is submitted again, whatever was
  submitted in between, as long as no prune has removed the account's row.
\<close>

lemma accepted_account_bundle_replay_refused:
  assumes "submit_account_at d x b s = (Inr (), t)"
    and "submit_account_at d y b (put_all (submit_account_at d) ops t) = (r, u)"
  shows "(\<exists>e. r = Inl e) \<and> pool u = pool (put_all (submit_account_at d) ops t)"
proof -
  have "\<not> is_ok r"
    using accounts.replay_refused [OF TrueI TrueI assms(1) is_ok_simps(1) _ assms(2)] by simp
  then obtain e where "r = Inl e" by (cases r) auto
  with assms(2) show ?thesis
    unfolding submit_account_at_def by (auto dest: apply_refused_pool(2))
qed

end
