(* ===== verification/Account_Log.thy ===== *)
theory Account_Log
  imports Bundle
begin

text \<open>
  The account logs of \<open>/v1/account\<close>: \<open>put_account_log\<close> (\<open>src/store.rs\<close>) and
  \<open>apply_account_log\<close> (\<open>src/bundle.rs\<close>) under the laws of the account-log crate. Every stored log
  verifies, the comparison of a candidate with the stored log has exactly the four outcomes the
  service reports, and the table implements the contract of theory \<open>Versioned\<close> with strict
  extension as the order, so an account's log only ever grows.
\<close>

section \<open>Stored logs\<close>

definition log_cell :: "store \<Rightarrow> string \<Rightarrow> bytes option" where
  "log_cell s k = map_option al_signed_log (sql_select_log k (pool s))"

text \<open>An artifact extends another when the payload after the signature does, strictly.\<close>

definition extends :: "bytes \<Rightarrow> bytes \<Rightarrow> bool" where
  "extends old new \<longleftrightarrow> strict_prefix (drop 64 old) (drop 64 new)"

definition row_verified :: "('a, 's, 'r) account_log_api \<Rightarrow> account_log_row \<Rightarrow> bool" where
  "row_verified api row \<longleftrightarrow>
     (\<exists>a slog rec. addr_to_string api a = al_account_pub row \<and>
        signed_from_bytes api (al_signed_log row) = Inr slog \<and> record_new api a slog = Inr rec)"

definition logs_verified :: "('a, 's, 'r) account_log_api \<Rightarrow> store \<Rightarrow> bool" where
  "logs_verified api s \<longleftrightarrow> (\<forall>row \<in> set (account_logs (pool s)). row_verified api row)"

text \<open>A candidate as \<open>AccountRecord::new\<close> returns it.\<close>

definition valid_record :: "('a, 's, 'r) account_log_api \<Rightarrow> 'r \<Rightarrow> bool" where
  "valid_record api c \<longleftrightarrow> record_new api (record_addr api c) (record_signed_log api c) = Inr c"

definition record_key :: "('a, 's, 'r) account_log_api \<Rightarrow> 'r \<Rightarrow> string" where
  "record_key api c = addr_to_string api (record_addr api c)"

definition record_artifact :: "('a, 's, 'r) account_log_api \<Rightarrow> 'r \<Rightarrow> bytes" where
  "record_artifact api c = signed_to_bytes api (record_signed_log api c)"

definition submit_log_at ::
  "('a, 's, 'r) account_log_api \<Rightarrow> system_time \<times> sqlx_error option list \<Rightarrow> 'r \<Rightarrow> store \<Rightarrow>
   (anyhow + outcome) \<times> store" where
  "submit_log_at api x c s = put_account_log api c (at_instant x s)"

definition is_updated :: "anyhow + outcome \<Rightarrow> bool" where
  "is_updated r \<longleftrightarrow> r = Inr Updated"

lemma log_cell_upsert:
  "log_cell (u\<lparr>pool := sql_upsert_log k t b (pool s)\<rparr>) = (log_cell s)(k \<mapsto> b)"
  by (rule ext) (simp add: log_cell_def)

lemma log_cell_env: "env_step s t \<Longrightarrow> log_cell t = log_cell s"
  by (rule ext) (simp add: log_cell_def env_stepD)

lemma log_cell_at [simp]: "log_cell (at_instant x s) = log_cell s"
  by (rule ext) (simp add: log_cell_def)

lemma logs_verified_env: "env_step s t \<Longrightarrow> logs_verified api t = logs_verified api s"
  by (simp add: logs_verified_def env_stepD)

lemma logs_verified_at [simp]: "logs_verified api (at_instant x s) = logs_verified api s"
  by (simp add: logs_verified_def)

lemma logs_verified_upsert:
  assumes "logs_verified api s" and "row_verified api \<lparr>al_account_pub = k, al_updated_at = t, al_signed_log = b\<rparr>"
  shows "logs_verified api (u\<lparr>pool := sql_upsert_log k t b (pool s)\<rparr>)"
  using assms set_upsert_row by (fastforce simp: logs_verified_def sql_upsert_log_def)

lemma extends_trans: "extends a b \<Longrightarrow> extends b c \<Longrightarrow> extends a c"
  by (simp add: extends_def prefix_order.less_trans)

lemma extends_irrefl: "\<not> extends a a"
  by (simp add: extends_def)

section \<open>The crate's laws at work\<close>

locale account_log_crate =
  fixes api :: "('a, 's, 'r) account_log_api"
  assumes laws: "account_log_laws api"
begin

lemmas addr = account_log_lawsD(1) [OF laws]
lemmas artifact = artifact_lawsD [OF account_log_lawsD(2) [OF laws]]
lemmas made_from = record_lawsD [OF account_log_lawsD(3) [OF laws]]
lemmas compared = update_lawsD [OF account_log_lawsD(4) [OF laws]]

lemma new_valid: "record_new api a slog = Inr c \<Longrightarrow> valid_record api c"
  using made_from [of a slog c] by (simp add: valid_record_def)

text \<open>The stored log of an account, read back and verified.\<close>

lemma stored_log:
  assumes "logs_verified api s" and "sql_select_log (addr_to_string api a) (pool s) = Some row"
  obtains slog rec where "signed_from_bytes api (al_signed_log row) = Inr slog"
    and "record_new api a slog = Inr rec" and "signed_to_bytes api slog = al_signed_log row"
proof -
  have "row_verified api row" and key: "al_account_pub row = addr_to_string api a"
    using assms select_log_Some by (auto simp: logs_verified_def dest: select_log_Some)
  then obtain a' slog rec where "addr_to_string api a' = addr_to_string api a"
    and slog: "signed_from_bytes api (al_signed_log row) = Inr slog" and "record_new api a' slog = Inr rec"
    by (auto simp: row_verified_def)
  then show thesis using that [OF slog] artifact(2) [OF slog] addr_to_string_inject [OF addr] by auto
qed

text \<open>The decision on a valid candidate: first log, or compared with the verified stored one.\<close>

lemma decision_first:
  assumes "log_cell s (record_key api c) = None"
  shows "log_decision api c (pool s) = Inr \<lparr>upd_outcome = Updated, upd_record = c\<rparr>"
  using assms by (simp add: log_cell_def record_key_def log_decision_def)

lemma decision_compared:
  assumes "logs_verified api s" and "valid_record api c" and "log_cell s (record_key api c) = Some old"
  obtains upd where "log_decision api c (pool s) = Inr upd"
    and "upd_outcome upd = Updated \<longleftrightarrow> extends old (record_artifact api c)"
    and "upd_outcome upd = Updated \<Longrightarrow> upd_record upd = c"
    and "old = record_artifact api c \<Longrightarrow> upd_outcome upd = Unchanged Identical"
    and "extends (record_artifact api c) old \<Longrightarrow> upd_outcome upd = Unchanged Behind"
    and "\<not> prefix (drop 64 old) (drop 64 (record_artifact api c)) \<Longrightarrow>
         \<not> prefix (drop 64 (record_artifact api c)) (drop 64 old) \<Longrightarrow> upd_outcome upd = Unchanged Diverged"
proof -
  obtain row where row: "sql_select_log (addr_to_string api (record_addr api c)) (pool s) = Some row"
    and old: "old = al_signed_log row"
    using assms(3) by (auto simp: log_cell_def record_key_def)
  obtain slog rec where slog: "signed_from_bytes api (al_signed_log row) = Inr slog"
    and rec: "record_new api (record_addr api c) slog = Inr rec" and bytes: "signed_to_bytes api slog = old"
    using stored_log [OF assms(1) row] old by auto
  note law = compared [OF rec assms(2) [unfolded valid_record_def]]
  have payload: "signed_payload api slog = drop 64 old"
    "signed_payload api (record_signed_log api c) = drop 64 (record_artifact api c)"
    by (simp_all add: signed_payload_def bytes record_artifact_def)
  have same: "old = record_artifact api c \<Longrightarrow> record_signed_log api c = slog"
    using slog old artifact(1) [of "record_signed_log api c"] by (simp add: record_artifact_def)
  show thesis
    by (rule that [of "record_update api rec (record_signed_log api c)"])
      (use row slog rec law payload same in \<open>auto simp: log_decision_def extends_def\<close>)
qed

lemma submit_stored:
  assumes "logs_verified api s" and "valid_record api c" and "submit_log_at api x c s = (r, t)"
    and "is_updated r"
  shows "log_cell t = (log_cell s)(record_key api c \<mapsto> record_artifact api c)"
    and "log_cell s (record_key api c) = Some old \<Longrightarrow> extends old (record_artifact api c)"
    and "logs_verified api t"
proof -
  let ?s = "at_instant x s"
  have put: "put_account_log api c ?s = (Inr Updated, t)"
    using assms(3,4) by (simp add: submit_log_at_def is_updated_def)
  then obtain upd u where dec: "log_decision api c (pool s) = Inr upd" and upd: "upd_outcome upd = Updated"
    and t: "t = u\<lparr>pool := sql_upsert_log (record_key api c) (stamp_ms (fst x))
              (record_artifact api (upd_record upd)) (pool s)\<rparr>"
    by (cases rule: put_account_log_cases) (auto simp: record_key_def record_artifact_def)
  have rec: "upd_record upd = c \<and>
      (\<forall>old. log_cell s (record_key api c) = Some old \<longrightarrow> extends old (record_artifact api c))"
  proof (cases "log_cell s (record_key api c)")
    case None
    have "upd = \<lparr>upd_outcome = Updated, upd_record = c\<rparr>"
      using dec decision_first [OF None] by simp
    then show ?thesis using None by simp
  next
    case (Some old)
    then show ?thesis using decision_compared [OF assms(1,2) Some] dec upd by auto
  qed
  then show "log_cell t = (log_cell s)(record_key api c \<mapsto> record_artifact api c)"
    by (simp add: t log_cell_upsert)
  show "log_cell s (record_key api c) = Some old \<Longrightarrow> extends old (record_artifact api c)"
    using rec by simp
  have "row_verified api \<lparr>al_account_pub = record_key api c, al_updated_at = stamp_ms (fst x),
      al_signed_log = record_artifact api c\<rparr>"
    using assms(2) artifact(1)
    by (auto simp: row_verified_def record_key_def record_artifact_def valid_record_def)
  then show "logs_verified api t"
    using rec assms(1) by (simp add: t logs_verified_upsert)
qed

lemma submit_refused:
  assumes "submit_log_at api x c s = (r, t)" and "\<not> is_updated r"
  shows "log_cell t = log_cell s" and "logs_verified api t = logs_verified api s"
proof -
  have put: "put_account_log api c (at_instant x s) = (r, t)" and "r \<noteq> Inr Updated"
    using assms by (simp_all add: submit_log_at_def is_updated_def)
  from put have env: "env_step (at_instant x s) t"
    by (cases rule: put_account_log_cases) (use \<open>r \<noteq> Inr Updated\<close> in simp_all)
  show "log_cell t = log_cell s" and "logs_verified api t = logs_verified api s"
    using log_cell_env [OF env] logs_verified_env [OF env] by simp_all
qed

end

sublocale account_log_crate \<subseteq> logs: cas_table extends "submit_log_at api" "record_key api"
  "record_artifact api" log_cell is_updated "valid_record api" "logs_verified api"
proof (unfold_locales, goal_cases)
  case (1 a b c) then show ?case by (rule extends_trans)
next
  case (2 a) show ?case by (rule extends_irrefl)
next
  case (3 s ob x r t)
  then show ?case using submit_stored(1,2) [OF 3] by simp
next
  case (4 s ob x r t)
  show ?case by (rule submit_refused(1) [OF 4(3,4)])
next
  case (5 s ob x)
  obtain r t where run: "submit_log_at api x ob s = (r, t)" by (meson surj_pair)
  show ?case
  proof (cases "is_updated r")
    case True
    show ?thesis using submit_stored(3) [OF 5 run True] run by simp
  next
    case False
    show ?thesis using submit_refused(2) [OF run False] 5(1) run by simp
  qed
qed

context account_log_crate
begin

lemma log_history:
  assumes "logs_verified api s" and "\<forall>(x, c) \<in> set ops. valid_record api c"
  shows "sorted_wrt extends (accepted (submit_log_at api) (record_key api) (record_artifact api) is_updated k ops s)"
    and "log_cell (put_all (submit_log_at api) ops s) k =
        (case accepted (submit_log_at api) (record_key api) (record_artifact api) is_updated k ops s of
           [] \<Rightarrow> log_cell s k | vs \<Rightarrow> Some (last vs))"
    and "logs_verified api (put_all (submit_log_at api) ops s)"
  using logs.accepted_chain [OF assms] logs.get_put_all [OF assms] logs.put_all_inv [OF assms] by simp_all

text \<open>The whole of \<open>apply_account_log\<close> as its effect on the cell of the account.\<close>

lemma apply_log_cell:
  assumes "logs_verified api s" and "apply_account_log api a slog s = (r, t)"
  shows "logs_verified api t"
    and "log_cell t = log_cell s \<or>
      (log_cell t = (log_cell s)(addr_to_string api a \<mapsto> signed_to_bytes api slog) \<and>
       (\<forall>old. log_cell s (addr_to_string api a) = Some old \<longrightarrow> extends old (signed_to_bytes api slog)))"
    and "r = Inr () \<Longrightarrow> \<exists>c. record_new api a slog = Inr c"
proof -
  have same: "logs_verified api t \<and> log_cell t = log_cell s" if "env_step s t"
    using assms(1) log_cell_env [OF that] logs_verified_env [OF that, of api] by simp
  have "logs_verified api t \<and> (log_cell t = log_cell s \<or>
      (log_cell t = (log_cell s)(addr_to_string api a \<mapsto> signed_to_bytes api slog) \<and>
       (\<forall>old. log_cell s (addr_to_string api a) = Some old \<longrightarrow> extends old (signed_to_bytes api slog)))) \<and>
      (r = Inr () \<longrightarrow> (\<exists>c. record_new api a slog = Inr c))"
    using assms(2)
  proof (cases rule: apply_account_log_cases)
    case (rejected e)
    then show ?thesis using assms(1) by simp
  next
    case (failed e)
    then show ?thesis using same by simp
  next
    case (unchanged c upd)
    then show ?thesis using same by simp
  next
    case (stored c upd u)
    have c: "record_addr api c = a" "record_signed_log api c = slog" by (rule made_from [OF stored(1)])+
    have key: "record_key api c = addr_to_string api a" "record_artifact api c = signed_to_bytes api slog"
      by (simp_all add: record_key_def record_artifact_def c)
    have "submit_log_at api (clock s, []) c s =
        (Inr Updated, at_instant (clock s, []) s\<lparr>pool := pool t\<rparr>)"
      using stored(2,3,6) by (simp add: submit_log_at_def put_account_log_quiet)
    note run = submit_stored [OF assms(1) new_valid [OF stored(1)] this]
    have "log_cell t = log_cell (at_instant (clock s, []) s\<lparr>pool := pool t\<rparr>)"
      and "logs_verified api t = logs_verified api (at_instant (clock s, []) s\<lparr>pool := pool t\<rparr>)"
      by (auto simp: log_cell_def logs_verified_def)
    then show ?thesis using run stored(1) by (simp add: is_updated_def key)
  qed
  then show "logs_verified api t" and "log_cell t = log_cell s \<or>
      (log_cell t = (log_cell s)(addr_to_string api a \<mapsto> signed_to_bytes api slog) \<and>
       (\<forall>old. log_cell s (addr_to_string api a) = Some old \<longrightarrow> extends old (signed_to_bytes api slog)))"
    and "r = Inr () \<Longrightarrow> \<exists>c. record_new api a slog = Inr c"
    by simp_all
qed

lemma verdict:
  assumes "quiet s" and "logs_verified api s" and "record_new api a slog = Inr c"
  defines "new \<equiv> signed_to_bytes api slog"
  defines "stored \<equiv> s\<lparr>pool := sql_upsert_log (addr_to_string api a) (stamp_ms (clock s)) new (pool s)\<rparr>"
  shows "log_cell s (addr_to_string api a) = None \<Longrightarrow> apply_account_log api a slog s = (Inr (), stored)"
    and "log_cell s (addr_to_string api a) = Some old \<Longrightarrow> extends old new \<Longrightarrow>
      apply_account_log api a slog s = (Inr (), stored)"
    and "log_cell s (addr_to_string api a) = Some new \<Longrightarrow> apply_account_log api a slog s = (Inr (), s)"
    and "log_cell s (addr_to_string api a) = Some old \<Longrightarrow> extends new old \<Longrightarrow>
      apply_account_log api a slog s = (Inl Stale, s)"
    and "log_cell s (addr_to_string api a) = Some old \<Longrightarrow> \<not> prefix (drop 64 old) (drop 64 new) \<Longrightarrow>
      \<not> prefix (drop 64 new) (drop 64 old) \<Longrightarrow> apply_account_log api a slog s = (Inl Forked, s)"
proof -
  have c: "record_addr api c = a" "record_signed_log api c = slog" by (rule made_from [OF assms(3)])+
  have key: "record_key api c = addr_to_string api a" "record_artifact api c = new"
    by (simp_all add: record_key_def record_artifact_def new_def c)
  note run = apply_account_log_quiet [OF assms(1), of api a slog] assms(3) c new_def stored_def
  show "log_cell s (addr_to_string api a) = None \<Longrightarrow> apply_account_log api a slog s = (Inr (), stored)"
    using decision_first [of s c] by (simp add: run key)
  {
    fix old
    assume cell: "log_cell s (addr_to_string api a) = Some old"
    obtain upd where upd: "log_decision api c (pool s) = Inr upd"
      "upd_outcome upd = Updated \<longleftrightarrow> extends old new" "upd_outcome upd = Updated \<Longrightarrow> upd_record upd = c"
      "old = new \<Longrightarrow> upd_outcome upd = Unchanged Identical"
      "extends new old \<Longrightarrow> upd_outcome upd = Unchanged Behind"
      "\<not> prefix (drop 64 old) (drop 64 new) \<Longrightarrow> \<not> prefix (drop 64 new) (drop 64 old) \<Longrightarrow>
        upd_outcome upd = Unchanged Diverged"
      by (rule decision_compared [OF assms(2) new_valid [OF assms(3)], of old]) (use cell key in auto)
    show "extends old new \<Longrightarrow> apply_account_log api a slog s = (Inr (), stored)"
      using upd(1,2,3) by (simp add: run)
    show "extends new old \<Longrightarrow> apply_account_log api a slog s = (Inl Stale, s)"
      using upd(1,5) by (simp add: run outcome_result_def)
    show "\<not> prefix (drop 64 old) (drop 64 new) \<Longrightarrow> \<not> prefix (drop 64 new) (drop 64 old) \<Longrightarrow>
        apply_account_log api a slog s = (Inl Forked, s)"
      using upd(1,6) by (simp add: run outcome_result_def)
    have "old = new \<Longrightarrow> apply_account_log api a slog s = (Inr (), s)"
      using upd(1,4) by (simp add: run outcome_result_def)
  }
  then show "log_cell s (addr_to_string api a) = Some new \<Longrightarrow> apply_account_log api a slog s = (Inr (), s)"
    by blast
qed

end

interpretation sample_logs: account_log_crate sample_log
  by unfold_locales (rule sample_account_log_laws)

section \<open>Properties of account logs\<close>

text \<open>A log for the closed examples, signed by the address under \<^term>\<open>sample_log\<close>.\<close>

definition sample_signed_log :: "bytes \<Rightarrow> bytes \<Rightarrow> sample_signed" where
  "sample_signed_log a entries = (sample_log_signature a (1 # entries), 1 # entries)"

lemma sample_log_simps [simp]:
  "record_new sample_log a (sample_signed_log a entries) = Inr (a, sample_signed_log a entries)"
  "addr_to_string sample_log a = base16_encode a"
  "drop 64 (signed_to_bytes sample_log (sample_signed_log a entries)) = 1 # entries"
  "valid_record sample_log (a, sample_signed_log a entries)"
  by (simp_all add: sample_log_def sample_record_new_def sample_signed_log_def sample_to_bytes_def
      valid_record_def)

lemma fresh_logs [simp]: "logs_verified api (fresh_store now)" "log_cell (fresh_store now) k = None"
  by (simp_all add: logs_verified_def log_cell_def empty_tables_def sql_select_log_def)

text \<open>
  C14. The verdict on a log that verifies under its address, where no database call fails: a first
  log and a log that strictly extends the stored one are stored, with the clock's stamp; the very
  log on file is accepted and changes nothing; a strict prefix of it is refused as stale, and a log
  that rewrites it as forked, both leaving the store as it was.
\<close>

theorem account_log_verdict:
  assumes "account_log_laws api" and "quiet s" and "logs_verified api s"
    and "record_new api a slog = Inr c"
  shows "let new = signed_to_bytes api slog; k = addr_to_string api a;
             stored = s\<lparr>pool := sql_upsert_log k (stamp_ms (clock s)) new (pool s)\<rparr>;
             outcome = apply_account_log api a slog s
         in case log_cell s k of
              None \<Rightarrow> outcome = (Inr (), stored)
            | Some old \<Rightarrow>
                (extends old new \<longrightarrow> outcome = (Inr (), stored)) \<and>
                (old = new \<longrightarrow> outcome = (Inr (), s)) \<and>
                (extends new old \<longrightarrow> outcome = (Inl Stale, s)) \<and>
                (\<not> prefix (drop 64 old) (drop 64 new) \<and> \<not> prefix (drop 64 new) (drop 64 old) \<longrightarrow>
                   outcome = (Inl Forked, s))"
  using account_log_crate.verdict [OF account_log_crate.intro [OF assms(1)] assms(2-4)]
  by (auto simp: Let_def split: option.split)

theorem account_log_verdict_witness:
  "let s = fresh_store 0; first = sample_signed_log [7] [5, 6]; fork = sample_signed_log [7] [5, 9];
       t = snd (apply_account_log sample_log [7] first s)
   in apply_account_log sample_log [7] first s = (Inr (), t) \<and>
      apply_account_log sample_log [7] first t = (Inr (), t) \<and>
      apply_account_log sample_log [7] (sample_signed_log [7] [5]) t = (Inl Stale, t) \<and>
      apply_account_log sample_log [7] fork t = (Inl Forked, t)"
proof -
  let ?s = "fresh_store 0" and ?bytes = "signed_to_bytes sample_log (sample_signed_log [7] [5, 6])"
  let ?t = "?s\<lparr>pool := sql_upsert_log (base16_encode [7]) (stamp_ms 0) ?bytes empty_tables\<rparr>"
  have first: "apply_account_log sample_log [7] (sample_signed_log [7] [5, 6]) ?s = (Inr (), ?t)"
    using account_log_verdict [OF sample_account_log_laws _ _ sample_log_simps(1), of ?s "[7]" "[5, 6]"]
    by (simp add: Let_def)
  have cell: "log_cell ?t (base16_encode [7]) = Some ?bytes"
    by (simp add: log_cell_def)
  have inv: "logs_verified sample_log ?t"
    using account_log_crate.apply_log_cell(1) [OF sample_logs.account_log_crate_axioms fresh_logs(1) first] .
  have quiet: "quiet ?t" by simp
  note again = account_log_verdict [OF sample_account_log_laws quiet inv sample_log_simps(1),
      unfolded sample_log_simps(2) Let_def, of "[7]", unfolded cell option.case extends_def sample_log_simps(3)]
  have later: "apply_account_log sample_log [7] (sample_signed_log [7] [5, 6]) ?t = (Inr (), ?t)"
    "apply_account_log sample_log [7] (sample_signed_log [7] [5]) ?t = (Inl Stale, ?t)"
    "apply_account_log sample_log [7] (sample_signed_log [7] [5, 9]) ?t = (Inl Forked, ?t)"
    using again [of "[5, 6]"] again [of "[5]"] again [of "[5, 9]"] by (simp_all add: strict_prefix_def)
  show ?thesis using first later by (simp add: Let_def)
qed

end
