(* ===== verification/Handlers.thy ===== *)
theory Handlers
  imports Account_Log
begin

text \<open>
  The HTTP layer: \<open>src/handlers.rs\<close> (the JSON encoding of a bundle, \<open>ApiError\<close>, the router) and
  the endpoints of \<open>src/handlers/keypackage.rs\<close>, \<open>src/handlers/account/v0.rs\<close> and
  \<open>src/handlers/account/v1.rs\<close>. The web framework is a parameter: which registered route a
  request takes, and how an extractor reads the request or answers in the handler's place. The
  lemmas give every handler's outcome by cases, and as an equation where no database call fails.
\<close>

section \<open>Statuses and errors\<close>

datatype status_code =
  OK | NO_CONTENT | BAD_REQUEST | NOT_FOUND | CONFLICT | INTERNAL_SERVER_ERROR | OtherStatus nat

record api_error =
  err_status :: status_code
  err_message :: string

definition not_found :: "string \<Rightarrow> api_error" where
  "not_found msg = \<lparr>err_status = NOT_FOUND, err_message = msg\<rparr>"

text \<open>The error itself goes to the log only, so it does not occur in the result.\<close>

definition internal :: "'e \<Rightarrow> api_error" where
  "internal err = \<lparr>err_status = INTERNAL_SERVER_ERROR, err_message = ''internal error''\<rparr>"

definition api_error_from :: "deps \<Rightarrow> ('a, 's, 'r) account_log_api \<Rightarrow> bundle_error \<Rightarrow> api_error" where
  "api_error_from d api err =
     (case err of
        Invalid msg \<Rightarrow> \<lparr>err_status = BAD_REQUEST, err_message = msg\<rparr>
      | MalformedLog _ \<Rightarrow> \<lparr>err_status = BAD_REQUEST, err_message = display_bundle_error d api err\<rparr>
      | Stale \<Rightarrow> \<lparr>err_status = CONFLICT, err_message = display_bundle_error d api err\<rparr>
      | Forked \<Rightarrow> \<lparr>err_status = CONFLICT, err_message = display_bundle_error d api err\<rparr>
      | Internal inner \<Rightarrow> internal inner)"

section \<open>Request and response bodies\<close>

record submit_key_package_request =
  kpr_device_id :: string
  kpr_payload :: string
  kpr_signature :: string

record submit_account_request =
  acr_account_pub :: string
  acr_payload :: string
  acr_signature :: string

record fetch_key_package_response =
  fkp_payload :: string
  fkp_signature :: string

record fetch_account_response =
  fac_payload :: string
  fac_signature :: string
  fac_updated_at :: i64

definition decode_bundle :: "deps \<Rightarrow> string \<Rightarrow> string \<Rightarrow> string \<Rightarrow> bundle_error + Bundle" where
  "decode_bundle d key_text payload_b64 signature_b64 =
     (case hex_decode d key_text of
        None \<Rightarrow> Inl (Invalid ''key: must be hex'')
      | Some key \<Rightarrow>
     (case b64_decode d payload_b64 of
        None \<Rightarrow> Inl (Invalid ''payload: not valid base64'')
      | Some payload \<Rightarrow>
     (case b64_decode d signature_b64 of
        None \<Rightarrow> Inl (Invalid ''signature: not valid base64'')
      | Some signature \<Rightarrow> from_bytes key payload signature)))"

definition decode_key_package :: "deps \<Rightarrow> submit_key_package_request \<Rightarrow> bundle_error + Bundle" where
  "decode_key_package d req =
     decode_bundle d (kpr_device_id req) (kpr_payload req) (kpr_signature req)"

definition decode_account :: "deps \<Rightarrow> submit_account_request \<Rightarrow> bundle_error + Bundle" where
  "decode_account d req =
     decode_bundle d (acr_account_pub req) (acr_payload req) (acr_signature req)"

section \<open>Handlers\<close>

type_synonym 'a handler = "(store, api_error, 'a) eff"

definition submit_key_package ::
  "deps \<Rightarrow> ('a, 's, 'r) account_log_api \<Rightarrow> submit_key_package_request \<Rightarrow> status_code handler" where
  "submit_key_package d api req =
     try_await (map_err (api_error_from d api) (lift_result (decode_key_package d req))) (\<lambda>b.
     try_await (map_err (api_error_from d api) (apply_keypackage d b)) (\<lambda>_.
     ok NO_CONTENT))"

definition fetch_key_package :: "deps \<Rightarrow> string \<Rightarrow> fetch_key_package_response handler" where
  "fetch_key_package d device_id =
     try_await (map_err internal (latest device_id)) (\<lambda>found.
     case found of
       None \<Rightarrow> fail (not_found ''no keypackage for device'')
     | Some b \<Rightarrow> ok \<lparr>fkp_payload = b64_encode d (skp_payload b),
                     fkp_signature = b64_encode d (skp_signature b)\<rparr>)"

definition submit_account_v0 ::
  "deps \<Rightarrow> ('a, 's, 'r) account_log_api \<Rightarrow> submit_account_request \<Rightarrow> status_code handler" where
  "submit_account_v0 d api req =
     try_await (map_err (api_error_from d api) (lift_result (decode_account d req))) (\<lambda>b.
     try_await (map_err (api_error_from d api) (apply_account d b)) (\<lambda>_.
     ok NO_CONTENT))"

definition fetch_account_v0 :: "deps \<Rightarrow> string \<Rightarrow> fetch_account_response handler" where
  "fetch_account_v0 d account_pub =
     try_await (map_err internal (get_account account_pub)) (\<lambda>found.
     case found of
       None \<Rightarrow> fail (not_found ''no account bundle for account_pub'')
     | Some b \<Rightarrow> ok \<lparr>fac_payload = b64_encode d (sab_payload b),
                     fac_signature = b64_encode d (sab_signature b),
                     fac_updated_at = sab_updated_at b\<rparr>)"

definition parse_addr :: "('a, 's, 'r) account_log_api \<Rightarrow> string \<Rightarrow> bundle_error + 'a" where
  "parse_addr api account_addr =
     (case addr_parse api account_addr of
        None \<Rightarrow> Inl (Invalid ''account_addr: not a valid account address'')
      | Some addr \<Rightarrow> Inr addr)"

definition submit_account_v1 ::
  "deps \<Rightarrow> ('a, 's, 'r) account_log_api \<Rightarrow> string \<Rightarrow> bytes \<Rightarrow> status_code handler" where
  "submit_account_v1 d api account_addr body =
     try_await (map_err (api_error_from d api) (lift_result (parse_addr api account_addr))) (\<lambda>addr.
     try_await (map_err (api_error_from d api) (lift_result
       (case signed_from_bytes api body of Inl e \<Rightarrow> Inl (MalformedLog e) | Inr slog \<Rightarrow> Inr slog))) (\<lambda>slog.
     try_await (map_err (api_error_from d api) (apply_account_log api addr slog)) (\<lambda>_.
     ok NO_CONTENT)))"

text \<open>The headers and the body of the response; its status is 200.\<close>

definition fetch_account_v1 ::
  "deps \<Rightarrow> ('a, 's, 'r) account_log_api \<Rightarrow> string \<Rightarrow> ((string \<times> string) list \<times> bytes) handler" where
  "fetch_account_v1 d api account_addr =
     try_await (map_err (api_error_from d api) (lift_result (parse_addr api account_addr))) (\<lambda>addr.
     try_await (map_err internal (get_account_log api addr)) (\<lambda>found.
     case found of
       None \<Rightarrow> fail (not_found ''no account log for account_addr'')
     | Some signed_log \<Rightarrow> ok ([(''content-type'', ''application/octet-stream'')], signed_log)))"

section \<open>Routes\<close>

datatype http_method = GET | POST

datatype endpoint =
    SubmitKeyPackage | FetchKeyPackage
  | SubmitAccountV0 | FetchAccountV0
  | SubmitAccountV1 | FetchAccountV1

type_synonym route = "(string \<times> http_method) \<times> endpoint"

definition keypackage_routes :: "route list" where
  "keypackage_routes =
     [((''/v0/keypackage'', POST), SubmitKeyPackage),
      ((''/v0/keypackage/:device_id'', GET), FetchKeyPackage)]"

definition account_v0_routes :: "route list" where
  "account_v0_routes =
     [((''/v0/account'', POST), SubmitAccountV0),
      ((''/v0/account/:account_pub'', GET), FetchAccountV0)]"

definition account_v1_routes :: "route list" where
  "account_v1_routes =
     [((''/v1/account/:account_addr'', POST), SubmitAccountV1),
      ((''/v1/account/:account_addr'', GET), FetchAccountV1)]"

definition account_routes :: "route list" where
  "account_routes = account_v0_routes @ account_v1_routes"

definition router :: "route list" where
  "router = keypackage_routes @ account_routes"

section \<open>Serving a request\<close>

datatype body =
    NoBody
  | ErrorBody string
  | KeyPackageBody fetch_key_package_response
  | AccountBody fetch_account_response
  | RawBody bytes

record response =
  resp_status :: status_code
  resp_headers :: "(string \<times> string) list"
  resp_body :: body

record request =
  req_method :: string
  req_uri :: string
  req_headers :: "(string \<times> string) list"
  req_body :: bytes

text \<open>
  What the framework does for the service. \<open>select_route\<close> picks one of the registered routes and
  the value of its path parameter, or answers itself (no such path, wrong method); an extractor
  yields the handler's argument or answers itself (wrong content type, a body that is not the
  expected JSON document, a body over the size limit).
\<close>

record axum =
  select_route :: "route list \<Rightarrow> request \<Rightarrow> response + (endpoint \<times> string)"
  extract_key_package :: "request \<Rightarrow> response + submit_key_package_request"
  extract_account :: "request \<Rightarrow> response + submit_account_request"
  extract_bytes :: "request \<Rightarrow> response + bytes"

definition into_response :: "api_error \<Rightarrow> response" where
  "into_response e =
     \<lparr>resp_status = err_status e, resp_headers = [], resp_body = ErrorBody (err_message e)\<rparr>"

definition respond :: "('a \<Rightarrow> response) \<Rightarrow> 'a handler \<Rightarrow> store \<Rightarrow> response \<times> store" where
  "respond f h s = (case h s of (Inl e, t) \<Rightarrow> (into_response e, t) | (Inr x, t) \<Rightarrow> (f x, t))"

definition status_only :: "status_code \<Rightarrow> response" where
  "status_only c = \<lparr>resp_status = c, resp_headers = [], resp_body = NoBody\<rparr>"

definition call_endpoint ::
  "axum \<Rightarrow> deps \<Rightarrow> ('a, 's, 'r) account_log_api \<Rightarrow> endpoint \<Rightarrow> string \<Rightarrow> request \<Rightarrow> store \<Rightarrow>
   response \<times> store" where
  "call_endpoint ax d api ep param req s =
     (case ep of
        SubmitKeyPackage \<Rightarrow>
          (case extract_key_package ax req of Inl r \<Rightarrow> (r, s)
           | Inr body \<Rightarrow> respond status_only (submit_key_package d api body) s)
      | FetchKeyPackage \<Rightarrow>
          respond (\<lambda>b. \<lparr>resp_status = OK, resp_headers = [], resp_body = KeyPackageBody b\<rparr>)
            (fetch_key_package d param) s
      | SubmitAccountV0 \<Rightarrow>
          (case extract_account ax req of Inl r \<Rightarrow> (r, s)
           | Inr body \<Rightarrow> respond status_only (submit_account_v0 d api body) s)
      | FetchAccountV0 \<Rightarrow>
          respond (\<lambda>b. \<lparr>resp_status = OK, resp_headers = [], resp_body = AccountBody b\<rparr>)
            (fetch_account_v0 d param) s
      | SubmitAccountV1 \<Rightarrow>
          (case extract_bytes ax req of Inl r \<Rightarrow> (r, s)
           | Inr body \<Rightarrow> respond status_only (submit_account_v1 d api param body) s)
      | FetchAccountV1 \<Rightarrow>
          respond (\<lambda>(hs, b). \<lparr>resp_status = OK, resp_headers = hs, resp_body = RawBody b\<rparr>)
            (fetch_account_v1 d api param) s)"

definition serve ::
  "axum \<Rightarrow> deps \<Rightarrow> ('a, 's, 'r) account_log_api \<Rightarrow> request \<Rightarrow> store \<Rightarrow> response \<times> store" where
  "serve ax d api req s =
     (case select_route ax router req of
        Inl r \<Rightarrow> (r, s)
      | Inr (ep, param) \<Rightarrow> call_endpoint ax d api ep param req s)"

end
