(* ===== verification/Endpoints.thy ===== *)
theory Endpoints
  imports Handlers
begin

text \<open>
  What a client sees of the six endpoints: the status of every kind of request, that what was
  posted is what is fetched, and that an internal error shows nothing of its cause.
\<close>

section \<open>Handlers, run\<close>

definition answer :: "('e \<Rightarrow> 'f) \<Rightarrow> 'b \<Rightarrow> ('e + 'a) \<times> 's \<Rightarrow> ('f + 'b) \<times> 's" where
  "answer f y res = (case res of (Inl e, t) \<Rightarrow> (Inl (f e), t) | (Inr _, t) \<Rightarrow> (Inr y, t))"

lemma answer_simps [simp]: "answer f y (Inl e, t) = (Inl (f e), t)" "answer f y (Inr x, t) = (Inr y, t)"
  by (simp_all add: answer_def)

lemma try_await_ok_answer: "try_await (map_err f m) (\<lambda>_. ok y) s = answer f y (m s)"
  by (auto simp: try_await_def map_err_def ok_def answer_def split: prod.splits sum.splits)

lemma try_await_lift:
  "try_await (map_err f (lift_result r)) k s =
     (case r of Inl e \<Rightarrow> (Inl (f e), s) | Inr x \<Rightarrow> k x s)"
  by (simp add: try_await_def map_err_def lift_result_def split: sum.splits)

lemma submit_key_package_run:
  "submit_key_package d api req s =
     (case decode_key_package d req of
        Inl e \<Rightarrow> (Inl (api_error_from d api e), s)
      | Inr b \<Rightarrow> answer (api_error_from d api) NO_CONTENT (apply_keypackage d b s))"
  by (simp add: submit_key_package_def try_await_lift try_await_ok_answer split: sum.split)

lemma submit_account_v0_run:
  "submit_account_v0 d api req s =
     (case decode_account d req of
        Inl e \<Rightarrow> (Inl (api_error_from d api e), s)
      | Inr b \<Rightarrow> answer (api_error_from d api) NO_CONTENT (apply_account d b s))"
  by (simp add: submit_account_v0_def try_await_lift try_await_ok_answer split: sum.split)

lemma submit_account_v1_run:
  "submit_account_v1 d api path body s =
     (case addr_parse api path of
        None \<Rightarrow> (Inl \<lparr>err_status = BAD_REQUEST,
                      err_message = ''account_addr: not a valid account address''\<rparr>, s)
      | Some a \<Rightarrow>
          (case signed_from_bytes api body of
             Inl e \<Rightarrow> (Inl (api_error_from d api (MalformedLog e)), s)
           | Inr slog \<Rightarrow> answer (api_error_from d api) NO_CONTENT (apply_account_log api a slog s)))"
  by (simp add: submit_account_v1_def parse_addr_def try_await_lift try_await_ok_answer api_error_from_def
      split: sum.split option.split)

lemma fetch_key_package_quiet:
  "quiet s \<Longrightarrow> fetch_key_package d dev s =
     ((case sql_latest_keypackage dev (pool s) of
         None \<Rightarrow> Inl (not_found ''no keypackage for device'')
       | Some r \<Rightarrow> Inr \<lparr>fkp_payload = b64_encode d (kp_payload r),
                        fkp_signature = b64_encode d (kp_signature r)\<rparr>), s)"
  by (simp add: fetch_key_package_def latest_quiet map_err_def try_await_def fail_def ok_def split: option.split)

lemma fetch_account_v0_quiet:
  "quiet s \<Longrightarrow> fetch_account_v0 d acct s =
     ((case sql_select_account acct (pool s) of
         None \<Rightarrow> Inl (not_found ''no account bundle for account_pub'')
       | Some r \<Rightarrow> Inr \<lparr>fac_payload = b64_encode d (ab_payload r),
                        fac_signature = b64_encode d (ab_signature r),
                        fac_updated_at = ab_updated_at r\<rparr>), s)"
  by (simp add: fetch_account_v0_def get_account_quiet map_err_def try_await_def fail_def ok_def
      split: option.split)

lemma fetch_account_v1_quiet:
  "quiet s \<Longrightarrow> fetch_account_v1 d api path s =
     ((case addr_parse api path of
         None \<Rightarrow> Inl \<lparr>err_status = BAD_REQUEST, err_message = ''account_addr: not a valid account address''\<rparr>
       | Some a \<Rightarrow>
           (case log_cell s (addr_to_string api a) of
              None \<Rightarrow> Inl (not_found ''no account log for account_addr'')
            | Some bytes \<Rightarrow> Inr ([(''content-type'', ''application/octet-stream'')], bytes))), s)"
  by (simp add: fetch_account_v1_def parse_addr_def lift_result_def api_error_from_def get_account_log_quiet
      map_err_def try_await_def fail_def ok_def log_cell_def split: option.split)

lemmas endpoint_runs = submit_key_package_run submit_account_v0_run submit_account_v1_run
lemmas fetches_quiet = fetch_key_package_quiet fetch_account_v0_quiet fetch_account_v1_quiet

text \<open>A request a client composes from raw bytes decodes to the bundle of those bytes.\<close>

lemma decode_bundle_encoded:
  assumes "hex_laws d" and "base64_laws d" and "length key = 32" and "length g = 64"
  shows "decode_bundle d (hex_encode d key) (b64_encode d p) (b64_encode d g) =
      Inr \<lparr>bkey = key, bpayload = p, bsignature = g\<rparr>"
  using assms by (simp add: decode_bundle_def hex_lawsD base64_lawsD from_bytes_def)

lemma decode_bundle_wf: "decode_bundle d k p g = Inr b \<Longrightarrow> bundle_wf b"
  by (auto simp: decode_bundle_def from_bytes_wf split: option.splits)

lemma decode_bundle_Invalid: "decode_bundle d k p g = Inl e \<Longrightarrow> \<exists>msg. e = Invalid msg"
  by (auto simp: decode_bundle_def from_bytes_def split: option.splits if_splits)

lemma insert_latest:
  assumes "store_wf s"
    and "\<forall>r \<in> set (keypackages (pool s)). kp_device_id r = k \<longrightarrow> kp_received_at r < t"
  obtains db r where "sql_insert_keypackage k t p g (pool s) = Some db"
    and "sql_latest_keypackage k db = Some r" and "kp_payload r = p" and "kp_signature r = g"
proof -
  let ?r = "\<lparr>kp_rowid = next_rowid (keypackages (pool s)), kp_device_id = k, kp_received_at = t,
      kp_payload = p, kp_signature = g\<rparr>"
  let ?db = "(pool s)\<lparr>keypackages := keypackages (pool s) @ [?r]\<rparr>"
  have ins: "sql_insert_keypackage k t p g (pool s) = Some ?db"
    using assms(2) by (auto simp: sql_insert_keypackage_def list_ex_iff)
  have "keypackages_pk ?db"
    using insert_keypackage_wf [OF _ ins] assms(1) by (simp add: store_wf_def tables_wf_def)
  then have "sql_latest_keypackage (kp_device_id ?r) ?db = Some ?r"
    by (rule latest_keypackage_unique)
      (use assms(2) in \<open>auto simp: less_le dest: arg_cong [of _ _ kp_received_at]\<close>)
  then have "sql_latest_keypackage k ?db = Some ?r" by simp
  from that [OF ins this] show thesis by simp
qed

lemma decode_sample_bundle:
  "decode_bundle sample_deps (hex_encode sample_deps (bkey (sample_bundle seed p))) (b64_encode sample_deps p)
     (b64_encode sample_deps (bsignature (sample_bundle seed p))) = Inr (sample_bundle seed p)"
  by (subst decode_bundle_encoded [OF sample_hex_laws sample_base64_laws]) (simp_all add: sample_bundle_def)

lemma authentic_sample:
  "authentic sample_deps (bkey (sample_bundle seed p)) p (bsignature (sample_bundle seed p))"
  using verify_sample [of seed p] verify_Inr_iff [of sample_deps "sample_bundle seed p" "()"] by simp

lemma authentic_sign:
  "authentic sample_deps (replicate 32 seed) p (sample_sign (replicate 32 seed) p)"
  using authentic_sample [of seed p] by (simp add: sample_bundle_def)

section \<open>Keypackages\<close>

text \<open>
  C23. The answer to every keypackage submission, where no database call fails. A body that does
  not decode, a key that is not an Ed25519 key and a signature that does not verify are refused with
  400 and the reason; a second bundle of a device within one millisecond is refused with 500; any
  other submission gets 204 and adds exactly its row. A refusal leaves the store as it was.
\<close>

theorem post_keypackage_answer:
  assumes "quiet s"
  shows "submit_key_package d api req s =
     (case decode_key_package d req of
        Inl e \<Rightarrow> (Inl (api_error_from d api e), s)
      | Inr b \<Rightarrow>
          if \<not> verifying_key_ok d (bkey b)
          then (Inl \<lparr>err_status = BAD_REQUEST, err_message = ''key: not a valid ed25519 key''\<rparr>, s)
          else if \<not> verify_strict d (bkey b) (bpayload b) (bsignature b)
          then (Inl \<lparr>err_status = BAD_REQUEST, err_message = ''signature: verification failed''\<rparr>, s)
          else (case sql_insert_keypackage (hex_encode d (bkey b)) (stamp_ms (clock s))
                       (bpayload b) (bsignature b) (pool s) of
                  None \<Rightarrow> (Inl \<lparr>err_status = INTERNAL_SERVER_ERROR, err_message = ''internal error''\<rparr>, s)
                | Some db \<Rightarrow> (Inr NO_CONTENT, s\<lparr>pool := db\<rparr>)))"
  using assms
  by (simp add: submit_key_package_run apply_keypackage_quiet verify_def api_error_from_def internal_def
      key_hex_def split: sum.split option.split)

theorem post_keypackage_answer_witness:
  "let b = sample_bundle 7 [1, 2, 3]; s = fresh_store 5000000;
       req = \<lparr>kpr_device_id = hex_encode sample_deps (bkey b), kpr_payload = b64_encode sample_deps (bpayload b),
              kpr_signature = b64_encode sample_deps (bsignature b)\<rparr>
   in submit_key_package sample_deps sample_log req s =
     (case sql_insert_keypackage (hex_encode sample_deps (bkey b)) (stamp_ms 5000000) [1, 2, 3]
             (bsignature b) empty_tables of
        None \<Rightarrow> (Inl \<lparr>err_status = INTERNAL_SERVER_ERROR, err_message = ''internal error''\<rparr>, s)
      | Some db \<Rightarrow> (Inr NO_CONTENT, s\<lparr>pool := db\<rparr>))"
proof -
  define b where "b = sample_bundle 7 [1, 2, 3]"
  let ?req = "\<lparr>kpr_device_id = hex_encode sample_deps (bkey b), kpr_payload = b64_encode sample_deps (bpayload b),
      kpr_signature = b64_encode sample_deps (bsignature b)\<rparr>"
  have dec: "decode_key_package sample_deps ?req = Inr b" and auth: "authentic sample_deps (bkey b) (bpayload b) (bsignature b)"
    using decode_sample_bundle [of 7 "[1, 2, 3]"] authentic_sample [of 7 "[1, 2, 3]"]
    by (simp_all add: decode_key_package_def b_def)
  have "bpayload b = [1, 2, 3]" by (simp add: b_def)
  with post_keypackage_answer [of "fresh_store 5000000" sample_deps sample_log ?req] dec auth
  show ?thesis by (simp add: Let_def authentic_def flip: b_def)
qed

text \<open>The body a client posts for a bundle, on either v0 endpoint.\<close>

definition key_package_request :: "deps \<Rightarrow> bytes \<Rightarrow> bytes \<Rightarrow> bytes \<Rightarrow> submit_key_package_request" where
  "key_package_request d key p g =
     \<lparr>kpr_device_id = hex_encode d key, kpr_payload = b64_encode d p, kpr_signature = b64_encode d g\<rparr>"

definition account_request :: "deps \<Rightarrow> bytes \<Rightarrow> bytes \<Rightarrow> bytes \<Rightarrow> submit_account_request" where
  "account_request d key p g =
     \<lparr>acr_account_pub = hex_encode d key, acr_payload = b64_encode d p, acr_signature = b64_encode d g\<rparr>"

text \<open>
  C15. A keypackage that was posted is the one fetched: a client that posts an authentic bundle gets
  204, and a fetch for the device then returns the very strings the client sent, so that a consumer
  verifies the signature over the bytes that were signed. The clock must be past the stamps of the
  device's stored rows.
\<close>

theorem keypackage_post_then_get:
  assumes "hex_laws d" and "base64_laws d" and "quiet s" and "store_wf s"
    and "length key = 32" and "length g = 64" and "authentic d key p g"
    and "\<forall>r \<in> set (keypackages (pool s)). kp_device_id r = hex_encode d key \<longrightarrow>
           kp_received_at r < stamp_ms (clock s)"
  shows "\<exists>t. submit_key_package d api (key_package_request d key p g) s = (Inr NO_CONTENT, t) \<and>
      fetch_key_package d (hex_encode d key) t =
        (Inr \<lparr>fkp_payload = b64_encode d p, fkp_signature = b64_encode d g\<rparr>, t)"
proof -
  obtain db r where row: "sql_insert_keypackage (hex_encode d key) (stamp_ms (clock s)) p g (pool s) = Some db"
    "sql_latest_keypackage (hex_encode d key) db = Some r" "kp_payload r = p" "kp_signature r = g"
    using insert_latest [OF assms(4,8)] by metis
  let ?b = "\<lparr>bkey = key, bpayload = p, bsignature = g\<rparr>"
  have dec: "decode_key_package d (key_package_request d key p g) = Inr ?b"
    using assms(1,2,5,6) by (simp add: decode_key_package_def key_package_request_def decode_bundle_encoded)
  have "verify d ?b = Inr ()" using assms(7) by (simp add: verify_Inr_iff)
  then have "submit_key_package d api (key_package_request d key p g) s = (Inr NO_CONTENT, s\<lparr>pool := db\<rparr>)"
    using assms(3) row(1) by (simp add: submit_key_package_run dec apply_keypackage_quiet key_hex_def)
  then show ?thesis using assms(3) row(2-4) by (simp add: fetch_key_package_quiet)
qed

theorem keypackage_post_then_get_witness:
  "\<exists>t. submit_key_package sample_deps sample_log
          (key_package_request sample_deps (replicate 32 7) [1, 2] (sample_sign (replicate 32 7) [1, 2]))
          (fresh_store 0) = (Inr NO_CONTENT, t) \<and>
      fetch_key_package sample_deps (hex_encode sample_deps (replicate 32 7)) t =
        (Inr \<lparr>fkp_payload = b64_encode sample_deps [1, 2],
               fkp_signature = b64_encode sample_deps (sample_sign (replicate 32 7) [1, 2])\<rparr>, t)"
  by (rule keypackage_post_then_get [OF sample_hex_laws sample_base64_laws _ _ _ _ authentic_sign])
    (simp_all add: store_wf_def empty_tables_def tables_wf_defs)

text \<open>
  Two keypackages of one device received within the same millisecond: the first is stored, the
  second, however valid, is answered with 500 and lost.
\<close>

lemma keypackage_same_millisecond_refused:
  assumes "quiet s" and "submit_key_package d api req s = (Inr NO_CONTENT, t)"
    and "decode_key_package d req = Inr b" and "decode_key_package d req' = Inr b'"
    and "bkey b' = bkey b" and "authentic d (bkey b') (bpayload b') (bsignature b')"
    and "stamp_ms now = stamp_ms (clock s)"
  shows "submit_key_package d api req' (at_instant (now, []) t) =
      (Inl \<lparr>err_status = INTERNAL_SERVER_ERROR, err_message = ''internal error''\<rparr>, at_instant (now, []) t)"
proof -
  have "verify d b' = Inr ()" using assms(6) by (simp add: verify_Inr_iff)
  moreover have "sql_insert_keypackage (key_hex d b') (stamp_ms (clock s)) p g (pool t) = None" for p g
    using assms(1-3,5)
    by (auto simp: submit_key_package_run apply_keypackage_quiet key_hex_def sql_insert_keypackage_def
        split: sum.splits option.splits if_splits)
  ultimately show ?thesis
    using assms(7) by (simp add: submit_key_package_run assms(4) apply_keypackage_quiet api_error_from_def internal_def)
qed

section \<open>Account bundles\<close>

text \<open>
  C24. The answer to every account-bundle submission, where no database call fails: 400 with the
  reason for a body that does not decode, a bad key, a bad signature or a payload without a lamport
  header; 409 when the lamport is not above the stored one; and otherwise 204, the account's one row
  now being the new bundle under the current stamp. A refusal leaves the store as it was.
\<close>

theorem post_account_answer:
  assumes "quiet s"
  shows "submit_account_v0 d api req s =
     (case decode_account d req of
        Inl e \<Rightarrow> (Inl (api_error_from d api e), s)
      | Inr b \<Rightarrow>
          if \<not> verifying_key_ok d (bkey b)
          then (Inl \<lparr>err_status = BAD_REQUEST, err_message = ''key: not a valid ed25519 key''\<rparr>, s)
          else if \<not> verify_strict d (bkey b) (bpayload b) (bsignature b)
          then (Inl \<lparr>err_status = BAD_REQUEST, err_message = ''signature: verification failed''\<rparr>, s)
          else (case payload_lamport (bpayload b) of
             None \<Rightarrow> (Inl \<lparr>err_status = BAD_REQUEST,
                           err_message = ''payload: too short to contain a lamport header''\<rparr>, s)
           | Some lamport \<Rightarrow>
               if holds_lamport (hex_encode d (bkey b)) lamport (pool s)
               then (Inl \<lparr>err_status = CONFLICT,
                          err_message = ''stale bundle: not newer than the stored one''\<rparr>, s)
               else (Inr NO_CONTENT, s\<lparr>pool := sql_upsert_account (hex_encode d (bkey b)) (stamp_ms (clock s))
                       (bpayload b) (bsignature b) (pool s)\<rparr>)))"
  using assms
  by (simp add: submit_account_v0_run apply_account_quiet verify_def api_error_from_def display_bundle_error_def
      key_hex_def split: sum.split option.split)

theorem post_account_answer_witness:
  "let key = replicate 32 7; p = payload_with_lamport 5; g = sample_sign key p; s = fresh_store 5000000
   in submit_account_v0 sample_deps sample_log (account_request sample_deps key p g) s =
     (Inr NO_CONTENT, s\<lparr>pool := sql_upsert_account (hex_encode sample_deps key) (stamp_ms 5000000) p g empty_tables\<rparr>)"
  using authentic_sign [of 7 "payload_with_lamport 5"]
  by (simp add: Let_def post_account_answer decode_account_def account_request_def authentic_def
      decode_bundle_encoded [OF sample_hex_laws sample_base64_laws])

text \<open>
  C16. An account bundle that was posted is the one fetched, with the time of the upsert, and from then
  on every bundle of the account whose lamport is not higher, whoever replays it and whenever, is
  answered with 409 and changes nothing.
\<close>

theorem account_post_then_get:
  assumes "hex_laws d" and "base64_laws d" and "quiet s"
    and "length key = 32" and "length g = 64" and "authentic d key p g"
    and "payload_lamport p = Some lamport" and "\<not> holds_lamport (hex_encode d key) lamport (pool s)"
  shows "\<exists>t. submit_account_v0 d api (account_request d key p g) s = (Inr NO_CONTENT, t) \<and>
      fetch_account_v0 d (hex_encode d key) t =
        (Inr \<lparr>fac_payload = b64_encode d p, fac_signature = b64_encode d g,
               fac_updated_at = stamp_ms (clock s)\<rparr>, t) \<and>
      (\<forall>now p' g' l'. length g' = 64 \<longrightarrow> authentic d key p' g' \<longrightarrow> payload_lamport p' = Some l' \<longrightarrow>
         l' \<le> lamport \<longrightarrow>
         submit_account_v0 d api (account_request d key p' g') (at_instant (now, []) t) =
           (Inl \<lparr>err_status = CONFLICT, err_message = ''stale bundle: not newer than the stored one''\<rparr>,
            at_instant (now, []) t))"
proof -
  let ?t = "s\<lparr>pool := sql_upsert_account (hex_encode d key) (stamp_ms (clock s)) p g (pool s)\<rparr>"
  have dec: "decode_account d (account_request d key p' g') = Inr \<lparr>bkey = key, bpayload = p', bsignature = g'\<rparr>"
    if "length g' = 64" for p' g'
    using assms(1,2,4) that by (simp add: decode_account_def account_request_def decode_bundle_encoded)
  have ver: "verify d \<lparr>bkey = key, bpayload = p', bsignature = g'\<rparr> = Inr ()" if "authentic d key p' g'" for p' g'
    using that by (simp add: verify_Inr_iff)
  have "submit_account_v0 d api (account_request d key p g) s = (Inr NO_CONTENT, ?t)"
    using assms(3,7,8) by (simp add: submit_account_v0_run dec assms(5) apply_account_quiet ver assms(6) key_hex_def)
  moreover have "fetch_account_v0 d (hex_encode d key) ?t =
      (Inr \<lparr>fac_payload = b64_encode d p, fac_signature = b64_encode d g, fac_updated_at = stamp_ms (clock s)\<rparr>, ?t)"
    using assms(3) by (simp add: fetch_account_v0_quiet)
  moreover have "submit_account_v0 d api (account_request d key p' g') (at_instant (now, []) ?t) =
      (Inl \<lparr>err_status = CONFLICT, err_message = ''stale bundle: not newer than the stored one''\<rparr>,
       at_instant (now, []) ?t)"
    if "length g' = 64" "authentic d key p' g'" "payload_lamport p' = Some l'" "l' \<le> lamport" for now p' g' l'
    using that assms(7)
    by (simp add: submit_account_v0_run dec apply_account_quiet ver key_hex_def api_error_from_def
        display_bundle_error_def)
  ultimately show ?thesis by blast
qed

theorem account_post_then_get_witness:
  "let d = sample_deps; key = replicate 32 7; p = payload_with_lamport 5; old = payload_with_lamport 4
   in \<exists>t. submit_account_v0 d sample_log (account_request d key p (sample_sign key p)) (fresh_store 5000000)
            = (Inr NO_CONTENT, t) \<and>
         fetch_account_v0 d (hex_encode d key) t =
           (Inr \<lparr>fac_payload = b64_encode d p, fac_signature = b64_encode d (sample_sign key p),
                  fac_updated_at = stamp_ms 5000000\<rparr>, t) \<and>
         submit_account_v0 d sample_log (account_request d key old (sample_sign key old)) (at_instant (9000000, []) t) =
           (Inl \<lparr>err_status = CONFLICT, err_message = ''stale bundle: not newer than the stored one''\<rparr>,
            at_instant (9000000, []) t)"
proof -
  let ?p = "payload_with_lamport 5"
  have lamports: "payload_lamport ?p = Some 5" "payload_lamport (payload_with_lamport 4) = Some 4" by simp_all
  have fresh: "\<not> holds_lamport (hex_encode sample_deps (replicate 32 7)) 5 (pool (fresh_store 5000000))" by simp
  from account_post_then_get [OF sample_hex_laws sample_base64_laws fresh_store_simps(3) _ _
      authentic_sign [of 7 ?p] lamports(1) fresh, of sample_log]
  obtain t where t: "submit_account_v0 sample_deps sample_log
        (account_request sample_deps (replicate 32 7) ?p (sample_sign (replicate 32 7) ?p)) (fresh_store 5000000)
        = (Inr NO_CONTENT, t)"
    "fetch_account_v0 sample_deps (hex_encode sample_deps (replicate 32 7)) t =
        (Inr \<lparr>fac_payload = b64_encode sample_deps ?p,
               fac_signature = b64_encode sample_deps (sample_sign (replicate 32 7) ?p),
               fac_updated_at = stamp_ms 5000000\<rparr>, t)"
    and later: "\<And>now p' g' l'. length g' = 64 \<Longrightarrow> authentic sample_deps (replicate 32 7) p' g' \<Longrightarrow>
        payload_lamport p' = Some l' \<Longrightarrow> l' \<le> 5 \<Longrightarrow>
        submit_account_v0 sample_deps sample_log (account_request sample_deps (replicate 32 7) p' g')
          (at_instant (now, []) t) =
          (Inl \<lparr>err_status = CONFLICT, err_message = ''stale bundle: not newer than the stored one''\<rparr>,
           at_instant (now, []) t)"
    by auto
  show ?thesis
    using t later [OF length_sample_sign authentic_sign lamports(2), of 9000000] by (auto simp: Let_def)
qed

section \<open>Account logs\<close>

text \<open>
  C17. A log that was published is the one fetched, byte for byte: publishing the first log of an
  account, a log that extends the stored one, or the stored log again gets 204, and a fetch then
  returns exactly the published bytes, as an octet stream. The log on file still verifies.
\<close>

theorem account_log_post_then_get:
  assumes "account_log_laws api" and "quiet s" and "logs_verified api s"
    and "signed_from_bytes api body = Inr slog" and "record_new api a slog = Inr c"
    and "case log_cell s (addr_to_string api a) of None \<Rightarrow> True | Some old \<Rightarrow> old = body \<or> extends old body"
  shows "\<exists>t. submit_account_v1 d api (addr_to_string api a) body s = (Inr NO_CONTENT, t) \<and>
      fetch_account_v1 d api (addr_to_string api a) t =
        (Inr ([(''content-type'', ''application/octet-stream'')], body), t) \<and> logs_verified api t"
proof -
  have crate: "account_log_crate api" using assms(1) by (rule account_log_crate.intro)
  have parse: "addr_parse api (addr_to_string api a) = Some a"
    using account_log_lawsD(1) [OF assms(1)] by (simp add: addr_laws_def)
  have body: "signed_to_bytes api slog = body"
    using artifact_lawsD(2) [OF account_log_lawsD(2) [OF assms(1)] assms(4)] .
  note verdict = account_log_crate.verdict [OF crate assms(2,3,5), unfolded body]
  obtain t where t: "apply_account_log api a slog s = (Inr (), t)" "quiet t"
    "log_cell t (addr_to_string api a) = Some body"
    using assms(2,6) verdict(1,3) verdict(2) [of "the (log_cell s (addr_to_string api a))"]
    by (cases "log_cell s (addr_to_string api a)") (auto simp: log_cell_upsert)
  moreover have "logs_verified api t"
    by (rule account_log_crate.apply_log_cell(1) [OF crate assms(3) t(1)])
  ultimately show ?thesis
    by (simp add: submit_account_v1_run fetch_account_v1_quiet parse assms(4))
qed

theorem account_log_post_then_get_witness:
  "let body = signed_to_bytes sample_log (sample_signed_log [7] [5, 6])
   in \<exists>t. submit_account_v1 sample_deps sample_log (base16_encode [7]) body (fresh_store 0) = (Inr NO_CONTENT, t) \<and>
      fetch_account_v1 sample_deps sample_log (base16_encode [7]) t =
        (Inr ([(''content-type'', ''application/octet-stream'')], body), t) \<and> logs_verified sample_log t"
  unfolding Let_def sample_log_simps(2) [symmetric]
  by (rule account_log_post_then_get [OF sample_account_log_laws _ _
      artifact_lawsD(1) [OF account_log_lawsD(2) [OF sample_account_log_laws]] sample_log_simps(1)]) simp_all

text \<open>
  C25. What is refused on the log endpoint, and how: a path that is no address, bytes that are no
  signed log, a log that does not verify under the address or breaks a rule of the log format get
  400 with the reason; a log the stored one already extends, or one that rewrites it, gets 409. In
  every case the store is as it was.
\<close>

theorem account_log_refusals:
  assumes "account_log_laws api" and "quiet s" and "logs_verified api s"
  shows "let refused = (\<lambda>c msg. (Inl \<lparr>err_status = c, err_message = msg\<rparr>, s)) in
     (addr_parse api path = None \<longrightarrow>
        submit_account_v1 d api path body s = refused BAD_REQUEST ''account_addr: not a valid account address'') \<and>
     (\<forall>a. addr_parse api path = Some a \<longrightarrow>
        (\<forall>e. signed_from_bytes api body = Inl e \<longrightarrow>
           submit_account_v1 d api path body s = refused BAD_REQUEST (display_log_error api e)) \<and>
        (\<forall>slog. signed_from_bytes api body = Inr slog \<longrightarrow>
           (\<forall>e. record_new api a slog = Inl e \<longrightarrow>
              submit_account_v1 d api path body s = refused BAD_REQUEST
                (if e = SignatureInvalid then ''signature: verification failed'' else display_log_error api e)) \<and>
           (\<forall>c old. record_new api a slog = Inr c \<and> log_cell s (addr_to_string api a) = Some old \<longrightarrow>
              (extends body old \<longrightarrow> submit_account_v1 d api path body s =
                 refused CONFLICT ''stale bundle: not newer than the stored one'') \<and>
              (\<not> prefix (drop 64 old) (drop 64 body) \<and> \<not> prefix (drop 64 body) (drop 64 old) \<longrightarrow>
                 submit_account_v1 d api path body s =
                 refused CONFLICT ''forked log: does not extend the stored one''))))"
proof -
  have crate: "account_log_crate api" using assms(1) by (rule account_log_crate.intro)
  note bytes = artifact_lawsD(2) [OF account_log_lawsD(2) [OF assms(1)]]
  have rejected: "answer (api_error_from d api) NO_CONTENT (apply_account_log api a slog s) =
      (Inl \<lparr>err_status = BAD_REQUEST,
             err_message = (if e = SignatureInvalid then ''signature: verification failed''
                            else display_log_error api e)\<rparr>, s)"
    if "record_new api a slog = Inl e" for a slog e
    using that assms(2)
    by (simp add: apply_account_log_quiet log_rejection_def api_error_from_def
        display_bundle_error_def split: account_log_error.split)
  show ?thesis
    using account_log_crate.verdict(4,5) [OF crate assms(2,3)]
    by (auto simp: Let_def rejected submit_account_v1_run api_error_from_def display_bundle_error_def dest: bytes)
qed

theorem account_log_refusals_witness:
  "let log = (\<lambda>entries. signed_to_bytes sample_log (sample_signed_log [7] entries));
       t = snd (submit_account_v1 sample_deps sample_log (base16_encode [7]) (log [5, 6]) (fresh_store 0))
   in submit_account_v1 sample_deps sample_log (base16_encode [7]) (log [5]) t =
        (Inl \<lparr>err_status = CONFLICT, err_message = ''stale bundle: not newer than the stored one''\<rparr>, t) \<and>
      submit_account_v1 sample_deps sample_log ''zz'' (log [5]) t =
        (Inl \<lparr>err_status = BAD_REQUEST, err_message = ''account_addr: not a valid account address''\<rparr>, t)"
proof -
  let ?log = "\<lambda>entries. signed_to_bytes sample_log (sample_signed_log [7] entries)"
  have parse: "addr_parse sample_log (base16_encode [7]) = Some [7]"
    using account_log_lawsD(1) [OF sample_account_log_laws] unfolding addr_laws_def sample_log_simps(2) by blast
  have no_addr: "addr_parse sample_log ''zz'' = None" by (simp add: sample_log_def hex_value_def)
  have dec: "signed_from_bytes sample_log (?log entries) = Inr (sample_signed_log [7] entries)" for entries
    by (rule artifact_lawsD(1) [OF account_log_lawsD(2) [OF sample_account_log_laws]])
  let ?t = "(fresh_store 0)\<lparr>pool := sql_upsert_log (base16_encode [7]) (stamp_ms 0) (?log [5, 6]) empty_tables\<rparr>"
  have first: "apply_account_log sample_log [7] (sample_signed_log [7] [5, 6]) (fresh_store 0) = (Inr (), ?t)"
    using sample_logs.verdict(1) [where s = "fresh_store 0", OF _ _ sample_log_simps(1)]
    by (simp del: base16_encode.simps)
  then have t: "submit_account_v1 sample_deps sample_log (base16_encode [7]) (?log [5, 6]) (fresh_store 0)
      = (Inr NO_CONTENT, ?t)"
    by (simp add: submit_account_v1_run parse dec del: base16_encode.simps)
  have inv: "quiet ?t" "logs_verified sample_log ?t" and cell: "log_cell ?t (base16_encode [7]) = Some (?log [5, 6])"
    using sample_logs.apply_log_cell(1) [OF fresh_logs(1) first]
    by (simp_all add: log_cell_def del: base16_encode.simps)
  have "extends (?log [5]) (?log [5, 6])" by (simp add: extends_def strict_prefix_def)
  then show ?thesis
    using account_log_refusals [OF sample_account_log_laws inv, where d = sample_deps and body = "?log [5]"
        and path = "base16_encode [7]"]
      account_log_refusals [OF sample_account_log_laws inv, where d = sample_deps and body = "?log [5]"
        and path = "''zz''"] t cell
    by (simp add: Let_def parse no_addr dec del: base16_encode.simps split_paired_All split_paired_Ex)
qed

section \<open>Errors and identifiers\<close>

text \<open>
  C26. Whatever goes wrong inside, database failures at any point included, a client learns nothing of
  the cause: each handler's error is either one of the statuses 400, 404 and 409, or 500 with the
  fixed message.
\<close>

theorem internal_errors_are_opaque:
  assumes "fst (submit_key_package d api kreq s) = Inl e \<or> fst (submit_account_v0 d api areq s) = Inl e \<or>
      fst (submit_account_v1 d api path body s) = Inl e \<or> fst (fetch_key_package d ident s) = Inl e \<or>
      fst (fetch_account_v0 d ident s) = Inl e \<or> fst (fetch_account_v1 d api path s) = Inl e"
  shows "e = \<lparr>err_status = INTERNAL_SERVER_ERROR, err_message = ''internal error''\<rparr> \<or>
      err_status e \<in> {BAD_REQUEST, NOT_FOUND, CONFLICT}"
proof -
  let ?P = "\<lambda>e. e = \<lparr>err_status = INTERNAL_SERVER_ERROR, err_message = ''internal error''\<rparr> \<or>
      err_status e \<in> {BAD_REQUEST, NOT_FOUND, CONFLICT}"
  have from_P: "?P (api_error_from d api b)" for b
    by (simp add: api_error_from_def internal_def split: bundle_error.split)
  have answer_P: "?P e" if "fst (answer (api_error_from d api) y res) = Inl e"
    for res :: "(bundle_error + unit) \<times> store" and y :: status_code and e
    using that from_P by (auto simp: answer_def split: prod.splits sum.splits)
  have fetch_P: "?P e" if "fst (try_await (map_err internal m) k s) = Inl e"
      "\<And>x t e. fst (k x t) = Inl e \<Longrightarrow> ?P e" for m :: "(store, anyhow, 'z) eff" and k and e and s
    using that by (auto simp: try_await_def map_err_def internal_def split: prod.splits sum.splits)
  show ?thesis using assms
  proof (elim disjE)
    assume "fst (submit_key_package d api kreq s) = Inl e"
    then show ?thesis using from_P answer_P by (auto simp: submit_key_package_run split: sum.splits)
  next
    assume "fst (submit_account_v0 d api areq s) = Inl e"
    then show ?thesis using from_P answer_P by (auto simp: submit_account_v0_run split: sum.splits)
  next
    assume "fst (submit_account_v1 d api path body s) = Inl e"
    then show ?thesis using from_P answer_P by (auto simp: submit_account_v1_run split: sum.splits option.splits)
  next
    assume "fst (fetch_key_package d ident s) = Inl e"
    then show ?thesis unfolding fetch_key_package_def
      by (rule fetch_P) (auto simp: not_found_def eff_simps split: option.splits)
  next
    assume "fst (fetch_account_v0 d ident s) = Inl e"
    then show ?thesis unfolding fetch_account_v0_def
      by (rule fetch_P) (auto simp: not_found_def eff_simps split: option.splits)
  next
    assume "fst (fetch_account_v1 d api path s) = Inl e"
    then show ?thesis using from_P unfolding fetch_account_v1_def try_await_lift
      by (auto split: sum.splits dest!: fetch_P simp: not_found_def eff_simps split: option.splits)
  qed
qed

theorem internal_errors_are_opaque_witness:
  "let s = (fresh_store 0)\<lparr>faults := [Some (DriverError ''disk I/O error'')]\<rparr>;
       e = \<lparr>err_status = INTERNAL_SERVER_ERROR, err_message = ''internal error''\<rparr>
   in fst (fetch_key_package sample_deps ''00'' s) = Inl e \<and>
      (e = \<lparr>err_status = INTERNAL_SERVER_ERROR, err_message = ''internal error''\<rparr> \<or>
       err_status e \<in> {BAD_REQUEST, NOT_FOUND, CONFLICT})"
proof -
  let ?s = "(fresh_store 0)\<lparr>faults := [Some (DriverError ''disk I/O error'')]\<rparr>"
  let ?e = "\<lparr>err_status = INTERNAL_SERVER_ERROR, err_message = ''internal error''\<rparr>"
  have run: "fst (fetch_key_package sample_deps ''00'' ?s) = Inl ?e"
    by (simp add: fetch_key_package_def latest_def fetch_pool_def db_call_def try_await_def map_err_def internal_def)
  then show ?thesis
    using internal_errors_are_opaque [where d = sample_deps and api = sample_log and ident = "''00''" and s = ?s and e = ?e]
    by (simp add: Let_def)
qed

section \<open>Keys in upper case\<close>

text \<open>A submission may write its key in upper case, since hex decoding accepts it: it decodes to the same bundle.\<close>

lemma uppercase_decodes:
  assumes "hex_laws d"
  shows "decode_bundle d (map upper_char (hex_encode d key)) p g = decode_bundle d (hex_encode d key) p g"
  by (simp add: decode_bundle_def hex_lawsD [OF assms])

lemma uppercase_submissions:
  assumes "hex_laws d"
  shows "kpr_device_id body = hex_encode d key \<Longrightarrow>
      submit_key_package d api (body\<lparr>kpr_device_id := map upper_char (hex_encode d key)\<rparr>) = submit_key_package d api body"
    and "acr_account_pub abody = hex_encode d key \<Longrightarrow>
      submit_account_v0 d api (abody\<lparr>acr_account_pub := map upper_char (hex_encode d key)\<rparr>) = submit_account_v0 d api abody"
  by (rule ext, simp add: submit_key_package_run submit_account_v0_run decode_key_package_def decode_account_def
      uppercase_decodes [OF assms])+

text \<open>A fetch looks the string up as it stands, and no row is stored under the upper-case spelling.\<close>

lemma uppercase_not_canonical:
  assumes "hex_laws d" and "map upper_char (hex_encode d key) \<noteq> hex_encode d key"
  shows "map upper_char (hex_encode d key) \<noteq> hex_encode d k"
  using hex_lawsD [OF assms(1)] assms(2) by (metis option.inject)

lemma uppercase_not_found:
  assumes "quiet s" and "\<forall>r \<in> set (keypackages (pool s)). kp_device_id r \<noteq> up" and "\<forall>r \<in> set (account_bundles (pool s)). ab_account_pub r \<noteq> up"
  shows "fetch_key_package d up s = (Inl (not_found ''no keypackage for device''), s)"
    and "fetch_account_v0 d up s = (Inl (not_found ''no account bundle for account_pub''), s)"
proof -
  have "sql_latest_keypackage up (pool s) = None" and "sql_select_account up (pool s) = None"
    using assms(2,3) by (simp_all add: latest_keypackage_None sql_select_account_def find_None_iff)
  then show "fetch_key_package d up s = (Inl (not_found ''no keypackage for device''), s)"
    and "fetch_account_v0 d up s = (Inl (not_found ''no account bundle for account_pub''), s)"
    using assms(1) by (simp_all add: fetch_key_package_quiet fetch_account_v0_quiet)
qed

end
