(* ===== verification/Delivery.thy ===== *)
theory Delivery
  imports Endpoints
begin

text \<open>
  The logos-delivery write path of \<open>src/delivery.rs\<close>: the closure that picks bundles off the
  network, the start of the node, and the thread that ingests what was picked. The node and the
  protobuf decoders are parameters. The lemmas show that this path and the HTTP one do the same to
  the store, and that a rejected message affects nothing but the log.
\<close>

section \<open>Topics and events\<close>

definition KEYPACKAGE_SUBMIT_TOPIC :: string where
  "KEYPACKAGE_SUBMIT_TOPIC = ''/logos-chat/1/store-keypackage-v0/proto''"

definition ACCOUNT_SUBMIT_TOPIC :: string where
  "ACCOUNT_SUBMIT_TOPIC = ''/logos-chat/1/store-account-v0/proto''"

datatype received = KeyPackage bytes | Account bytes

text \<open>
  The node library: an event may carry a received message, a message has a content topic and may
  have a payload; starting the node, subscribing and spawning a thread may fail.
\<close>

record p2p_config =
  p2p_preset :: string
  p2p_port_number :: "16 word"
  p2p_log_level :: string

record ('ev, 'msg) node_api =
  into_received :: "'ev \<Rightarrow> 'msg option"
  content_topic :: "'msg \<Rightarrow> string"
  into_payload :: "'msg \<Rightarrow> bytes option"
  node_start :: "p2p_config \<Rightarrow> anyhow + unit"
  node_subscribe :: "string \<Rightarrow> anyhow + unit"
  spawn_ingest :: "anyhow + unit"

definition wrap_event :: "('ev, 'msg) node_api \<Rightarrow> 'ev \<Rightarrow> received option" where
  "wrap_event nd event =
     Option.bind (into_received nd event) (\<lambda>msg.
     if content_topic nd msg = KEYPACKAGE_SUBMIT_TOPIC then map_option KeyPackage (into_payload nd msg)
     else if content_topic nd msg = ACCOUNT_SUBMIT_TOPIC then map_option Account (into_payload nd msg)
     else None)"

text \<open>What \<open>start\<close> has done to the node, kept as a state so that its early returns show.\<close>

record node_state =
  running :: bool
  subscriptions :: "string list"
  ingesting :: bool

definition with_context :: "string \<Rightarrow> (node_state, anyhow, unit) eff \<Rightarrow> (node_state, anyhow, unit) eff" where
  "with_context msg m = map_err (AnyContext msg) m"

definition node_call :: "anyhow + unit \<Rightarrow> (node_state \<Rightarrow> node_state) \<Rightarrow> (node_state, anyhow, unit) eff" where
  "node_call r f = (\<lambda>n. case r of Inl e \<Rightarrow> (Inl e, n) | Inr _ \<Rightarrow> (Inr (), f n))"

definition delivery_start :: "('ev, 'msg) node_api \<Rightarrow> p2p_config \<Rightarrow> (node_state, anyhow, unit) eff" where
  "delivery_start nd cfg =
     try_await (with_context ''start embedded logos-delivery node''
       (node_call (node_start nd cfg) (\<lambda>n. n\<lparr>running := True\<rparr>))) (\<lambda>_.
     try_await (with_context ''subscribe keypackage bundles''
       (node_call (node_subscribe nd KEYPACKAGE_SUBMIT_TOPIC)
         (\<lambda>n. n\<lparr>subscriptions := subscriptions n @ [KEYPACKAGE_SUBMIT_TOPIC]\<rparr>))) (\<lambda>_.
     try_await (with_context ''subscribe account bundles''
       (node_call (node_subscribe nd ACCOUNT_SUBMIT_TOPIC)
         (\<lambda>n. n\<lparr>subscriptions := subscriptions n @ [ACCOUNT_SUBMIT_TOPIC]\<rparr>))) (\<lambda>_.
     with_context ''spawn delivery-ingest thread''
       (node_call (spawn_ingest nd) (\<lambda>n. n\<lparr>ingesting := True\<rparr>)))))"

section \<open>Ingestion\<close>

record key_package_submission =
  kps_device_id :: bytes
  kps_payload :: bytes
  kps_signature :: bytes

record account_submission =
  acs_account_pub :: bytes
  acs_payload :: bytes
  acs_signature :: bytes

text \<open>The protobuf decoders; an error is given by its text.\<close>

record proto =
  decode_kps :: "bytes \<Rightarrow> string + key_package_submission"
  decode_acs :: "bytes \<Rightarrow> string + account_submission"

text \<open>A line of the log: its structured fields and its message.\<close>

datatype log_line = Warn "(string \<times> string) list" string | Debug "(string \<times> string) list" string

definition ingest_keypackage ::
  "proto \<Rightarrow> deps \<Rightarrow> ('a, 's, 'r) account_log_api \<Rightarrow> bytes \<Rightarrow> store \<Rightarrow> log_line \<times> store" where
  "ingest_keypackage pb d api bytes s =
     (case decode_kps pb bytes of
        Inl e \<Rightarrow> (Warn [] (''keypackage bundle: invalid protobuf: '' @ e), s)
      | Inr wire \<Rightarrow>
     (case from_bytes (kps_device_id wire) (kps_payload wire) (kps_signature wire) of
        Inl e \<Rightarrow> (Warn [] (''keypackage bundle rejected: '' @ display_bundle_error d api e), s)
      | Inr b \<Rightarrow>
          let device_id = key_hex d b in
          (case apply_keypackage d b s of
             (Inr _, t) \<Rightarrow> (Debug [(''device_id'', device_id)] ''stored keypackage from delivery'', t)
           | (Inl e, t) \<Rightarrow> (Warn [(''device_id'', device_id)]
                              (''keypackage bundle rejected: '' @ display_bundle_error d api e), t))))"

definition ingest_account ::
  "proto \<Rightarrow> deps \<Rightarrow> ('a, 's, 'r) account_log_api \<Rightarrow> bytes \<Rightarrow> store \<Rightarrow> log_line \<times> store" where
  "ingest_account pb d api bytes s =
     (case decode_acs pb bytes of
        Inl e \<Rightarrow> (Warn [] (''account bundle: invalid protobuf: '' @ e), s)
      | Inr wire \<Rightarrow>
     (case from_bytes (acs_account_pub wire) (acs_payload wire) (acs_signature wire) of
        Inl e \<Rightarrow> (Warn [] (''account bundle rejected: '' @ display_bundle_error d api e), s)
      | Inr b \<Rightarrow>
          let account_pub = key_hex d b in
          (case apply_account d b s of
             (Inr _, t) \<Rightarrow> (Debug [(''account_pub'', account_pub)] ''stored account bundle from delivery'', t)
           | (Inl e, t) \<Rightarrow> (Warn [(''account_pub'', account_pub)]
                              (''account bundle rejected: '' @ display_bundle_error d api e), t))))"

definition ingest ::
  "proto \<Rightarrow> deps \<Rightarrow> ('a, 's, 'r) account_log_api \<Rightarrow> received \<Rightarrow> store \<Rightarrow> log_line \<times> store" where
  "ingest pb d api received s =
     (case received of
        KeyPackage bytes \<Rightarrow> ingest_keypackage pb d api bytes s
      | Account bytes \<Rightarrow> ingest_account pb d api bytes s)"

text \<open>
  The loop of the ingest thread, over the messages the queue yields until it is closed, each taken
  at an instant of its own.
\<close>

fun ingest_loop ::
  "proto \<Rightarrow> deps \<Rightarrow> ('a, 's, 'r) account_log_api \<Rightarrow>
   ((system_time \<times> sqlx_error option list) \<times> received) list \<Rightarrow> store \<Rightarrow> log_line list \<times> store" where
  "ingest_loop pb d api [] s = ([], s)"
| "ingest_loop pb d api ((x, received) # queue) s =
     (let (line, t) = ingest pb d api received (at_instant x s);
          (lines, u) = ingest_loop pb d api queue t
      in (line # lines, u))"

section \<open>Lemmas\<close>

fun is_debug :: "log_line \<Rightarrow> bool" where
  "is_debug (Debug _ _) = True"
| "is_debug (Warn _ _) = False"

lemma wrap_event_Some_iff:
  "wrap_event nd ev = Some r \<longleftrightarrow>
     (\<exists>msg b. into_received nd ev = Some msg \<and> into_payload nd msg = Some b \<and>
        (content_topic nd msg = KEYPACKAGE_SUBMIT_TOPIC \<and> r = KeyPackage b \<or>
         content_topic nd msg = ACCOUNT_SUBMIT_TOPIC \<and> r = Account b))"
  by (auto simp: wrap_event_def KEYPACKAGE_SUBMIT_TOPIC_def ACCOUNT_SUBMIT_TOPIC_def split: bind_splits)

lemma ingest_refused_pool: "\<not> is_debug (fst (ingest pb d api m s)) \<Longrightarrow> pool (snd (ingest pb d api m s)) = pool s"
  by (auto simp: ingest_def ingest_keypackage_def ingest_account_def Let_def dest: apply_refused_pool
      split: received.splits sum.splits prod.splits)

lemma at_instant_pool: "pool s = pool t \<Longrightarrow> at_instant x s = at_instant x t"
  by (cases s; cases t) (simp add: at_instant_def)

lemma ingest_loop_append:
  "ingest_loop pb d api (q @ q') s =
     (fst (ingest_loop pb d api q s) @ fst (ingest_loop pb d api q' (snd (ingest_loop pb d api q s))),
      snd (ingest_loop pb d api q' (snd (ingest_loop pb d api q s))))"
  by (induction q arbitrary: s) (auto simp: Let_def split: prod.splits)

lemma ingest_loop_pool:
  assumes "pool s = pool t"
  shows "fst (ingest_loop pb d api q s) = fst (ingest_loop pb d api q t)"
    and "pool (snd (ingest_loop pb d api q s)) = pool (snd (ingest_loop pb d api q t))"
  using assms by (cases q; auto simp: Let_def at_instant_pool [OF assms] split: prod.splits)+

lemma decode_bundle_wire:
  assumes "hex_laws d" and "base64_laws d"
  shows "decode_bundle d (hex_encode d key) (b64_encode d p) (b64_encode d g) = from_bytes key p g"
  using assms by (simp add: decode_bundle_def hex_lawsD base64_lawsD)

text \<open>For the closed examples: messages that concatenate the key, the signature and the payload.\<close>

definition sample_proto :: proto where
  "sample_proto =
     \<lparr>decode_kps = (\<lambda>b. if length b < 96 then Inl ''buffer underflow''
        else Inr \<lparr>kps_device_id = take 32 b, kps_payload = drop 96 b, kps_signature = take 64 (drop 32 b)\<rparr>),
      decode_acs = (\<lambda>b. if length b < 96 then Inl ''buffer underflow''
        else Inr \<lparr>acs_account_pub = take 32 b, acs_payload = drop 96 b, acs_signature = take 64 (drop 32 b)\<rparr>)\<rparr>"

definition sample_wire :: "u8 \<Rightarrow> bytes \<Rightarrow> bytes" where
  "sample_wire seed p = replicate 32 seed @ sample_sign (replicate 32 seed) p @ p"

lemma sample_proto_wire:
  "decode_kps sample_proto (sample_wire seed p) =
     Inr \<lparr>kps_device_id = replicate 32 seed, kps_payload = p, kps_signature = sample_sign (replicate 32 seed) p\<rparr>"
  "decode_acs sample_proto (sample_wire seed p) =
     Inr \<lparr>acs_account_pub = replicate 32 seed, acs_payload = p, acs_signature = sample_sign (replicate 32 seed) p\<rparr>"
  by (simp_all add: sample_proto_def sample_wire_def)

section \<open>Properties\<close>

text \<open>
  The two write paths of keypackages are one pipeline: a protobuf submission taken off the network
  leaves the store exactly as an HTTP post of the same bytes at the same moment would, failures of
  the database included, and is logged as stored exactly when the post would be answered 204.
\<close>

lemma keypackage_paths_agree:
  assumes "hex_laws d" and "base64_laws d"
    and "decode_kps pb wire = Inr \<lparr>kps_device_id = key, kps_payload = p, kps_signature = g\<rparr>"
  shows "let (line, t) = ingest_keypackage pb d api wire s;
             (answer, u) = submit_key_package d api (key_package_request d key p g) s
         in t = u \<and> (is_debug line \<longleftrightarrow> answer = Inr NO_CONTENT)"
  using assms decode_bundle_wire [OF assms(1,2), of key p g]
  by (auto simp: ingest_keypackage_def submit_key_package_run decode_key_package_def key_package_request_def
      Let_def answer_def split: prod.splits sum.splits)

text \<open>
  The same of account bundles.
\<close>

lemma account_paths_agree:
  assumes "hex_laws d" and "base64_laws d"
    and "decode_acs pb wire = Inr \<lparr>acs_account_pub = key, acs_payload = p, acs_signature = g\<rparr>"
  shows "let (line, t) = ingest_account pb d api wire s;
             (answer, u) = submit_account_v0 d api (account_request d key p g) s
         in t = u \<and> (is_debug line \<longleftrightarrow> answer = Inr NO_CONTENT)"
  using assms decode_bundle_wire [OF assms(1,2), of key p g]
  by (auto simp: ingest_account_def submit_account_v0_run decode_account_def account_request_def
      Let_def answer_def split: prod.splits sum.splits)

text \<open>
  C18. The two write paths are one pipeline: a protobuf submission taken off the network, of a keypackage or of an account
  bundle, leaves the store exactly as the HTTP post of the same bytes at the same moment would, failures of the database
  included, and is logged as stored exactly when the post would be answered 204.
\<close>

theorem write_paths_agree:
  assumes "hex_laws d" and "base64_laws d"
  shows "(decode_kps pb wire = Inr \<lparr>kps_device_id = key, kps_payload = p, kps_signature = g\<rparr> \<longrightarrow>
       (let (line, t) = ingest_keypackage pb d api wire s;
            (answer, u) = submit_key_package d api (key_package_request d key p g) s
        in t = u \<and> (is_debug line \<longleftrightarrow> answer = Inr NO_CONTENT))) \<and>
     (decode_acs pb wire = Inr \<lparr>acs_account_pub = key, acs_payload = p, acs_signature = g\<rparr> \<longrightarrow>
       (let (line, t) = ingest_account pb d api wire s;
            (answer, u) = submit_account_v0 d api (account_request d key p g) s
        in t = u \<and> (is_debug line \<longleftrightarrow> answer = Inr NO_CONTENT)))"
  using keypackage_paths_agree [OF assms] account_paths_agree [OF assms] by blast

theorem write_paths_agree_witness:
  "(let (line, t) = ingest_keypackage sample_proto sample_deps sample_log (sample_wire 7 [1, 2]) (fresh_store 0);
        (answer, u) = submit_key_package sample_deps sample_log
          (key_package_request sample_deps (replicate 32 7) [1, 2] (sample_sign (replicate 32 7) [1, 2])) (fresh_store 0)
    in t = u \<and> (is_debug line \<longleftrightarrow> answer = Inr NO_CONTENT)) \<and>
   (let (line, t) = ingest_account sample_proto sample_deps sample_log (sample_wire 7 (payload_with_lamport 5)) (fresh_store 0);
        (answer, u) = submit_account_v0 sample_deps sample_log (account_request sample_deps (replicate 32 7)
          (payload_with_lamport 5) (sample_sign (replicate 32 7) (payload_with_lamport 5))) (fresh_store 0)
    in t = u \<and> (is_debug line \<longleftrightarrow> answer = Inr NO_CONTENT))"
  by (intro conjI write_paths_agree [OF sample_hex_laws sample_base64_laws, THEN conjunct1, rule_format, OF sample_proto_wire(1)]
      write_paths_agree [OF sample_hex_laws sample_base64_laws, THEN conjunct2, rule_format, OF sample_proto_wire(2)])

text \<open>
  C21. A message that is rejected, for whatever reason, changes nothing but the log: the thread goes
  on, and every other message of the queue, before and after it, has the effect and the log line it
  would have had without it.
\<close>

theorem rejected_message_is_harmless:
  assumes "\<not> is_debug (fst (ingest pb d api m (at_instant x (snd (ingest_loop pb d api before s)))))"
  shows "\<exists>line. fst (ingest_loop pb d api (before @ (x, m) # after) s) =
            fst (ingest_loop pb d api before s) @ line #
            fst (ingest_loop pb d api after (snd (ingest_loop pb d api before s))) \<and>
          fst (ingest_loop pb d api (before @ after) s) =
            fst (ingest_loop pb d api before s) @
            fst (ingest_loop pb d api after (snd (ingest_loop pb d api before s))) \<and>
          pool (snd (ingest_loop pb d api (before @ (x, m) # after) s)) =
            pool (snd (ingest_loop pb d api (before @ after) s))"
proof -
  let ?u = "snd (ingest_loop pb d api before s)"
  obtain line t where run: "ingest pb d api m (at_instant x ?u) = (line, t)" by (meson surj_pair)
  have "pool t = pool ?u" using ingest_refused_pool [OF assms] run by simp
  then show ?thesis
    using run ingest_loop_pool [of t ?u pb d api after]
    by (auto simp: ingest_loop_append Let_def split: prod.splits)
qed

theorem rejected_message_is_harmless_witness:
  "let run = ingest_loop sample_proto sample_deps sample_log;
       good = ((1000000, []), Account (sample_wire 7 (payload_with_lamport 5)));
       junk = ((2000000, []), Account [1, 2, 3]);
       late = ((3000000, []), Account (sample_wire 7 (payload_with_lamport 6)))
   in \<not> is_debug (fst (ingest sample_proto sample_deps sample_log (snd junk)
            (at_instant (fst junk) (snd (run [good] (fresh_store 0)))))) \<and>
      pool (snd (run ([good] @ junk # [late]) (fresh_store 0))) = pool (snd (run ([good] @ [late]) (fresh_store 0)))"
proof -
  have junk: "\<not> is_debug (fst (ingest sample_proto sample_deps sample_log (Account [1, 2, 3]) s))" for s
    by (simp add: ingest_def ingest_account_def sample_proto_def)
  then show ?thesis
    using rejected_message_is_harmless [OF junk, where x = "(2000000, [])" and s = "fresh_store 0"
        and before = "[((1000000, []), Account (sample_wire 7 (payload_with_lamport 5)))]"
        and after = "[((3000000, []), Account (sample_wire 7 (payload_with_lamport 6)))]"]
    unfolding Let_def fst_conv snd_conv by blast
qed

end
