(* ===== verification/Retention.thy ===== *)
theory Retention
  imports Store
begin

text \<open>
  What the two prune operations of \<open>src/store.rs\<close> delete, and what they leave: the exact rows
  kept, the bound per device, the survival of each device's latest keypackage, and the range of
  the parameters for which the casts of the code give the intended cutoff and bound.
\<close>

section \<open>The rows a keypackage prune keeps\<close>

lemma newer_count_delete_old:
  assumes "\<not> kp_received_at r < c"
  shows "newer_count (filter (\<lambda>r. \<not> kp_received_at r < c) rows) r = newer_count rows r"
proof -
  have "filter (\<lambda>r'. kp_device_id r' = kp_device_id r \<and> kp_received_at r < kp_received_at r')
      (filter (\<lambda>r. \<not> kp_received_at r < c) rows)
    = filter (\<lambda>r'. kp_device_id r' = kp_device_id r \<and> kp_received_at r < kp_received_at r') rows"
    using assms by (auto intro: filter_cong)
  then show ?thesis by (simp add: newer_count_def)
qed

lemma prune_statements_keep:
  assumes "tables_wf db"
  shows "sql_delete_excess_keypackages m (sql_delete_old_keypackages c db) =
     db\<lparr>keypackages := filter (\<lambda>r. c \<le> kp_received_at r \<and> int (newer_count (keypackages db) r) < m)
          (keypackages db)\<rparr>"
proof -
  let ?old = "sql_delete_old_keypackages c db"
  have "keypackages_pk ?old"
    using delete_old_keypackages_wf [OF assms, of c] by (simp add: tables_wf_def)
  from delete_excess_keeps_newest [OF this, of m]
  have "keypackages (sql_delete_excess_keypackages m ?old) =
      filter (\<lambda>r. c \<le> kp_received_at r \<and> int (newer_count (keypackages db) r) < m) (keypackages db)"
    by (auto simp: sql_delete_old_keypackages_def newer_count_delete_old intro!: filter_cong)
  then show ?thesis
    by (simp add: sql_delete_excess_keypackages_def sql_delete_old_keypackages_def Let_def)
qed

text \<open>Rows of a device with fewer than \<open>n\<close> newer ones number at most \<open>n\<close>.\<close>

lemma count_below_rank:
  fixes f :: "'r \<Rightarrow> int"
  assumes "distinct (map f xs)"
  shows "length (filter (\<lambda>x. length (filter (\<lambda>y. f x < f y) xs) < n) xs) \<le> n"
proof -
  let ?s = "order_by_desc f xs"
  have strict: "sorted_wrt (\<lambda>a b. f b < f a) ?s" by (rule order_by_desc_strict [OF assms])
  have rank: "length (filter (\<lambda>y. f (?s ! i) < f y) xs) = i" if "i < length ?s" for i
    using count_above_index [OF strict that] by simp
  have "length (filter (\<lambda>x. length (filter (\<lambda>y. f x < f y) xs) < n) xs) =
      length (filter (\<lambda>x. length (filter (\<lambda>y. f x < f y) xs) < n) ?s)" by simp
  also have "\<dots> = card {i. i < length ?s \<and> length (filter (\<lambda>y. f (?s ! i) < f y) xs) < n}"
    by (rule length_filter_conv_card)
  also have "\<dots> \<le> card {..<n}" by (rule card_mono) (auto simp: rank)
  finally show ?thesis by simp
qed

lemma newer_count_part:
  "kp_device_id r = d \<Longrightarrow> newer_count rows r =
     length (filter (\<lambda>y. kp_received_at r < kp_received_at y) (filter (\<lambda>r. kp_device_id r = d) rows))"
  by (simp add: newer_count_def conj_commute)

lemma device_rows_bounded:
  assumes "keypackages_pk db"
  shows "length (filter (\<lambda>r. kp_device_id r = d)
     (filter (\<lambda>r. newer_count (keypackages db) r < n) (keypackages db))) \<le> n"
proof -
  let ?part = "filter (\<lambda>r. kp_device_id r = d) (keypackages db)"
  have "filter (\<lambda>r. kp_device_id r = d) (filter (\<lambda>r. newer_count (keypackages db) r < n) (keypackages db))
      = filter (\<lambda>x. length (filter (\<lambda>y. kp_received_at x < kp_received_at y) ?part) < n) ?part"
    by (auto simp: newer_count_part intro: filter_cong)
  then show ?thesis
    using count_below_rank [OF distinct_part, of "keypackages db" d n] assms
    by (simp add: keypackages_pk_def)
qed

lemma excess_bounded:
  assumes "keypackages_pk db" and "unat m < 2 ^ 63"
  shows "length (filter (\<lambda>r. kp_device_id r = d) (keypackages (sql_delete_excess_keypackages (as_i64 m) db)))
     \<le> unat m"
  unfolding delete_excess_keeps_newest [OF assms(1)] less_as_i64 [OF assms(2)]
  by (rule device_rows_bounded [OF assms(1)])

section \<open>Properties\<close>

text \<open>
  For the closed examples: two devices with three keypackages and one account, 100 ms after the
  epoch, and a retention window of 85 ms.
\<close>

definition pruned_example :: store where
  "pruned_example =
     \<lparr>pool = \<lparr>keypackages =
          [\<lparr>kp_rowid = 1, kp_device_id = ''a'', kp_received_at = 10, kp_payload = [1], kp_signature = []\<rparr>,
           \<lparr>kp_rowid = 2, kp_device_id = ''a'', kp_received_at = 20, kp_payload = [2], kp_signature = []\<rparr>,
           \<lparr>kp_rowid = 3, kp_device_id = ''b'', kp_received_at = 12, kp_payload = [3], kp_signature = []\<rparr>],
        account_bundles = [\<lparr>ab_account_pub = ''c'', ab_updated_at = 14, ab_payload = [], ab_signature = []\<rparr>],
        account_logs = []\<rparr>,
      clock = 100000000, faults = []\<rparr>"

definition example_window :: duration where
  "example_window = Duration 0 85000000"

lemma pruned_example_ok: "quiet pruned_example" "store_wf pruned_example"
  by (simp_all add: pruned_example_def quiet_def store_wf_def tables_wf_defs)

lemma pruned_example_select:
  "sql_select_account ''c'' (pool pruned_example) =
     Some \<lparr>ab_account_pub = ''c'', ab_updated_at = 14, ab_payload = [], ab_signature = []\<rparr>"
  by (simp add: pruned_example_def sql_select_account_def)

lemma example_window_ms [simp]: "as_millis example_window = 85"
  by (simp add: example_window_def as_millis_def)

text \<open>
  C13. A keypackage prune that meets no database failure keeps exactly the rows received at or
  after the cutoff that have fewer than \<open>max_per_identity\<close> newer rows of the same device, in
  their order, and touches no other table.
\<close>

theorem prune_key_packages_keeps_exactly:
  assumes "quiet s" and "store_wf s"
  shows "prune_key_packages m retention s =
     (Inr (), s\<lparr>pool := (pool s)\<lparr>keypackages :=
        filter (\<lambda>r. cutoff_ms (clock s) retention \<le> kp_received_at r \<and>
                    int (newer_count (keypackages (pool s)) r) < as_i64 m) (keypackages (pool s))\<rparr>\<rparr>)"
  using assms by (simp add: prune_key_packages_quiet prune_statements_keep store_wf_def)

theorem prune_key_packages_keeps_exactly_witness:
  "quiet pruned_example \<and> store_wf pruned_example \<and>
   map kp_payload (keypackages (pool (snd (prune_key_packages 1 example_window pruned_example)))) = [[2]]"
proof -
  have "cutoff_ms 100000000 example_window = 15"
    by (subst cutoff_ms_sane) (simp_all add: clock_sane_def)
  then show ?thesis
    using prune_key_packages_keeps_exactly [OF pruned_example_ok, of 1 example_window] pruned_example_ok
    by (simp add: pruned_example_def newer_count_def as_i64_def)
qed

text \<open>
  For a value of \<open>max_per_identity\<close> of \<open>2 ^ 63\<close> or more, such as \<open>usize::MAX\<close> to mean
  no bound, the cast to \<open>i64\<close> is negative and the prune deletes every keypackage of every device.
\<close>

lemma prune_key_packages_huge_bound_deletes_all:
  assumes "quiet s" and "store_wf s" and "2 ^ 63 \<le> unat m"
  shows "keypackages (pool (snd (prune_key_packages m retention s))) = []"
proof -
  have "\<not> int n < as_i64 m" for n using as_i64_large [OF assms(3)] by simp
  with assms show ?thesis
    by (simp add: prune_key_packages_quiet prune_statements_keep store_wf_def)
qed

text \<open>
  A prune never changes which keypackage is a device's latest: a fetch after it returns what
  a fetch before it would have, unless that latest keypackage is itself older than the cutoff, and
  then the device has none left.
\<close>

lemma prune_key_packages_keeps_latest:
  assumes "quiet s" and "store_wf s" and "0 < unat m" and "unat m < 2 ^ 63"
  shows "sql_latest_keypackage d (pool (snd (prune_key_packages m retention s))) =
     (case sql_latest_keypackage d (pool s) of
        None \<Rightarrow> None
      | Some r \<Rightarrow> if kp_received_at r < cutoff_ms (clock s) retention then None else Some r)"
proof -
  let ?c = "cutoff_ms (clock s) retention" and ?rows = "keypackages (pool s)"
  let ?t = "pool (snd (prune_key_packages m retention s))"
  have rows: "keypackages ?t = filter (\<lambda>r. ?c \<le> kp_received_at r \<and> newer_count ?rows r < unat m) ?rows"
    using assms by (simp add: prune_key_packages_quiet prune_statements_keep store_wf_def less_as_i64)
  have pk: "keypackages_pk ?t"
    using keepsD [OF prune_key_packages_wf assms(2)] by (simp add: store_wf_def tables_wf_def)
  show ?thesis
  proof (cases "sql_latest_keypackage d (pool s)")
    case None
    then have "sql_latest_keypackage d ?t = None" by (auto simp: latest_keypackage_None rows)
    with None show ?thesis by simp
  next
    case (Some r)
    note r = latest_keypackage_Some [OF Some]
    show ?thesis
    proof (cases "kp_received_at r < ?c")
      case True
      have "kp_device_id r' \<noteq> d" if "r' \<in> set (keypackages ?t)" for r'
        using that r(3) [of r'] True by (auto simp: rows)
      then have "sql_latest_keypackage d ?t = None" by (simp add: latest_keypackage_None)
      with True Some show ?thesis by simp
    next
      case False
      have "newer_count ?rows r = 0" using r(2,3) by (simp add: newer_count_0_iff)
      then have "r \<in> set (keypackages ?t)" using r(1) False assms(3) by (simp add: rows)
      then have "sql_latest_keypackage (kp_device_id r) ?t = Some r"
        using r(2,3) by (intro latest_keypackage_unique [OF pk]) (auto simp: rows)
      with False Some r(2) show ?thesis by simp
    qed
  qed
qed

text \<open>
  An account prune that meets no failure removes exactly the accounts whose bundle was last
  replaced before the cutoff, leaves every other account's row as it was, and removes no
  keypackage and no account log.
\<close>

lemma prune_accounts_removes_exactly:
  assumes "quiet s" and "store_wf s"
  shows "sql_select_account k (pool (snd (prune_accounts retention s))) =
     (case sql_select_account k (pool s) of
        None \<Rightarrow> None
      | Some r \<Rightarrow> if ab_updated_at r < cutoff_ms (clock s) retention then None else Some r) \<and>
     keypackages (pool (snd (prune_accounts retention s))) = keypackages (pool s) \<and>
     account_logs (pool (snd (prune_accounts retention s))) = account_logs (pool s)"
proof -
  have "accounts_pk (pool s)" using assms(2) by (simp add: store_wf_def tables_wf_def)
  from select_account_delete_old [OF this] show ?thesis
    using assms(1) by (simp add: prune_accounts_quiet) (simp add: sql_delete_old_accounts_def)
qed

text \<open>
  C33. The retention window is honoured: with a clock between the epoch and \<open>2 ^ 63\<close>
  milliseconds after it and a window below \<open>2 ^ 64\<close> milliseconds, an account prune deletes a bundle
  replaced at instant \<open>t0\<close> exactly when more than the window has passed since, counted in whole
  milliseconds.
\<close>

theorem retention_window_honoured:
  assumes "quiet s" and "store_wf s" and "clock_sane (clock s)" and "clock_sane t0"
    and "as_millis retention < 2 ^ 64"
    and "sql_select_account k (pool s) = Some r" and "ab_updated_at r = stamp_ms t0"
  shows "sql_select_account k (pool (snd (prune_accounts retention s))) = None \<longleftrightarrow>
     int (as_millis retention) < clock s div 1000000 - t0 div 1000000"
proof -
  have "accounts_pk (pool s)" using assms(2) by (simp add: store_wf_def tables_wf_def)
  then have "sql_select_account k (pool (snd (prune_accounts retention s))) = None \<longleftrightarrow>
      stamp_ms t0 < cutoff_ms (clock s) retention"
    using assms(1,6,7) by (simp add: prune_accounts_quiet select_account_delete_old)
  also have "\<dots> \<longleftrightarrow> t0 div 1000000 < max 0 (clock s div 1000000 - int (as_millis retention))"
    using assms(3-5) by (simp add: stamp_ms_sane cutoff_ms_sane)
  also have "\<dots> \<longleftrightarrow> int (as_millis retention) < clock s div 1000000 - t0 div 1000000"
    using assms(4) by (auto simp: clock_sane_def pos_imp_zdiv_nonneg_iff max_def)
  finally show ?thesis .
qed

theorem retention_window_honoured_witness:
  "sql_select_account ''c'' (pool pruned_example) \<noteq> None \<and>
   (sql_select_account ''c'' (pool (snd (prune_accounts example_window pruned_example))) = None) =
     ((85 :: int) < 100 - 14)"
proof -
  have sane: "clock_sane (clock pruned_example)" "clock_sane 14000000"
    by (simp_all add: clock_sane_def pruned_example_def)
  then have "stamp_ms 14000000 = 14" by (simp add: stamp_ms_sane)
  with retention_window_honoured [OF pruned_example_ok sane, of example_window "''c''"]
  show ?thesis by (simp add: pruned_example_select) (simp add: pruned_example_def)
qed

end
