(* ===== verification/Server.thy ===== *)
theory Server
  imports Delivery Retention
begin

text \<open>
  The process of \<open>src/main.rs\<close>: its command line, the prune task, and the order in which \<open>main\<close>
  brings the parts up. Opening the database, the node and the listening socket are parameters of
  \<open>main\<close>. The lemmas say when the retention arithmetic is exact, that one failing prune does not
  keep the other from running, and that the service is never served half started.
\<close>

section \<open>Command line\<close>

record cli =
  bind_addr :: string
  db_path :: string
  max_per_identity :: usize
  retention_days :: u64
  prune_interval_secs :: u64
  no_delivery :: bool
  preset :: string
  p2p_port :: "16 word"

definition default_cli :: cli where
  "default_cli =
     \<lparr>bind_addr = ''0.0.0.0:8080'', db_path = ''chat-store.db'', max_per_identity = 100,
      retention_days = 30, prune_interval_secs = 3600, no_delivery = False,
      preset = ''logos.dev'', p2p_port = 0\<rparr>"

text \<open>The products wrap, as in the release build the image is made from.\<close>

definition retention :: "cli \<Rightarrow> duration" where
  "retention c = from_secs (retention_days c * 24 * 3600)"

definition prune_interval :: "cli \<Rightarrow> duration" where
  "prune_interval c = from_secs (prune_interval_secs c)"

section \<open>The prune task\<close>

type_synonym instant = "system_time \<times> sqlx_error option list"

text \<open>One turn of the loop; each of the two prunes runs at an instant of its own.\<close>

definition prune_turn :: "deps \<Rightarrow> cli \<Rightarrow> instant \<times> instant \<Rightarrow> store \<Rightarrow> log_line list \<times> store" where
  "prune_turn d c xs s =
     (let (r, t) = prune_key_packages (max_per_identity c) (retention c) (at_instant (fst xs) s);
          warn1 = (case r of Inl e \<Rightarrow> [Warn [] (''prune (keypackages) failed: '' @ display_anyhow d e)]
                   | Inr _ \<Rightarrow> []);
          (r', u) = prune_accounts (retention c) (at_instant (snd xs) t);
          warn2 = (case r' of Inl e \<Rightarrow> [Warn [] (''prune (accounts) failed: '' @ display_anyhow d e)]
                   | Inr _ \<Rightarrow> [])
      in (warn1 @ warn2, u))"

fun prune_turns :: "deps \<Rightarrow> cli \<Rightarrow> (instant \<times> instant) list \<Rightarrow> store \<Rightarrow> log_line list \<times> store" where
  "prune_turns d c [] s = ([], s)"
| "prune_turns d c (xs # ticks) s =
     (let (lines, t) = prune_turn d c xs s; (rest, u) = prune_turns d c ticks t in (lines @ rest, u))"

text \<open>
  The spawned task, over the ticks it has had so far. \<open>tokio::time::interval\<close> panics on a zero
  period: \<open>None\<close> is the task that ended so, which nothing else in the process notices.
\<close>

definition prune_task ::
  "deps \<Rightarrow> cli \<Rightarrow> (instant \<times> instant) list \<Rightarrow> store \<Rightarrow> (log_line list \<times> store) option" where
  "prune_task d c ticks s =
     (if prune_interval c = from_secs 0 then None else Some (prune_turns d c ticks s))"

section \<open>Startup\<close>

text \<open>
  What \<open>main\<close> has brought up. \<open>host\<close> collects what it asks of its surroundings: opening the store
  at a path, binding the address, and serving until shutdown.
\<close>

record process =
  opened :: "store option"
  prune_spawned :: bool
  delivery_node :: node_state
  listening :: bool
  served :: bool

record host =
  open_store :: "string \<Rightarrow> anyhow + store"
  bind_listener :: "string \<Rightarrow> anyhow + unit"
  serve_until_shutdown :: "anyhow + unit"

definition idle_process :: process where
  "idle_process =
     \<lparr>opened = None, prune_spawned = False,
      delivery_node = \<lparr>running = False, subscriptions = [], ingesting = False\<rparr>,
      listening = False, served = False\<rparr>"

definition on_node :: "(node_state, anyhow, unit) eff \<Rightarrow> (process, anyhow, unit) eff" where
  "on_node m = (\<lambda>p. case m (delivery_node p) of (r, n) \<Rightarrow> (r, p\<lparr>delivery_node := n\<rparr>))"

definition host_call :: "anyhow + 'b \<Rightarrow> ('b \<Rightarrow> process \<Rightarrow> process) \<Rightarrow> (process, anyhow, unit) eff" where
  "host_call r f = (\<lambda>p. case r of Inl e \<Rightarrow> (Inl e, p) | Inr x \<Rightarrow> (Inr (), f x p))"

text \<open>The two later stages: the subscriber, unless it is disabled, and the HTTP server.\<close>

definition start_ingestion :: "('ev, 'msg) node_api \<Rightarrow> cli \<Rightarrow> (process, anyhow, unit) eff" where
  "start_ingestion nd c =
     (if \<not> no_delivery c
      then map_err (AnyContext ''failed to start logos-delivery ingestion'') (on_node
        (delivery_start nd \<lparr>p2p_preset = preset c, p2p_port_number = p2p_port c, p2p_log_level = ''ERROR''\<rparr>))
      else ok ())"

definition serve_http :: "host \<Rightarrow> cli \<Rightarrow> (process, anyhow, unit) eff" where
  "serve_http h c =
     try_await (map_err (AnyContext (''failed to bind '' @ bind_addr c))
       (host_call (bind_listener h (bind_addr c)) (\<lambda>_ p. p\<lparr>listening := True\<rparr>))) (\<lambda>_.
     map_err (AnyContext ''server error'')
       (host_call (serve_until_shutdown h) (\<lambda>_ p. p\<lparr>served := True\<rparr>)))"

definition main :: "host \<Rightarrow> ('ev, 'msg) node_api \<Rightarrow> cli \<Rightarrow> (process, anyhow, unit) eff" where
  "main h nd c =
     try_await (map_err (AnyContext ''failed to open store'')
       (host_call (open_store h (db_path c)) (\<lambda>s p. p\<lparr>opened := Some s\<rparr>))) (\<lambda>_.
     try_await (host_call (Inr ()) (\<lambda>_ p. p\<lparr>prune_spawned := True\<rparr>)) (\<lambda>_.
     try_await (start_ingestion nd c) (\<lambda>_.
     serve_http h c)))"

section \<open>Lemmas\<close>

lemma prune_turn_run:
  assumes "prune_key_packages (max_per_identity c) (retention c) (at_instant x s) = (r, t)"
    and "prune_accounts (retention c) (at_instant y t) = (r', u)"
  shows "snd (prune_turn d c (x, y) s) = u"
    and "(fst (prune_turn d c (x, y) s) = []) = (is_ok r \<and> is_ok r')"
  using assms by (auto simp: prune_turn_def is_ok_def split: sum.splits)

lemma map_err_Inr_iff: "map_err f m s = (Inr x, t) \<longleftrightarrow> m s = (Inr x, t)"
  by (auto simp: map_err_def split: prod.splits sum.splits)

lemma delivery_start_ok:
  assumes "delivery_start nd cfg n = (Inr (), n')"
  shows "n' = \<lparr>running = True, subscriptions = subscriptions n @ [KEYPACKAGE_SUBMIT_TOPIC, ACCOUNT_SUBMIT_TOPIC],
      ingesting = True\<rparr>"
  using assms unfolding delivery_start_def with_context_def
  by (auto elim!: try_await_cases simp: map_err_Inr_iff node_call_def split: sum.splits)

lemma prune_turn_accounts:
  assumes "r \<in> set (account_bundles (pool (snd (prune_turn d c (x, (now, [])) s))))"
  shows "cutoff_ms now (retention c) \<le> ab_updated_at r"
proof -
  obtain r1 t where "prune_key_packages (max_per_identity c) (retention c) (at_instant x s) = (r1, t)"
    by (meson surj_pair)
  then have "snd (prune_turn d c (x, (now, [])) s) = snd (prune_accounts (retention c) (at_instant (now, []) t))"
    by (simp add: prune_turn_def split: prod.splits)
  then show ?thesis using assms
    by (auto simp: prune_accounts_quiet sql_delete_old_accounts_def)
qed

lemma prune_turn_keypackages:
  "keypackages (pool (snd (prune_turn d c (x, y) s))) =
     keypackages (pool (snd (prune_key_packages (max_per_identity c) (retention c) (at_instant x s))))"
proof -
  obtain r t where t: "prune_key_packages (max_per_identity c) (retention c) (at_instant x s) = (r, t)"
    by (meson surj_pair)
  obtain r' u where u: "prune_accounts (retention c) (at_instant y t) = (r', u)" by (meson surj_pair)
  from u have "keypackages (pool u) = keypackages (pool t)"
    by (cases rule: prune_accounts_cases) (auto simp: env_stepD sql_delete_old_accounts_def)
  then show ?thesis using t prune_turn_run(1) [OF t u] by simp
qed

section \<open>Properties\<close>

text \<open>
  C32. After a turn of the prune task the tables are within the configured bounds. If the database
  does not fail during the keypackage prune, no keypackage is older than the window and no device
  has more than \<open>max_per_identity\<close> of them; if it does not fail during the account prune, no
  account bundle is older than the window. Neither depends on how the other prune went.
\<close>

theorem prune_turn_bounds_tables:
  assumes "store_wf s" and "unat (max_per_identity c) < 2 ^ 63"
  shows "(snd x = [] \<longrightarrow>
       (\<forall>r \<in> set (keypackages (pool (snd (prune_turn d c (x, y) s)))).
          cutoff_ms (fst x) (retention c) \<le> kp_received_at r) \<and>
       (\<forall>dev. length (filter (\<lambda>r. kp_device_id r = dev) (keypackages (pool (snd (prune_turn d c (x, y) s)))))
          \<le> unat (max_per_identity c))) \<and>
     (snd y = [] \<longrightarrow>
       (\<forall>r \<in> set (account_bundles (pool (snd (prune_turn d c (x, y) s)))).
          cutoff_ms (fst y) (retention c) \<le> ab_updated_at r))"
proof (intro conjI impI)
  assume "snd x = []"
  then have quiet: "quiet (at_instant x s)" by (simp add: quiet_def)
  let ?m = "max_per_identity c" and ?old = "sql_delete_old_keypackages (cutoff_ms (fst x) (retention c)) (pool s)"
  have rows: "keypackages (pool (snd (prune_turn d c (x, y) s))) =
      keypackages (sql_delete_excess_keypackages (as_i64 ?m) ?old)"
    by (simp add: prune_turn_keypackages prune_key_packages_quiet [OF quiet])
  show "\<forall>r \<in> set (keypackages (pool (snd (prune_turn d c (x, y) s)))).
      cutoff_ms (fst x) (retention c) \<le> kp_received_at r"
    unfolding rows by (auto simp: sql_delete_excess_keypackages_def sql_delete_old_keypackages_def Let_def)
  have "tables_wf ?old" using assms(1) by (simp add: store_wf_def delete_old_keypackages_wf)
  then show "\<forall>dev. length (filter (\<lambda>r. kp_device_id r = dev) (keypackages (pool (snd (prune_turn d c (x, y) s)))))
      \<le> unat ?m"
    unfolding rows using excess_bounded assms(2) by (simp add: tables_wf_def)
next
  assume "snd y = []"
  then have "y = (fst y, [])" by (metis prod.collapse)
  then show "\<forall>r \<in> set (account_bundles (pool (snd (prune_turn d c (x, y) s)))).
      cutoff_ms (fst y) (retention c) \<le> ab_updated_at r"
    using prune_turn_accounts by metis
qed

theorem prune_turn_bounds_tables_witness:
  "let c = default_cli\<lparr>max_per_identity := 1\<rparr>; broken = (100000000, [Some (DriverError ''disk I/O error'')]);
       s = snd (prune_turn sample_deps c (broken, (2592000000000000 + 100000000, [])) pruned_example)
   in \<forall>r \<in> set (account_bundles (pool s)).
        cutoff_ms (2592000000000000 + 100000000) (retention c) \<le> ab_updated_at r"
  using prune_turn_bounds_tables [OF pruned_example_ok(2), of "default_cli\<lparr>max_per_identity := 1\<rparr>"
      "(100000000, [Some (DriverError ''disk I/O error'')])" sample_deps "(2592000100000000, [])"]
  by (simp add: Let_def)

lemma prune_window_ms: "unat (of_nat (as_millis (retention c)) :: u64) = unat (retention_days c) * 86400000 mod 2 ^ 64"
proof -
  let ?secs = "unat (retention_days c) * 86400"
  have "as_millis (retention c) = ?secs mod 2 ^ 64 * 1000"
    by (simp add: retention_def from_secs_def as_millis_def mult.assoc unat_word_ariths)
  moreover have "unat (of_nat n :: u64) = n mod 2 ^ 64" for n by (simp add: unat_of_nat)
  ultimately have "unat (of_nat (as_millis (retention c)) :: u64) = ?secs mod 2 ^ 64 * 1000 mod 2 ^ 64" by (simp only:)
  also have "\<dots> = ?secs * 1000 mod 2 ^ 64" by (rule mod_mult_left_eq)
  finally show ?thesis by (simp add: mult.commute)
qed

text \<open>
  C34. What \<open>--retention-days\<close> means, for every value of the flag and with every cast on the way, from \<open>Duration::from_secs\<close>
  to \<open>as_millis() as u64\<close> in the prunes: an account prune at an instant \<open>now\<close> keeps exactly the rows stamped within the
  last \<open>days * 86400000 mod 2 ^ 64\<close> milliseconds. That is the configured number of days if and only if the flag is at
  most 213503982334; with one day more, whose seconds still fit 64 bits, whatever is older than 34448384 milliseconds,
  less than ten hours, is deleted.
\<close>

theorem retention_is_days:
  assumes "clock_sane now"
  shows "account_bundles (pool (snd (prune_accounts (retention c) (at_instant (now, []) s)))) =
       filter (\<lambda>r. max 0 (now div 1000000 - int (unat (retention_days c) * 86400000 mod 2 ^ 64)) \<le> ab_updated_at r)
         (account_bundles (pool s)) \<and>
     (unat (of_nat (as_millis (retention c)) :: u64) = unat (retention_days c) * 86400000 \<longleftrightarrow> unat (retention_days c) \<le> 213503982334) \<and>
     unat (of_nat (as_millis (retention (c\<lparr>retention_days := 213503982335\<rparr>))) :: u64) = 34448384"
proof (intro conjI)
  show "account_bundles (pool (snd (prune_accounts (retention c) (at_instant (now, []) s)))) =
      filter (\<lambda>r. max 0 (now div 1000000 - int (unat (retention_days c) * 86400000 mod 2 ^ 64)) \<le> ab_updated_at r)
         (account_bundles (pool s))"
    using prune_window_ms [of c] cutoff_ms_sane [OF assms, of "retention c"]
    by (auto simp: prune_accounts_quiet quiet_def sql_delete_old_accounts_def unat_of_nat not_less intro!: filter_cong)
  show "unat (of_nat (as_millis (retention c)) :: u64) = unat (retention_days c) * 86400000 \<longleftrightarrow> unat (retention_days c) \<le> 213503982334"
    unfolding prune_window_ms by (auto simp: mod_eq_self_iff_div_eq_0 div_eq_0_iff)
qed (simp add: prune_window_ms)

text \<open>With a window of fourteen days, a bundle of the epoch is kept to the last millisecond, and deleted in the next.\<close>

theorem retention_is_days_witness:
  "let c = default_cli\<lparr>retention_days := 14\<rparr>; row = \<lparr>ab_account_pub = ''07'', ab_updated_at = 0, ab_payload = [], ab_signature = []\<rparr>;
       s = (fresh_store 0)\<lparr>pool := empty_tables\<lparr>account_bundles := [row]\<rparr>\<rparr>;
       after = (\<lambda>now. account_bundles (pool (snd (prune_accounts (retention c) (at_instant (now, []) s)))))
   in after (1209600000 * 1000000) = [row] \<and> after (1209600001 * 1000000) = []"
proof -
  have sane: "clock_sane (1209600000 * 1000000)" "clock_sane (1209600001 * 1000000)" by (simp_all add: clock_sane_def)
  show ?thesis unfolding Let_def
    using retention_is_days [OF sane(1), of "default_cli\<lparr>retention_days := 14\<rparr>"]
      retention_is_days [OF sane(2), of "default_cli\<lparr>retention_days := 14\<rparr>"] by simp
qed

lemma host_call_cases:
  assumes "host_call r f p = (r', q)"
  obtains (err) e where "r = Inl e" and "r' = Inl e" and "q = p"
  | (val) x where "r = Inr x" and "r' = Inr ()" and "q = f x p"
  using assms by (auto simp: host_call_def split: sum.splits)

lemma on_node_cases:
  assumes "on_node m p = (r, q)"
  obtains n where "m (delivery_node p) = (r, n)" and "q = p\<lparr>delivery_node := n\<rparr>"
  using assms by (auto simp: on_node_def split: prod.splits)

lemma start_ingestion_cases:
  assumes "start_ingestion nd c p = (r, q)" and "subscriptions (delivery_node p) = []"
  obtains (err) e where "r = Inl (AnyContext ''failed to start logos-delivery ingestion'' e)" and "listening q = listening p"
  | (up) "r = Inr ()" and "opened q = opened p" and "prune_spawned q = prune_spawned p" and "listening q = listening p"
      and "no_delivery c \<or> delivery_node q =
        \<lparr>running = True, subscriptions = [KEYPACKAGE_SUBMIT_TOPIC, ACCOUNT_SUBMIT_TOPIC], ingesting = True\<rparr>"
proof (cases "no_delivery c")
  case True
  with assms(1) show thesis by (intro up) (simp_all add: start_ingestion_def eff_simps)
next
  case False
  with assms(1) have "map_err (AnyContext ''failed to start logos-delivery ingestion'') (on_node
      (delivery_start nd \<lparr>p2p_preset = preset c, p2p_port_number = p2p_port c, p2p_log_level = ''ERROR''\<rparr>)) p = (r, q)"
    by (simp add: start_ingestion_def)
  then show thesis
    by (cases rule: map_err_cases; elim on_node_cases)
      (use err up delivery_start_ok [of nd _ "delivery_node p"] assms(2) in auto)
qed

lemma serve_http_cases:
  assumes "serve_http h c p = (r, q)"
  shows "opened q = opened p" and "prune_spawned q = prune_spawned p" and "delivery_node q = delivery_node p"
    and "\<not> listening q \<Longrightarrow> \<exists>step e. r = Inl (AnyContext step e)"
  using assms unfolding serve_http_def by (auto elim!: try_await_cases map_err_cases host_call_cases)

text \<open>
  C27. The service never runs half started. When \<open>main\<close> has got as far as listening, the store is
  open, the prune task is running and, unless delivery was disabled, the node is running, subscribed to
  both topics and ingesting; a failure of any of these ends the process with an error that names
  the step, before the address is bound.
\<close>

theorem never_half_started:
  assumes "main h nd c idle_process = (r, p)"
  shows "(listening p \<longrightarrow> opened p \<noteq> None \<and> prune_spawned p \<and>
       (no_delivery c \<or> delivery_node p =
          \<lparr>running = True, subscriptions = [KEYPACKAGE_SUBMIT_TOPIC, ACCOUNT_SUBMIT_TOPIC], ingesting = True\<rparr>)) \<and>
     (\<not> listening p \<longrightarrow> (\<exists>step e. r = Inl (AnyContext step e)))"
proof (cases "open_store h (db_path c)")
  case (Inl e)
  then have "p = idle_process \<and> r = Inl (AnyContext ''failed to open store'' e)"
    using assms by (simp add: main_def host_call_def map_err_def try_await_def)
  then show ?thesis by (simp add: idle_process_def)
next
  case (Inr st)
  let ?q = "idle_process\<lparr>opened := Some st, prune_spawned := True\<rparr>"
  have "try_await (start_ingestion nd c) (\<lambda>_. serve_http h c) ?q = (r, p)"
    using assms Inr by (simp add: main_def host_call_def map_err_def try_await_def)
  then show ?thesis
  proof (cases rule: try_await_cases)
    case (err e)
    from err(1) show ?thesis by (cases rule: start_ingestion_cases) (use err(2) in \<open>auto simp: idle_process_def\<close>)
  next
    case (val u q')
    from val(1) show ?thesis
      by (cases rule: start_ingestion_cases) (use serve_http_cases [OF val(2)] in \<open>auto simp: idle_process_def\<close>)
  qed
qed

text \<open>A host and a node on which everything works, and one whose node cannot subscribe.\<close>

definition sample_host :: host where
  "sample_host = \<lparr>open_store = (\<lambda>_. Inr (fresh_store 0)), bind_listener = (\<lambda>_. Inr ()),
     serve_until_shutdown = Inr ()\<rparr>"

definition sample_node :: "(string \<Rightarrow> anyhow + unit) \<Rightarrow> (bytes, bytes) node_api" where
  "sample_node sub =
     \<lparr>into_received = Some, content_topic = (\<lambda>_. KEYPACKAGE_SUBMIT_TOPIC), into_payload = Some,
      node_start = (\<lambda>_. Inr ()), node_subscribe = sub, spawn_ingest = Inr ()\<rparr>"

theorem never_half_started_witness:
  "let up = snd (main sample_host (sample_node (\<lambda>_. Inr ())) default_cli idle_process);
       down = snd (main sample_host (sample_node (\<lambda>_. Inl (AnyMsg ''no peers''))) default_cli idle_process)
   in listening up \<and> opened up \<noteq> None \<and> subscriptions (delivery_node up) = [KEYPACKAGE_SUBMIT_TOPIC, ACCOUNT_SUBMIT_TOPIC] \<and>
      \<not> listening down"
proof -
  have up: "listening (snd (main sample_host (sample_node (\<lambda>_. Inr ())) default_cli idle_process))"
    and down: "\<not> listening (snd (main sample_host (sample_node (\<lambda>_. Inl (AnyMsg ''no peers''))) default_cli idle_process))"
    by (simp_all add: main_def start_ingestion_def serve_http_def sample_host_def sample_node_def default_cli_def idle_process_def host_call_def
        on_node_def delivery_start_def with_context_def node_call_def map_err_def try_await_def)
  have "\<not> no_delivery default_cli" by (simp add: default_cli_def)
  with up down show ?thesis
    using never_half_started [OF prod.collapse [symmetric], of sample_host "sample_node (\<lambda>_. Inr ())" default_cli]
    by (simp add: Let_def)
qed

end
