(* ===== verification/System.thy ===== *)
theory System
  imports Server
begin

text \<open>
  The running service as a transition system: HTTP requests, messages from the network and the two
  prunes act on one store, in any order, each at any instant of the clock and with any failures of
  the database. Each takes the store's write lock for as long as it writes, so it is one step, which
  theory \<open>Linearization\<close> justifies for all of them at once.
  Locale \<open>store_invariant\<close> says what a predicate on the store must satisfy to hold in every reachable
  state; it is interpreted for the primary keys, the authenticity of the rows and the validity of
  the logs.
\<close>

section \<open>Steps\<close>

record ('a, 's, 'r) service =
  web :: axum
  protobuf :: proto
  codecs :: deps
  account_log :: "('a, 's, 'r) account_log_api"
  config :: cli

datatype action = Http request | Deliver received | PruneKeyPackages | PruneAccounts

inductive step :: "('a, 's, 'r) service \<Rightarrow> action \<Rightarrow> store \<Rightarrow> store \<Rightarrow> bool" for srv where
  http: "serve (web srv) (codecs srv) (account_log srv) req (at_instant x s) = (resp, t) \<Longrightarrow>
    step srv (Http req) s t"
| deliver: "ingest (protobuf srv) (codecs srv) (account_log srv) m (at_instant x s) = (line, t) \<Longrightarrow>
    step srv (Deliver m) s t"
| prune_kp: "prune_key_packages (max_per_identity (config srv)) (retention (config srv)) (at_instant x s) = (r, t) \<Longrightarrow>
    step srv PruneKeyPackages s t"
| prune_acc: "prune_accounts (retention (config srv)) (at_instant x s) = (r, t) \<Longrightarrow>
    step srv PruneAccounts s t"

inductive_cases step_HttpE: "step srv (Http req) s t"
inductive_cases step_DeliverE: "step srv (Deliver m) s t"
inductive_cases step_PruneKeyPackagesE: "step srv PruneKeyPackages s t"
inductive_cases step_PruneAccountsE: "step srv PruneAccounts s t"

text \<open>The store of a service that started on a fresh database.\<close>

inductive reachable :: "('a, 's, 'r) service \<Rightarrow> store \<Rightarrow> bool" for srv where
  start: "pool s = empty_tables \<Longrightarrow> reachable srv s"
| more: "reachable srv s \<Longrightarrow> step srv a s t \<Longrightarrow> reachable srv t"

section \<open>What a request or a message does to the store\<close>

text \<open>
  Every write, on either path, is one of the three \<open>apply_*\<close> operations on a well-formed bundle or a
  decoded log; everything else leaves the tables alone.
\<close>

inductive writes :: "deps \<Rightarrow> ('a, 's, 'r) account_log_api \<Rightarrow> store \<Rightarrow> store \<Rightarrow> bool" for d api where
  none: "pool t = pool s \<Longrightarrow> writes d api s t"
| keypackage: "bundle_wf b \<Longrightarrow> apply_keypackage d b s = (r, t) \<Longrightarrow> writes d api s t"
| account: "bundle_wf b \<Longrightarrow> apply_account d b s = (r, t) \<Longrightarrow> writes d api s t"
| log: "apply_account_log api a slog s = (r, t) \<Longrightarrow> writes d api s t"

lemma snd_respond: "snd (respond f h s) = snd (h s)"
  by (auto simp: respond_def split: prod.splits sum.splits)

lemma snd_answer: "snd (answer f y res) = snd res"
  by (auto simp: answer_def split: prod.splits sum.splits)

lemma writes_op:
  "bundle_wf b \<Longrightarrow> writes d api s (snd (apply_keypackage d b s))"
  "bundle_wf b \<Longrightarrow> writes d api s (snd (apply_account d b s))"
  "writes d api s (snd (apply_account_log api a slog s))"
  by (metis prod.collapse writes.keypackage, metis prod.collapse writes.account,
      metis prod.collapse writes.log)

lemma fetch_pool_env: "env_step s (snd (fetch_pool q s))"
  by (cases "fetch_pool q s") (auto elim: fetch_pool_cases)

lemma fetch_env:
  "env_step s (snd (fetch_key_package d dev s))"
  "env_step s (snd (fetch_account_v0 d acct s))"
  "env_step s (snd (fetch_account_v1 d api path s))"
proof -
  have after: "env_step s (snd (try_await (map_err internal (fetch_pool q)) k s))"
    if "\<And>y u. snd (k y u) = u" for q and k :: "'z \<Rightarrow> 'y handler"
    using fetch_pool_env [of s q] that
    by (auto simp: try_await_def map_err_def split: prod.splits sum.splits)
  show "env_step s (snd (fetch_key_package d dev s))" "env_step s (snd (fetch_account_v0 d acct s))"
    "env_step s (snd (fetch_account_v1 d api path s))"
    unfolding fetch_key_package_def fetch_account_v0_def fetch_account_v1_def try_await_lift
      latest_def get_account_def get_account_log_def
    by (auto intro!: after simp: eff_simps split: option.split sum.split)
qed

lemma submit_writes:
  "writes d api s (snd (submit_key_package d api body s))"
  "writes d api s (snd (submit_account_v0 d api abody s))"
  "writes d api s (snd (submit_account_v1 d api param raw s))"
  by (auto simp: submit_key_package_run submit_account_v0_run submit_account_v1_run snd_answer decode_key_package_def
      decode_account_def split: sum.split option.split intro: writes.none writes_op decode_bundle_wf)

lemma serve_writes: "serve ax d api req s = (resp, t) \<Longrightarrow> writes d api s t"
proof -
  assume run: "serve ax d api req s = (resp, t)"
  have "writes d api s (snd (call_endpoint ax d api ep param req s))" for ep param
    by (cases ep)
      (auto simp: call_endpoint_def snd_respond writes.none split: sum.split
        intro: submit_writes writes.none env_stepD(1) [OF fetch_env(1)] env_stepD(1) [OF fetch_env(2)] env_stepD(1) [OF fetch_env(3)])
  then have "writes d api s (snd (serve ax d api req s))"
    by (auto simp: serve_def writes.none split: sum.split)
  with run show ?thesis by simp
qed

lemma ingest_writes: "ingest pb d api m s = (line, t) \<Longrightarrow> writes d api s t"
proof -
  assume run: "ingest pb d api m s = (line, t)"
  have "writes d api s (snd (ingest pb d api m s))"
    by (cases m)
      (auto simp: ingest_def ingest_keypackage_def ingest_account_def Let_def writes.none
        split: sum.split prod.split intro: writes.keypackage writes.account from_bytes_wf)
  with run show ?thesis by simp
qed

section \<open>Invariants\<close>

locale store_invariant =
  fixes d :: deps and api :: "('a, 's, 'r) account_log_api" and P :: "store \<Rightarrow> bool"
  assumes start: "pool s = empty_tables \<Longrightarrow> P s"
    and pool_only: "pool s = pool t \<Longrightarrow> P s \<Longrightarrow> P t"
    and keypackage: "bundle_wf b \<Longrightarrow> apply_keypackage d b s = (r, t) \<Longrightarrow> P s \<Longrightarrow> P t"
    and account: "bundle_wf b \<Longrightarrow> apply_account d b s = (r, t) \<Longrightarrow> P s \<Longrightarrow> P t"
    and log: "apply_account_log api a slog s = (r, t) \<Longrightarrow> P s \<Longrightarrow> P t"
    and prune_kp: "prune_key_packages m ret s = (r', t) \<Longrightarrow> P s \<Longrightarrow> P t"
    and prune_acc: "prune_accounts ret s = (r', t) \<Longrightarrow> P s \<Longrightarrow> P t"
begin

lemma instant_keep: "P s \<Longrightarrow> P (at_instant x s)"
  by (rule pool_only [of s]) simp_all

lemma writes_keep: "writes d api s t \<Longrightarrow> P s \<Longrightarrow> P t"
  by (cases rule: writes.cases) (auto intro: keypackage account log pool_only [of s])

lemma step_keep:
  assumes "step srv a s t" and "codecs srv = d" and "account_log srv = api" and "P s"
  shows "P t"
  using assms(1)
proof (cases rule: step.cases)
  case (http req x resp)
  then show ?thesis using serve_writes assms(2-4) writes_keep instant_keep by blast
next
  case (deliver m x line)
  then show ?thesis using ingest_writes assms(2-4) writes_keep instant_keep by blast
next
  case (prune_kp x r)
  then show ?thesis using store_invariant.prune_kp [OF store_invariant_axioms] assms(4) instant_keep by blast
next
  case (prune_acc x r)
  then show ?thesis using store_invariant.prune_acc [OF store_invariant_axioms] assms(4) instant_keep by blast
qed

lemma reachable_keep:
  assumes "reachable srv s" and "codecs srv = d" and "account_log srv = api"
  shows "P s"
  using assms(1) by induction (auto simp: start intro: step_keep [OF _ assms(2,3)])

end

section \<open>Authentic rows\<close>

text \<open>
  A row is authentic when its key is the hex of 32 bytes that are a valid Ed25519 key under which
  its signature, of 64 bytes, over its payload verifies; an account row also carries a lamport.
\<close>

definition signed_by :: "deps \<Rightarrow> string \<Rightarrow> bytes \<Rightarrow> bytes \<Rightarrow> bool" where
  "signed_by d k p g \<longleftrightarrow>
     (\<exists>key. length key = 32 \<and> k = hex_encode d key \<and> length g = 64 \<and> authentic d key p g)"

definition rows_authentic :: "deps \<Rightarrow> store \<Rightarrow> bool" where
  "rows_authentic d s \<longleftrightarrow>
     (\<forall>r \<in> set (keypackages (pool s)). signed_by d (kp_device_id r) (kp_payload r) (kp_signature r)) \<and>
     (\<forall>r \<in> set (account_bundles (pool s)). signed_by d (ab_account_pub r) (ab_payload r) (ab_signature r) \<and>
        payload_lamport (ab_payload r) \<noteq> None)"

lemma signed_by_bundle:
  "bundle_wf b \<Longrightarrow> authentic d (bkey b) (bpayload b) (bsignature b) \<Longrightarrow>
     signed_by d (key_hex d b) (bpayload b) (bsignature b)"
  by (auto simp: signed_by_def bundle_wf_def key_hex_def)

lemma rows_authentic_pool: "pool s = pool t \<Longrightarrow> rows_authentic d s = rows_authentic d t"
  by (simp add: rows_authentic_def)

lemma keypackage_rows_authentic:
  assumes "bundle_wf b" and "apply_keypackage d b s = (r, t)" and "rows_authentic d s"
  shows "rows_authentic d t"
  using assms(2)
proof (cases rule: apply_keypackage_cases)
  case (stored u db)
  then show ?thesis using assms(3) signed_by_bundle [OF assms(1)]
    by (auto simp: rows_authentic_def sql_insert_keypackage_def split: if_splits)
qed (use assms(3) in \<open>auto simp: rows_authentic_def env_stepD\<close>)

lemma account_rows_authentic:
  assumes "bundle_wf b" and "apply_account d b s = (r, t)" and "rows_authentic d s"
  shows "rows_authentic d t"
  using assms(2)
proof (cases rule: apply_account_cases)
  case (stored l u)
  then show ?thesis
    using assms(3) signed_by_bundle [OF assms(1)]
    by (auto simp: rows_authentic_def sql_upsert_account_def upsert_row_def split: if_splits)
qed (use assms(3) in \<open>auto simp: rows_authentic_def env_stepD\<close>)

lemma log_rows_authentic:
  assumes "apply_account_log api a slog s = (r, t)" and "rows_authentic d s"
  shows "rows_authentic d t"
  using assms(1)
  by (cases rule: apply_account_log_cases)
    (use assms(2) in \<open>simp_all add: rows_authentic_def env_stepD sql_upsert_log_def\<close>)

text \<open>A prune only removes rows.\<close>

lemma prune_rows:
  "prune_key_packages m ret s = (r, t) \<Longrightarrow> set (keypackages (pool t)) \<subseteq> set (keypackages (pool s)) \<and>
     account_bundles (pool t) = account_bundles (pool s) \<and> account_logs (pool t) = account_logs (pool s)"
  "prune_accounts ret s = (r, t) \<Longrightarrow> set (account_bundles (pool t)) \<subseteq> set (account_bundles (pool s)) \<and>
     keypackages (pool t) = keypackages (pool s) \<and> account_logs (pool t) = account_logs (pool s)"
  by (erule prune_key_packages_cases; force simp: env_stepD sql_delete_old_keypackages_def
      sql_delete_excess_keypackages_def Let_def)
    (erule prune_accounts_cases; force simp: env_stepD sql_delete_old_accounts_def)

interpretation authentic: store_invariant d api "rows_authentic d" for d and api :: "('a, 's, 'r) account_log_api"
proof (unfold_locales, goal_cases)
  case (1 s) then show ?case by (simp add: rows_authentic_def empty_tables_def)
next
  case (2 s t) then show ?case by (simp add: rows_authentic_def)
next
  case (3 b s r t) then show ?case by (rule keypackage_rows_authentic)
next
  case (4 b s r t) then show ?case by (rule account_rows_authentic)
next
  case (5 a slog s r t) then show ?case by (rule log_rows_authentic)
next
  case (6 m ret s r' t) then show ?case using prune_rows(1) by (fastforce simp: rows_authentic_def)
next
  case (7 ret s r' t) then show ?case using prune_rows(2) by (fastforce simp: rows_authentic_def)
qed

interpretation primary_keys: store_invariant d api store_wf for d and api :: "('a, 's, 'r) account_log_api"
proof (unfold_locales, goal_cases)
  case (1 s) then show ?case by (simp add: store_wf_def)
next
  case (2 s t) then show ?case by (simp add: store_wf_def)
next
  case (3 b s r t)
  from 3(2) show ?case
    by (cases rule: apply_keypackage_cases)
      (use 3(3) in \<open>auto simp: store_wf_def env_stepD intro: insert_keypackage_wf\<close>)
next
  case (4 b s r t)
  from 4(2) show ?case
    by (cases rule: apply_account_cases) (use 4(3) in \<open>auto simp: store_wf_def env_stepD upsert_account_wf\<close>)
next
  case (5 a slog s r t)
  from 5(1) show ?case
    by (cases rule: apply_account_log_cases) (use 5(2) in \<open>simp_all add: store_wf_def env_stepD upsert_log_wf\<close>)
next
  case (6 m ret s r' t) then show ?case using keepsD [OF prune_key_packages_wf, of s m ret] by simp
next
  case (7 ret s r' t) then show ?case using keepsD [OF prune_accounts_wf, of s ret] by simp
qed

section \<open>Valid logs that only grow\<close>

lemma logs_verified_pool: "account_logs (pool s) = account_logs (pool t) \<Longrightarrow> logs_verified api s = logs_verified api t"
  by (simp add: logs_verified_def)

lemma log_cell_pool: "account_logs (pool s) = account_logs (pool t) \<Longrightarrow> log_cell s = log_cell t"
  by (rule ext) (simp add: log_cell_def sql_select_log_def)

lemma bundle_ops_logs:
  "apply_keypackage d b s = (r, t) \<Longrightarrow> account_logs (pool t) = account_logs (pool s)"
  "apply_account d b s = (r, t) \<Longrightarrow> account_logs (pool t) = account_logs (pool s)"
  by (erule apply_keypackage_cases; auto simp: env_stepD sql_insert_keypackage_def split: if_splits)
    (erule apply_account_cases; auto simp: env_stepD sql_upsert_account_def)

sublocale account_log_crate \<subseteq> valid_logs: store_invariant d api "logs_verified api" for d
proof (unfold_locales, goal_cases)
  case (1 s) then show ?case by (simp add: logs_verified_def empty_tables_def)
next
  case (2 s t) then show ?case by (simp add: logs_verified_def)
next
  case (3 b s r t) then show ?case using logs_verified_pool bundle_ops_logs(1) by metis
next
  case (4 b s r t) then show ?case using logs_verified_pool bundle_ops_logs(2) by metis
next
  case (5 a slog s r t) then show ?case by (intro apply_log_cell(1) [OF 5(2,1)])
next
  case (6 m ret s r' t) then show ?case using logs_verified_pool prune_rows(1) by metis
next
  case (7 ret s r' t) then show ?case using logs_verified_pool prune_rows(2) by metis
qed

context account_log_crate
begin

lemma writes_log_cell:
  assumes "writes d api s t" and "logs_verified api s" and "log_cell s k = Some v"
  shows "\<exists>v'. log_cell t k = Some v' \<and> (v' = v \<or> extends v v')"
  using assms(1)
proof (cases rule: writes.cases)
  case (log a slog r)
  then show ?thesis using apply_log_cell(2) [OF assms(2) log] assms(3)
    by (auto split: if_splits)
qed (use assms(3) log_cell_pool bundle_ops_logs in metis)+

lemma step_log_cell:
  assumes "logs_verified api s" and "account_log srv = api" and "step srv a s t" and "log_cell s k = Some v"
  shows "\<exists>v'. log_cell t k = Some v' \<and> (v' = v \<or> extends v v')"
proof -
  have at: "logs_verified api (at_instant x s)" "log_cell (at_instant x s) k = Some v" for x
    using assms(1,4) by simp_all
  show ?thesis using assms(3)
  proof (cases rule: step.cases)
    case (http req x resp)
    then show ?thesis using writes_log_cell [OF serve_writes at] assms(2) by blast
  next
    case (deliver m x line)
    then show ?thesis using writes_log_cell [OF ingest_writes at] assms(2) by blast
  next
    case (prune_kp x r)
    then have "log_cell t = log_cell (at_instant x s)"
      by (intro log_cell_pool) (simp add: prune_rows(1))
    then show ?thesis using assms(4) by simp
  next
    case (prune_acc x r)
    then have "log_cell t = log_cell (at_instant x s)"
      by (intro log_cell_pool) (simp add: prune_rows(2))
    then show ?thesis using assms(4) by simp
  qed
qed

end

sublocale account_log_crate \<subseteq> growing: cells extends log_cell
  "\<lambda>s t. logs_verified api s \<and> (\<exists>srv a. account_log srv = api \<and> step srv a s t)"
proof (unfold_locales, goal_cases)
  case (1 s t k v) then show ?case using step_log_cell by blast
qed

context account_log_crate
begin

lemma logs_invariant: "store_invariant d api (logs_verified api)"
  by (rule valid_logs.store_invariant_axioms)

lemma run_log_cell:
  assumes "reachable srv s" and "(\<lambda>s t. \<exists>a. step srv a s t)\<^sup>*\<^sup>* s t" and "account_log srv = api"
    and "log_cell s k = Some v"
  shows "\<exists>v'. log_cell t k = Some v' \<and> (v' = v \<or> extends v v')"
proof -
  let ?step = "\<lambda>s t. logs_verified api s \<and> (\<exists>srv a. account_log srv = api \<and> step srv a s t)"
  from assms(2) have "reachable srv t \<and> ?step\<^sup>*\<^sup>* s t"
  proof (induction rule: rtranclp_induct)
    case (step t u)
    then obtain a where a: "step srv a t u" by blast
    have "logs_verified api t"
      using store_invariant.reachable_keep [OF logs_invariant, of srv t] step.IH assms(3) by simp
    then show ?case using a step.IH assms(3) reachable.more by (blast intro: rtranclp.rtrancl_into_rtrancl)
  qed (simp add: assms(1))
  then show ?thesis using growing.advance_steps assms(4) by blast
qed

end

section \<open>Lamports that only rise\<close>

lemma account_cell_pool: "account_bundles (pool s) = account_bundles (pool t) \<Longrightarrow> account_cell s = account_cell t"
  by (rule ext) (simp add: account_cell_def sql_select_account_def)

lemma other_ops_accounts:
  "apply_keypackage d b s = (r, t) \<Longrightarrow> account_bundles (pool t) = account_bundles (pool s)"
  "apply_account_log api a slog s = (r, t) \<Longrightarrow> account_bundles (pool t) = account_bundles (pool s)"
  by (erule apply_keypackage_cases; auto simp: env_stepD sql_insert_keypackage_def split: if_splits)
    (erule apply_account_log_cases; simp add: env_stepD sql_upsert_log_def)

lemma writes_account_cell:
  assumes "writes d api s t" and "account_cell s k = Some v"
  shows "\<exists>v'. account_cell t k = Some v' \<and> (v' = v \<or> lamport_newer v v')"
  using assms(1)
proof (cases rule: writes.cases)
  case (account b r)
  obtain x where s: "at_instant x s = s" by (rule that [of "(clock s, faults s)"]) (simp add: at_instant_def)
  then have run: "submit_account_at d x b s = (r, t)" using account by (simp add: submit_account_at_def)
  show ?thesis
  proof (cases "is_ok r")
    case True
    then show ?thesis using submit_account_at_stored(1,2) [OF run True] assms(2)
      by (cases "key_hex d b = k") auto
  next
    case False
    then show ?thesis using submit_account_at_refused [OF run] assms(2) by simp
  qed
qed (use assms(2) account_cell_pool other_ops_accounts in metis)+

interpretation rising: cells lamport_newer account_cell
  "\<lambda>s t. \<exists>a. a \<noteq> PruneAccounts \<and> step srv a s t" for srv :: "('a, 's, 'r) service"
proof (unfold_locales, goal_cases)
  case (1 s t k v)
  then obtain a where "a \<noteq> PruneAccounts" and "step srv a s t" by blast
  have at: "account_cell (at_instant x s) k = Some v" for x using 1(2) by simp
  from \<open>step srv a s t\<close> show ?case
  proof (cases rule: step.cases)
    case (http req x resp)
    then show ?thesis using writes_account_cell [OF serve_writes at] by blast
  next
    case (deliver m x line)
    then show ?thesis using writes_account_cell [OF ingest_writes at] by blast
  next
    case (prune_kp x r)
    then have "account_cell t = account_cell (at_instant x s)"
      by (intro account_cell_pool) (simp add: prune_rows(1))
    then show ?thesis using 1(2) by simp
  qed (use \<open>a \<noteq> PruneAccounts\<close> in simp)
qed

end
