(* ===== verification/Write_Lock.thy ===== *)
theory Write_Lock
  imports Bundle
begin

text \<open>
  The write lock of \<open>src/store.rs\<close>. Every operation that writes takes \<open>write_lock\<close> first and
  holds the guard to its end; its database calls are awaited one by one, and between any two of
  them other tasks run. Here each such operation is written out as the sequence of its calls, tasks
  interleave call by call, and a task may be dropped at any await, as the server does with the
  handler of a client that went away. The theorems show that the operations of theory \<open>Store\<close> are
  exactly these sequences run alone, and that under the lock every interleaving has the effect of
  running them one after another.
\<close>

section \<open>Operations as sequences of database calls\<close>

datatype write_result = Unit | Flag bool | Compared outcome

text \<open>
  \<open>Call f\<close> awaits one database call: \<open>f\<close> maps the committed tables to those after the call and to
  the rest of the operation. A transaction's own view of the tables is passed along in the rest.
\<close>

datatype prog = Done "anyhow + write_result" | Call "tables \<Rightarrow> tables \<times> prog"

text \<open>An operation reads the clock once, right after it got the lock.\<close>

type_synonym operation = "system_time \<Rightarrow> prog"

definition call_pool :: "(tables \<Rightarrow> tables option) \<Rightarrow> prog \<Rightarrow> prog" where
  "call_pool stmt rest =
     Call (\<lambda>db. case stmt db of
       None \<Rightarrow> (db, Done (Inl (AnySqlx UniqueViolation)))
     | Some db' \<Rightarrow> (db', rest))"

definition call_begin :: "(tables \<Rightarrow> prog) \<Rightarrow> prog" where
  "call_begin rest = Call (\<lambda>db. (db, rest db))"

definition call_tx :: "prog \<Rightarrow> prog" where
  "call_tx rest = Call (\<lambda>db. (db, rest))"

definition call_commit :: "tables \<Rightarrow> prog \<Rightarrow> prog" where
  "call_commit tx rest = Call (\<lambda>db. (tx, rest))"

definition insert_op :: "string \<Rightarrow> stored_key_package_bundle \<Rightarrow> operation" where
  "insert_op device_id b now =
     call_pool (sql_insert_keypackage device_id (stamp_ms now) (skp_payload b) (skp_signature b))
       (Done (Inr Unit))"

definition upsert_account_op :: "string \<Rightarrow> u64 \<Rightarrow> stored_account_bundle \<Rightarrow> operation" where
  "upsert_account_op account_pub lamport b now =
     call_begin (\<lambda>tx. call_tx (
       let row = map_option ab_payload (sql_select_account account_pub tx) in
       if (case Option.bind row payload_lamport of None \<Rightarrow> False | Some stored \<Rightarrow> lamport \<le> stored)
       then Done (Inr (Flag False))
       else
         let tx = sql_upsert_account account_pub (stamp_ms now) (sab_payload b) (sab_signature b) tx in
         call_tx (call_commit tx (Done (Inr (Flag True))))))"

definition put_account_log_op :: "('a, 's, 'r) account_log_api \<Rightarrow> 'r \<Rightarrow> operation" where
  "put_account_log_op api candidate now =
     call_begin (\<lambda>tx. call_tx (
       let account_pub = addr_to_string api (record_addr api candidate);
           stored = map_option al_signed_log (sql_select_log account_pub tx) in
       case (case stored of
               None \<Rightarrow> Inr \<lparr>upd_outcome = Updated, upd_record = candidate\<rparr>
             | Some bytes \<Rightarrow>
                 (case signed_from_bytes api bytes of
                    Inl e \<Rightarrow> Inl (AnyLog e)
                  | Inr slog \<Rightarrow>
                      (case record_new api (record_addr api candidate) slog of
                         Inl e \<Rightarrow> Inl (AnyContext ''stored account log no longer verifies'' (AnyLog e))
                       | Inr rec \<Rightarrow> Inr (record_update api rec (record_signed_log api candidate))))) of
         Inl e \<Rightarrow> Done (Inl e)
       | Inr update \<Rightarrow>
           if upd_outcome update \<noteq> Updated then Done (Inr (Compared (upd_outcome update)))
           else
             let tx = sql_upsert_log account_pub (stamp_ms now)
               (signed_to_bytes api (record_signed_log api (upd_record update))) tx in
             call_tx (call_commit tx (Done (Inr (Compared Updated))))))"

definition prune_accounts_op :: "duration \<Rightarrow> operation" where
  "prune_accounts_op window now =
     call_pool (\<lambda>db. Some (sql_delete_old_accounts (cutoff_ms now window) db)) (Done (Inr Unit))"

definition prune_key_packages_op :: "usize \<Rightarrow> duration \<Rightarrow> operation" where
  "prune_key_packages_op max_rows window now =
     call_pool (\<lambda>db. Some (sql_delete_old_keypackages (cutoff_ms now window) db))
       (call_pool (\<lambda>db. Some (sql_delete_excess_keypackages (as_i64 max_rows) db)) (Done (Inr Unit)))"

section \<open>Running an operation alone\<close>

primrec run_prog :: "prog \<Rightarrow> store \<Rightarrow> (anyhow + write_result) \<times> store" where
  "run_prog (Done r) = (\<lambda>s. (r, s))"
| "run_prog (Call f) = (\<lambda>s.
     case db_call s of
       (Inl e, t) \<Rightarrow> (Inl e, t)
     | (Inr _, t) \<Rightarrow> (case map_prod id run_prog (f (pool t)) of (db, rest) \<Rightarrow> rest (t\<lparr>pool := db\<rparr>)))"

definition run_op :: "operation \<Rightarrow> store \<Rightarrow> (anyhow + write_result) \<times> store" where
  "run_op op s = run_prog (op (clock s)) s"

section \<open>Tasks and the lock\<close>

text \<open>
  A task that holds the lock remembers, for the statements below, its operation, the instant it read
  and the outcomes of its calls so far. \<open>history\<close> lists the operations whose guard was dropped, in
  that order, each with the instant and the call outcomes it met. The first statement of each of the five writing
  methods is \<open>let _write_guard = self.write_lock.lock().await\<close>; it is the step \<open>lock\<close> here, the same for all of them. The guard
  is dropped when the operation returns (\<open>unlock\<close>) or its future is dropped (\<open>dropped_holding\<close>); a call under way at that moment has
  then either been made, or is never made.
\<close>

datatype task =
    Waiting operation
  | Holding operation system_time "sqlx_error option list" prog
  | Finished operation "anyhow + write_result"

record conf =
  committed :: tables
  write_lock :: "nat option"
  tasks :: "nat \<Rightarrow> task option"
  history :: "(operation \<times> system_time \<times> sqlx_error option list) list"

inductive lock_step :: "conf \<Rightarrow> conf \<Rightarrow> bool" where
  arrive: "tasks c i = None \<Longrightarrow> lock_step c (c\<lparr>tasks := (tasks c)(i \<mapsto> Waiting op)\<rparr>)"
| lock: "tasks c i = Some (Waiting op) \<Longrightarrow> write_lock c = None \<Longrightarrow>
    lock_step c (c\<lparr>write_lock := Some i, tasks := (tasks c)(i \<mapsto> Holding op now [] (op now))\<rparr>)"
| call: "tasks c i = Some (Holding op now fs (Call f)) \<Longrightarrow> f (committed c) = (db, rest) \<Longrightarrow>
    lock_step c (c\<lparr>committed := db, tasks := (tasks c)(i \<mapsto> Holding op now (fs @ [None]) rest)\<rparr>)"
| call_fails: "tasks c i = Some (Holding op now fs (Call f)) \<Longrightarrow>
    lock_step c (c\<lparr>tasks := (tasks c)(i \<mapsto> Holding op now (fs @ [Some e]) (Done (Inl (AnySqlx e))))\<rparr>)"
| unlock: "tasks c i = Some (Holding op now fs (Done r)) \<Longrightarrow>
    lock_step c (c\<lparr>write_lock := None, tasks := (tasks c)(i \<mapsto> Finished op r),
      history := history c @ [(op, now, fs)]\<rparr>)"
| dropped_waiting: "tasks c i = Some (Waiting op) \<Longrightarrow> lock_step c (c\<lparr>tasks := (tasks c)(i := None)\<rparr>)"
| dropped_holding: "tasks c i = Some (Holding op now fs p) \<Longrightarrow>
    lock_step c (c\<lparr>write_lock := None, tasks := (tasks c)(i := None),
      history := history c @ [(op, now, fs @ [Some (DriverError ''cancelled'')])]\<rparr>)"

definition opened_conf :: "tables \<Rightarrow> conf" where
  "opened_conf db = \<lparr>committed = db, write_lock = None, tasks = (\<lambda>_. None), history = []\<rparr>"

text \<open>The operations of a history, run one after another.\<close>

fun serial :: "(operation \<times> system_time \<times> sqlx_error option list) list \<Rightarrow> tables \<Rightarrow> tables" where
  "serial [] db = db"
| "serial ((op, now, fs) # ops) db =
     serial ops (pool (snd (run_op op \<lparr>pool = db, clock = now, faults = fs\<rparr>)))"

section \<open>Lemmas\<close>

lemma run_call_pool:
  "run_prog (call_pool stmt rest) = try_await (execute_pool stmt) (\<lambda>_. run_prog rest)"
  by (rule ext)
    (auto simp: call_pool_def execute_pool_def try_await_def db_call_def split: prod.splits sum.splits option.splits list.splits)

lemma run_call_begin: "run_prog (call_begin rest) = try_await begin_tx (\<lambda>tx. run_prog (rest tx))"
  by (rule ext) (auto simp: call_begin_def begin_tx_def try_await_def split: prod.splits sum.splits)

lemma run_call_tx: "run_prog (call_tx rest) = try_await db_call (\<lambda>_. run_prog rest)"
  by (rule ext) (auto simp: call_tx_def try_await_def split: prod.splits sum.splits)

lemma run_call_commit: "run_prog (call_commit tx rest) = try_await (commit_tx tx) (\<lambda>_. run_prog rest)"
  by (rule ext) (auto simp: call_commit_def commit_tx_def try_await_def split: prod.splits sum.splits)

lemma run_done: "run_prog (Done r) = lift_result r"
  by (rule ext) (simp add: lift_result_def)

lemmas run_calls = run_call_pool run_call_begin run_call_tx run_call_commit run_done

definition map_ok :: "('a \<Rightarrow> 'b) \<Rightarrow> ('s, 'e, 'a) eff \<Rightarrow> ('s, 'e, 'b) eff" where
  "map_ok f m = (\<lambda>s. case m s of (Inl e, t) \<Rightarrow> (Inl e, t) | (Inr x, t) \<Rightarrow> (Inr (f x), t))"

lemma map_ok_try_await: "map_ok f (try_await m k) = try_await m (\<lambda>x. map_ok f (k x))"
  by (rule ext) (auto simp: map_ok_def try_await_def split: prod.splits sum.splits)

lemma map_ok_simps: "map_ok f (ok x) = ok (f x)" "map_ok f (fail e) = fail e"
  by (auto simp: map_ok_def ok_def fail_def)

lemma map_ok_via: "map_ok f m = try_await m (\<lambda>x. lift_result (Inr (f x)))"
  by (rule ext) (auto simp: map_ok_def try_await_def lift_result_def split: prod.splits sum.splits)

lemma lift_result_simps: "lift_result (Inr x) = ok x" "lift_result (Inl e) = fail e"
  by (auto simp: lift_result_def ok_def fail_def)

lemma try_await_execute_tx: "try_await (execute_tx f tx) k = try_await db_call (\<lambda>_. k (f tx))"
  by (rule ext) (simp add: execute_tx_def try_await_def ok_def split: sum.split prod.split)

lemma map_ok_at: "m s = m' s \<Longrightarrow> map_ok f m s = map_ok f m' s"
  by (simp add: map_ok_def)

lemma map_ok_if: "map_ok f (if c then m else m') = (if c then map_ok f m else map_ok f m')"
  by simp

lemmas run_op_eqs = map_ok_try_await map_ok_simps map_ok_if run_calls lift_result_simps
  try_await_fetch_tx try_await_execute_tx if_distrib [of run_prog] Let_def

lemma run_upsert_account_op: "run_op (upsert_account_op k l b) s = map_ok Flag (upsert_account k l b) s"
proof -
  let ?now = "stamp_ms (clock s)"
  have "map_ok Flag (upsert_account k l b) s = map_ok Flag (try_await begin_tx (\<lambda>tx.
     try_await (fetch_tx (\<lambda>db. map_option ab_payload (sql_select_account k db)) tx) (\<lambda>row.
       if (case Option.bind row payload_lamport of None \<Rightarrow> False | Some stored \<Rightarrow> l \<le> stored)
       then ok False
       else try_await (execute_tx (sql_upsert_account k ?now (sab_payload b) (sab_signature b)) tx) (\<lambda>tx.
         try_await (commit_tx tx) (\<lambda>_. ok True))))) s"
    by (rule map_ok_at) (simp add: upsert_account_def Let_def)
  then show ?thesis by (simp add: run_op_def upsert_account_op_def run_op_eqs del: run_prog.simps cong: if_cong)
qed

lemma case_map_log:
  "(case map_option al_signed_log row of None \<Rightarrow> x | Some b \<Rightarrow> g b) =
     (case row of None \<Rightarrow> x | Some r \<Rightarrow> g (al_signed_log r))"
  by (cases row) simp_all

lemma put_account_log_op_decision:
  "put_account_log_op api c now = call_begin (\<lambda>tx. call_tx (
     case log_decision api c tx of
       Inl e \<Rightarrow> Done (Inl e)
     | Inr update \<Rightarrow>
         if upd_outcome update \<noteq> Updated then Done (Inr (Compared (upd_outcome update)))
         else call_tx (call_commit (sql_upsert_log (addr_to_string api (record_addr api c)) (stamp_ms now)
           (signed_to_bytes api (record_signed_log api (upd_record update))) tx) (Done (Inr (Compared Updated))))))"
  unfolding put_account_log_op_def log_decision_def Let_def case_map_log by (rule refl)

lemma run_put_account_log_op:
  "run_op (put_account_log_op api c) s = map_ok Compared (put_account_log api c) s"
proof -
  let ?now = "stamp_ms (clock s)" and ?k = "addr_to_string api (record_addr api c)"
  have "map_ok Compared (put_account_log api c) s = map_ok Compared (try_await begin_tx (\<lambda>tx.
     try_await (fetch_tx (log_decision api c) tx) (\<lambda>d.
       case d of
         Inl e \<Rightarrow> fail e
       | Inr update \<Rightarrow>
           if upd_outcome update \<noteq> Updated then ok (upd_outcome update)
           else try_await (execute_tx (sql_upsert_log ?k ?now
               (signed_to_bytes api (record_signed_log api (upd_record update)))) tx) (\<lambda>tx.
             try_await (commit_tx tx) (\<lambda>_. ok Updated))))) s"
    by (rule map_ok_at) (rule put_account_log_decision)
  then show ?thesis
    by (simp add: run_op_def put_account_log_op_decision run_op_eqs sum.case_distrib [of run_prog]
        sum.case_distrib [of "map_ok Compared"] del: run_prog.simps cong: sum.case_cong if_cong)
qed

lemmas run_single_eqs = run_op_def map_ok_via run_calls try_await_assoc Let_def

lemma run_insert_op: "run_op (insert_op dev b) s = map_ok (\<lambda>_. Unit) (store_insert dev b) s"
  using map_ok_at [where f = "\<lambda>_. Unit", of "store_insert dev b" s "execute_pool (sql_insert_keypackage dev
      (stamp_ms (clock s)) (skp_payload b) (skp_signature b))"]
  by (simp add: run_single_eqs insert_op_def store_insert_def del: run_prog.simps)

lemma run_prune_accounts_op:
  "run_op (prune_accounts_op window) s = map_ok (\<lambda>_. Unit) (prune_accounts window) s"
  using map_ok_at [where f = "\<lambda>_. Unit", of "prune_accounts window" s
      "execute_pool (\<lambda>db. Some (sql_delete_old_accounts (cutoff_ms (clock s) window) db))"]
  by (simp add: run_single_eqs prune_accounts_op_def prune_accounts_def del: run_prog.simps)

lemma run_prune_key_packages_op:
  "run_op (prune_key_packages_op m window) s = map_ok (\<lambda>_. Unit) (prune_key_packages m window) s"
  using map_ok_at [where f = "\<lambda>_. Unit", of "prune_key_packages m window" s
      "try_await (execute_pool (\<lambda>db. Some (sql_delete_old_keypackages (cutoff_ms (clock s) window) db)))
         (\<lambda>_. execute_pool (\<lambda>db. Some (sql_delete_excess_keypackages (as_i64 m) db)))"]
  by (simp add: run_single_eqs prune_key_packages_op_def prune_key_packages_def del: run_prog.simps)

lemmas run_ops = run_insert_op run_upsert_account_op run_put_account_log_op run_prune_accounts_op run_prune_key_packages_op

text \<open>
  The operations of the store are these sequences of calls, run with nothing in between: with
  every failure at every call, the result, the tables, the clock and the remaining failures agree.
\<close>

lemma store_operations_are_call_sequences:
  "run_op (insert_op dev kb) s = map_ok (\<lambda>_. Unit) (store_insert dev kb) s \<and>
   run_op (upsert_account_op k l ab) s = map_ok Flag (upsert_account k l ab) s \<and>
   run_op (put_account_log_op api c) s = map_ok Compared (put_account_log api c) s \<and>
   run_op (prune_accounts_op window) s = map_ok (\<lambda>_. Unit) (prune_accounts window) s \<and>
   run_op (prune_key_packages_op m window) s = map_ok (\<lambda>_. Unit) (prune_key_packages m window) s"
  by (intro conjI run_ops)

section \<open>One after another\<close>

lemma serial_append:
  "serial (h @ [(op, now, fs)]) db = pool (snd (run_op op \<lparr>pool = serial h db, clock = now, faults = fs\<rparr>))"
  by (induction h arbitrary: db) auto

text \<open>
  What the calls done so far amount to: running the whole operation on the tables \<open>base\<close> with the
  outcomes met so far and any further ones is running the rest on the tables as they are now.
\<close>

definition halfway :: "tables \<Rightarrow> operation \<Rightarrow> system_time \<Rightarrow> sqlx_error option list \<Rightarrow> prog \<Rightarrow> tables \<Rightarrow> bool" where
  "halfway base op now fs p db \<longleftrightarrow>
     (\<forall>gs. run_op op \<lparr>pool = base, clock = now, faults = fs @ gs\<rparr> =
           run_prog p \<lparr>pool = db, clock = now, faults = gs\<rparr>)"

definition serial_result :: "tables \<Rightarrow> conf \<Rightarrow> operation \<Rightarrow> anyhow + write_result \<Rightarrow> bool" where
  "serial_result db0 c op r \<longleftrightarrow>
     (\<exists>h now fs h'. history c = h @ (op, now, fs) # h' \<and>
        r = fst (run_op op \<lparr>pool = serial h db0, clock = now, faults = fs\<rparr>))"

definition lock_inv :: "tables \<Rightarrow> conf \<Rightarrow> bool" where
  "lock_inv db0 c \<longleftrightarrow>
     (\<forall>i op now fs p. tasks c i = Some (Holding op now fs p) \<longrightarrow>
        write_lock c = Some i \<and> halfway (serial (history c) db0) op now fs p (committed c)) \<and>
     (\<forall>i. write_lock c = Some i \<longrightarrow> (\<exists>op now fs p. tasks c i = Some (Holding op now fs p))) \<and>
     (write_lock c = None \<longrightarrow> committed c = serial (history c) db0) \<and>
     (\<forall>i op r. tasks c i = Some (Finished op r) \<longrightarrow> serial_result db0 c op r)"

lemma lock_inv_start: "lock_inv db0 (opened_conf db0)"
  by (simp add: lock_inv_def opened_conf_def)

lemma halfway_call:
  assumes "halfway base op now fs (Call f) db"
  shows "f db = (db', rest) \<Longrightarrow> halfway base op now (fs @ [None]) rest db'"
    and "halfway base op now (fs @ [Some e]) (Done (Inl (AnySqlx e))) db"
  using assms unfolding halfway_def by (auto simp: db_call_def)

lemma halfway_pool:
  assumes "halfway base op now fs p db"
  shows "p = Done r \<Longrightarrow> run_op op \<lparr>pool = base, clock = now, faults = fs\<rparr> = (r, \<lparr>pool = db, clock = now, faults = []\<rparr>)"
    and "pool (snd (run_op op \<lparr>pool = base, clock = now, faults = fs @ [Some e]\<rparr>)) = db"
proof -
  show "p = Done r \<Longrightarrow> run_op op \<lparr>pool = base, clock = now, faults = fs\<rparr> = (r, \<lparr>pool = db, clock = now, faults = []\<rparr>)"
    using assms [unfolded halfway_def, rule_format, of "[]"] by simp
  show "pool (snd (run_op op \<lparr>pool = base, clock = now, faults = fs @ [Some e]\<rparr>)) = db"
    using assms [unfolded halfway_def, rule_format, of "[Some e]"] by (cases p) (simp_all add: db_call_def)
qed

lemma serial_result_more: "serial_result db0 c op r \<Longrightarrow> history c' = history c @ h \<Longrightarrow> serial_result db0 c' op r"
  unfolding serial_result_def by force

lemma lock_inv_holding:
  assumes "lock_inv db0 c" and "tasks c i = Some (Holding op now fs p)"
  shows "write_lock c = Some i" and "halfway (serial (history c) db0) op now fs p (committed c)"
  using assms unfolding lock_inv_def by blast+

lemma lock_inv_finished: "lock_inv db0 c \<Longrightarrow> tasks c i = Some (Finished op r) \<Longrightarrow> serial_result db0 c op r"
  unfolding lock_inv_def by blast

lemma lock_inv_owner:
  "lock_inv db0 c \<Longrightarrow> write_lock c = Some i \<Longrightarrow> \<exists>op now fs p. tasks c i = Some (Holding op now fs p)"
  unfolding lock_inv_def by blast

text \<open>The two shapes of a step: the holder goes on, or the lock is given back.\<close>

lemma lock_inv_holdI:
  assumes inv: "lock_inv db0 c" and free: "write_lock c = None \<or> write_lock c = Some i"
    and half: "halfway (serial (history c) db0) op now fs p (committed c')"
    and c': "tasks c' = (tasks c)(i \<mapsto> Holding op now fs p)" "write_lock c' = Some i" "history c' = history c"
  shows "lock_inv db0 c'"
proof -
  have other: "tasks c j \<noteq> Some (Holding op' now' fs' p')" if "j \<noteq> i" for j op' now' fs' p'
    using lock_inv_holding(1) [OF inv, of j] free that by auto
  have results: "serial_result db0 c' op' r" if "j \<noteq> i" "tasks c j = Some (Finished op' r)" for j op' r
    using lock_inv_finished [OF inv that(2)] serial_result_more [of db0 c op' r c' "[]"] c'(3) by simp
  show ?thesis unfolding lock_inv_def c'(2,3)
    using other results half c'(1) by simp
qed

lemma lock_inv_freeI:
  assumes inv: "lock_inv db0 c" and own: "write_lock c = Some i"
    and base: "committed c' = serial (history c') db0"
    and result: "\<And>op r. x = Some (Finished op r) \<Longrightarrow> serial_result db0 c' op r"
    and none: "\<And>op now fs p. x \<noteq> Some (Holding op now fs p)"
    and c': "tasks c' = (tasks c)(i := x)" "write_lock c' = None" "history c' = history c @ h"
  shows "lock_inv db0 c'"
proof -
  have other: "tasks c j \<noteq> Some (Holding op' now' fs' p')" if "j \<noteq> i" for j op' now' fs' p'
    using lock_inv_holding(1) [OF inv, of j] own that by auto
  have results: "serial_result db0 c' op' r" if "tasks c j = Some (Finished op' r)" for j op' r
    using lock_inv_finished [OF inv that] serial_result_more [of db0 c op' r c' h] c'(3) by simp
  show ?thesis unfolding lock_inv_def c'(2)
    using other results base result none c'(1) by simp
qed

lemma lock_step_inv: "lock_step c c' \<Longrightarrow> lock_inv db0 c \<Longrightarrow> lock_inv db0 c'"
proof (induction rule: lock_step.induct)
  case (arrive c i op)
  have "write_lock c \<noteq> Some i" using lock_inv_owner [OF arrive(2)] arrive(1) by fastforce
  then show ?case using arrive by (simp add: lock_inv_def serial_result_def)
next
  case (lock c i op now)
  then have "halfway (serial (history c) db0) op now [] (op now) (committed c)"
    by (simp add: lock_inv_def halfway_def run_op_def)
  then show ?case by (intro lock_inv_holdI [OF lock(3)]) (simp_all add: lock(2))
next
  case (call c i op now fs f db rest)
  note held = lock_inv_holding [OF call(3,1)]
  show ?case by (rule lock_inv_holdI [OF call(3)]) (use halfway_call(1) [OF held(2) call(2)] held(1) in simp_all)
next
  case (call_fails c i op now fs f e)
  note held = lock_inv_holding [OF call_fails(2,1)]
  show ?case by (rule lock_inv_holdI [OF call_fails(2)]) (use halfway_call(2) [OF held(2)] held(1) in simp_all)
next
  case (unlock c i op now fs r)
  note held = lock_inv_holding [OF unlock(2,1)]
  note run = halfway_pool(1) [OF held(2) refl]
  have "serial_result db0 (c\<lparr>write_lock := None, tasks := (tasks c)(i \<mapsto> Finished op r),
      history := history c @ [(op, now, fs)]\<rparr>) op r"
    unfolding serial_result_def
    by (intro exI [of _ "history c"] exI [of _ now] exI [of _ fs] exI [of _ "[]"]) (simp add: run)
  then show ?case
    by (intro lock_inv_freeI [OF unlock(2) held(1)]) (simp_all add: serial_append run)
next
  case (dropped_waiting c i op)
  have "write_lock c \<noteq> Some i" using lock_inv_owner [OF dropped_waiting(2)] dropped_waiting(1) by fastforce
  then show ?case using dropped_waiting by (simp add: lock_inv_def serial_result_def)
next
  case (dropped_holding c i op now fs p)
  note held = lock_inv_holding [OF dropped_holding(2,1)]
  show ?case
    by (rule lock_inv_freeI [OF dropped_holding(2) held(1)])
      (simp_all add: serial_append halfway_pool(2) [OF held(2)])
qed

lemma run_inv: "lock_step\<^sup>*\<^sup>* (opened_conf db0) c \<Longrightarrow> lock_inv db0 c"
  by (induction rule: rtranclp_induct) (auto intro: lock_inv_start lock_step_inv)

text \<open>A run of two tasks: the second waits while the first prunes, and gets the lock after it.\<close>

lemma sample_lock_run:
  defines "first \<equiv> prune_accounts_op (from_secs 60)" and "second \<equiv> prune_accounts_op (from_secs 30)"
  obtains c c' where "lock_step\<^sup>*\<^sup>* (opened_conf empty_tables) c" and "write_lock c = None"
    and "tasks c 0 = Some (Finished first (Inr Unit))" and "tasks c 1 = Some (Waiting second)"
    and "dom (tasks c) = {0, 1}" and "lock_step\<^sup>*\<^sup>* (opened_conf empty_tables) c'"
    and "tasks c' 1 = Some (Holding second 6000000 [] (second 6000000))"
proof -
  let ?c0 = "opened_conf empty_tables" and ?db = "sql_delete_old_accounts (cutoff_ms 5000000 (from_secs 60)) empty_tables"
  define c1 where "c1 = ?c0\<lparr>tasks := (tasks ?c0)(0 \<mapsto> Waiting first)\<rparr>"
  define c2 where "c2 = c1\<lparr>tasks := (tasks c1)(1 \<mapsto> Waiting second)\<rparr>"
  define c3 where "c3 = c2\<lparr>write_lock := Some 0, tasks := (tasks c2)(0 \<mapsto> Holding first 5000000 [] (first 5000000))\<rparr>"
  define c4 where "c4 = c3\<lparr>committed := ?db, tasks := (tasks c3)(0 \<mapsto> Holding first 5000000 ([] @ [None]) (Done (Inr Unit)))\<rparr>"
  define c5 where "c5 = c4\<lparr>write_lock := None, tasks := (tasks c4)(0 \<mapsto> Finished first (Inr Unit)),
      history := history c4 @ [(first, 5000000, [] @ [None])]\<rparr>"
  define c6 where "c6 = c5\<lparr>write_lock := Some 1, tasks := (tasks c5)(1 \<mapsto> Holding second 6000000 [] (second 6000000))\<rparr>"
  have steps: "lock_step ?c0 c1" unfolding c1_def by (rule lock_step.arrive) (simp add: opened_conf_def)
  moreover have "lock_step c1 c2"
    unfolding c2_def by (rule lock_step.arrive) (simp add: c1_def opened_conf_def)
  moreover have "lock_step c2 c3"
    unfolding c3_def by (rule lock_step.lock) (simp_all add: c1_def c2_def opened_conf_def)
  moreover have "lock_step c3 c4"
    unfolding c4_def
    by (rule lock_step.call [where f = "\<lambda>db. (sql_delete_old_accounts (cutoff_ms 5000000 (from_secs 60)) db, Done (Inr Unit))"])
      (simp_all add: c1_def c2_def c3_def opened_conf_def first_def prune_accounts_op_def call_pool_def)
  moreover have "lock_step c4 c5" unfolding c5_def by (rule lock_step.unlock) (simp add: c4_def)
  ultimately have run: "lock_step\<^sup>*\<^sup>* ?c0 c5" by (meson converse_rtranclp_into_rtranclp r_into_rtranclp)
  have "lock_step c5 c6"
    unfolding c6_def by (rule lock_step.lock) (simp_all add: c1_def c2_def c3_def c4_def c5_def)
  with run have run': "lock_step\<^sup>*\<^sup>* ?c0 c6" by simp
  have "dom (tasks c5) = {0, 1}" by (auto simp: c1_def c2_def c3_def c4_def c5_def opened_conf_def split: if_splits)
  then show thesis by (rule that [OF run _ _ _ _ run', rotated 3]) (simp_all add: c1_def c2_def c3_def c4_def c5_def c6_def)
qed

text \<open>
  C11. Under the write lock every interleaving is equivalent to running the operations one after
  another, in the order in which they gave the lock back. However the calls of concurrent requests,
  messages and prunes are interleaved, whichever of them fail and whichever tasks are dropped on the
  way: whenever the lock is free the committed tables are those of the serial run, and every task
  that finished got the result its operation has in that run. So no update is lost, and a
  transaction commits onto the very tables it read.
\<close>

theorem write_lock_serializes:
  assumes "lock_step\<^sup>*\<^sup>* (opened_conf db0) c"
  shows "(write_lock c = None \<longrightarrow> committed c = serial (history c) db0) \<and>
     (\<forall>i op r. tasks c i = Some (Finished op r) \<longrightarrow>
        (\<exists>before now fs after. history c = before @ (op, now, fs) # after \<and>
           r = fst (run_op op \<lparr>pool = serial before db0, clock = now, faults = fs\<rparr>)))"
  using run_inv [OF assms] unfolding lock_inv_def serial_result_def by blast

theorem write_lock_serializes_witness:
  "\<exists>c :: conf. tasks c 0 = Some (Finished (prune_accounts_op (from_secs 60)) (Inr Unit)) \<and>
     tasks c 1 = Some (Waiting (prune_accounts_op (from_secs 30))) \<and>
     committed c = serial (history c) empty_tables \<and>
     (\<exists>before now fs after. history c = before @ (prune_accounts_op (from_secs 60), now, fs) # after \<and>
        Inr Unit = fst (run_op (prune_accounts_op (from_secs 60))
          \<lparr>pool = serial before empty_tables, clock = now, faults = fs\<rparr>))"
proof -
  obtain c where c: "lock_step\<^sup>*\<^sup>* (opened_conf empty_tables) c" "write_lock c = None"
    "tasks c 0 = Some (Finished (prune_accounts_op (from_secs 60)) (Inr Unit))"
    "tasks c 1 = Some (Waiting (prune_accounts_op (from_secs 30)))"
    by (rule sample_lock_run)
  show ?thesis using write_lock_serializes [OF c(1)] c(2-4) by blast
qed

text \<open>
  Mutual exclusion: at most one task is between taking the write lock and giving it back, and it
  is the one the lock names.
\<close>

lemma write_lock_excludes:
  assumes "lock_step\<^sup>*\<^sup>* (opened_conf db0) c"
    and "tasks c i = Some (Holding op now fs p)" and "tasks c j = Some (Holding op' now' fs' p')"
  shows "i = j \<and> write_lock c = Some i"
  using lock_inv_holding(1) [OF run_inv [OF assms(1)] assms(2)]
    lock_inv_holding(1) [OF run_inv [OF assms(1)] assms(3)] by simp

end
