(* ===== verification/Plans.thy ===== *)
theory Plans
  imports System Write_Lock
begin

text \<open>
  What the service does for a request, a message or a prune, as a plan: answer at once, make one query on the
  pool, or run one operation of the store under its write lock and answer from its result. The plans follow
  \<open>src/bundle.rs\<close>, \<open>src/handlers.rs\<close>, \<open>src/handlers/*\<close> and \<open>src/delivery.rs\<close> up to the awaits of the store;
  run with nothing in between, they are the handlers and the ingest functions of theories \<open>Handlers\<close> and
  \<open>Delivery\<close>. Theory \<open>Linearization\<close> runs them concurrently.
\<close>

section \<open>Plans\<close>

datatype 'o plan =
    Reply 'o
  | Query "anyhow + tables \<Rightarrow> 'o"
  | Update operation "anyhow + write_result \<Rightarrow> 'o"

primrec map_plan_out :: "('o \<Rightarrow> 'p) \<Rightarrow> 'o plan \<Rightarrow> 'p plan" where
  "map_plan_out f (Reply out) = Reply (f out)"
| "map_plan_out f (Query k) = Query (\<lambda>r. f (k r))"
| "map_plan_out f (Update op k) = Update op (\<lambda>r. f (k r))"

primrec run_plan :: "'o plan \<Rightarrow> store \<Rightarrow> 'o \<times> store" where
  "run_plan (Reply out) = (\<lambda>s. (out, s))"
| "run_plan (Query k) = (\<lambda>s. case fetch_pool id s of (r, t) \<Rightarrow> (k r, t))"
| "run_plan (Update op k) = (\<lambda>s. case run_op op s of (r, t) \<Rightarrow> (k r, t))"

section \<open>Applying a bundle or a log\<close>

definition keypackage_plan :: "deps \<Rightarrow> Bundle \<Rightarrow> (bundle_error + unit) plan" where
  "keypackage_plan d b =
     (case verify d b of
        Inl e \<Rightarrow> Reply (Inl e)
      | Inr _ \<Rightarrow> Update (insert_op (key_hex d b) \<lparr>skp_payload = bpayload b, skp_signature = bsignature b\<rparr>)
          (\<lambda>r. case r of Inl e \<Rightarrow> Inl (Internal e) | Inr _ \<Rightarrow> Inr ()))"

definition account_plan :: "deps \<Rightarrow> Bundle \<Rightarrow> (bundle_error + unit) plan" where
  "account_plan d b =
     (case verify d b of
        Inl e \<Rightarrow> Reply (Inl e)
      | Inr _ \<Rightarrow>
     (case payload_lamport (bpayload b) of
        None \<Rightarrow> Reply (Inl (Invalid ''payload: too short to contain a lamport header''))
      | Some lamport \<Rightarrow>
          Update (upsert_account_op (key_hex d b) lamport
              \<lparr>sab_payload = bpayload b, sab_signature = bsignature b, sab_updated_at = 0\<rparr>)
            (\<lambda>r. case r of Inl e \<Rightarrow> Inl (Internal e)
              | Inr applied \<Rightarrow> if applied = Flag False then Inl Stale else Inr ())))"

definition log_plan :: "('a, 's, 'r) account_log_api \<Rightarrow> 'a \<Rightarrow> 's \<Rightarrow> (bundle_error + unit) plan" where
  "log_plan api addr slog =
     (case record_new api addr slog of
        Inl SignatureInvalid \<Rightarrow> Reply (Inl (Invalid ''signature: verification failed''))
      | Inl err \<Rightarrow> Reply (Inl (MalformedLog err))
      | Inr candidate \<Rightarrow>
          Update (put_account_log_op api candidate)
            (\<lambda>r. case r of
               Inl e \<Rightarrow> Inl (Internal e)
             | Inr (Compared result) \<Rightarrow>
                 (case result of
                    Updated \<Rightarrow> Inr ()
                  | Unchanged Identical \<Rightarrow> Inr ()
                  | Unchanged Behind \<Rightarrow> Inl Stale
                  | Unchanged Diverged \<Rightarrow> Inl Forked
                  | other \<Rightarrow> Inl (Internal (AnyMsg (''unexpected account log outcome: '' @ debug_outcome api other))))
             | Inr _ \<Rightarrow> Inr ()))"

section \<open>Requests\<close>

text \<open>The response to a submission, and to a fetch that found something or nothing.\<close>

definition submitted :: "deps \<Rightarrow> ('a, 's, 'r) account_log_api \<Rightarrow> bundle_error + unit \<Rightarrow> response" where
  "submitted d api r =
     (case r of Inl e \<Rightarrow> into_response (api_error_from d api e) | Inr _ \<Rightarrow> status_only NO_CONTENT)"

definition fetched :: "string \<Rightarrow> ('x \<Rightarrow> response) \<Rightarrow> (tables \<Rightarrow> 'x option) \<Rightarrow> response plan" where
  "fetched missing found query = Query (\<lambda>r.
     case r of
       Inl e \<Rightarrow> into_response (internal e)
     | Inr db \<Rightarrow> (case query db of None \<Rightarrow> into_response (not_found missing) | Some x \<Rightarrow> found x))"

definition submit_key_package_plan ::
  "deps \<Rightarrow> ('a, 's, 'r) account_log_api \<Rightarrow> submit_key_package_request \<Rightarrow> response plan" where
  "submit_key_package_plan d api body = map_plan_out (submitted d api)
     (case decode_key_package d body of Inl e \<Rightarrow> Reply (Inl e) | Inr b \<Rightarrow> keypackage_plan d b)"

definition fetch_key_package_plan :: "deps \<Rightarrow> string \<Rightarrow> response plan" where
  "fetch_key_package_plan d device_id =
     fetched ''no keypackage for device''
       (\<lambda>r. \<lparr>resp_status = OK, resp_headers = [], resp_body = KeyPackageBody
          \<lparr>fkp_payload = b64_encode d (kp_payload r), fkp_signature = b64_encode d (kp_signature r)\<rparr>\<rparr>)
       (sql_latest_keypackage device_id)"

definition submit_account_v0_plan ::
  "deps \<Rightarrow> ('a, 's, 'r) account_log_api \<Rightarrow> submit_account_request \<Rightarrow> response plan" where
  "submit_account_v0_plan d api body = map_plan_out (submitted d api)
     (case decode_account d body of Inl e \<Rightarrow> Reply (Inl e) | Inr b \<Rightarrow> account_plan d b)"

definition fetch_account_v0_plan :: "deps \<Rightarrow> string \<Rightarrow> response plan" where
  "fetch_account_v0_plan d account_pub =
     fetched ''no account bundle for account_pub''
       (\<lambda>r. \<lparr>resp_status = OK, resp_headers = [], resp_body = AccountBody
          \<lparr>fac_payload = b64_encode d (ab_payload r), fac_signature = b64_encode d (ab_signature r),
           fac_updated_at = ab_updated_at r\<rparr>\<rparr>)
       (sql_select_account account_pub)"

definition submit_account_v1_plan ::
  "deps \<Rightarrow> ('a, 's, 'r) account_log_api \<Rightarrow> string \<Rightarrow> bytes \<Rightarrow> response plan" where
  "submit_account_v1_plan d api account_addr body = map_plan_out (submitted d api)
     (case parse_addr api account_addr of Inl e \<Rightarrow> Reply (Inl e) | Inr addr \<Rightarrow>
     (case signed_from_bytes api body of Inl e \<Rightarrow> Reply (Inl (MalformedLog e)) | Inr slog \<Rightarrow> log_plan api addr slog))"

definition fetch_account_v1_plan :: "deps \<Rightarrow> ('a, 's, 'r) account_log_api \<Rightarrow> string \<Rightarrow> response plan" where
  "fetch_account_v1_plan d api account_addr =
     (case parse_addr api account_addr of
        Inl e \<Rightarrow> Reply (into_response (api_error_from d api e))
      | Inr addr \<Rightarrow>
          fetched ''no account log for account_addr''
            (\<lambda>r. \<lparr>resp_status = OK, resp_headers = [(''content-type'', ''application/octet-stream'')],
                   resp_body = RawBody (al_signed_log r)\<rparr>)
            (sql_select_log (addr_to_string api addr)))"

lemmas handler_plan_defs = submit_key_package_plan_def fetch_key_package_plan_def submit_account_v0_plan_def
  fetch_account_v0_plan_def submit_account_v1_plan_def fetch_account_v1_plan_def

text \<open>The handler a request is routed to; an extractor that fails answers at once.\<close>

definition endpoint_plan ::
  "axum \<Rightarrow> deps \<Rightarrow> ('a, 's, 'r) account_log_api \<Rightarrow> endpoint \<Rightarrow> string \<Rightarrow> request \<Rightarrow> response plan" where
  "endpoint_plan ax d api ep param req =
     (case ep of
        SubmitKeyPackage \<Rightarrow>
          (case extract_key_package ax req of Inl r \<Rightarrow> Reply r | Inr body \<Rightarrow> submit_key_package_plan d api body)
      | FetchKeyPackage \<Rightarrow> fetch_key_package_plan d param
      | SubmitAccountV0 \<Rightarrow>
          (case extract_account ax req of Inl r \<Rightarrow> Reply r | Inr body \<Rightarrow> submit_account_v0_plan d api body)
      | FetchAccountV0 \<Rightarrow> fetch_account_v0_plan d param
      | SubmitAccountV1 \<Rightarrow>
          (case extract_bytes ax req of Inl r \<Rightarrow> Reply r | Inr body \<Rightarrow> submit_account_v1_plan d api param body)
      | FetchAccountV1 \<Rightarrow> fetch_account_v1_plan d api param)"

definition request_plan ::
  "axum \<Rightarrow> deps \<Rightarrow> ('a, 's, 'r) account_log_api \<Rightarrow> request \<Rightarrow> response plan" where
  "request_plan ax d api req =
     (case select_route ax router req of
        Inl r \<Rightarrow> Reply r
      | Inr (ep, param) \<Rightarrow> endpoint_plan ax d api ep param req)"

section \<open>Messages\<close>

definition ingest_keypackage_plan ::
  "proto \<Rightarrow> deps \<Rightarrow> ('a, 's, 'r) account_log_api \<Rightarrow> bytes \<Rightarrow> log_line plan" where
  "ingest_keypackage_plan pb d api bytes =
     (case decode_kps pb bytes of
        Inl e \<Rightarrow> Reply (Warn [] (''keypackage bundle: invalid protobuf: '' @ e))
      | Inr wire \<Rightarrow>
     (case from_bytes (kps_device_id wire) (kps_payload wire) (kps_signature wire) of
        Inl e \<Rightarrow> Reply (Warn [] (''keypackage bundle rejected: '' @ display_bundle_error d api e))
      | Inr b \<Rightarrow> map_plan_out (\<lambda>r. case r of
            Inr _ \<Rightarrow> Debug [(''device_id'', key_hex d b)] ''stored keypackage from delivery''
          | Inl e \<Rightarrow> Warn [(''device_id'', key_hex d b)]
              (''keypackage bundle rejected: '' @ display_bundle_error d api e)) (keypackage_plan d b)))"

definition ingest_account_plan ::
  "proto \<Rightarrow> deps \<Rightarrow> ('a, 's, 'r) account_log_api \<Rightarrow> bytes \<Rightarrow> log_line plan" where
  "ingest_account_plan pb d api bytes =
     (case decode_acs pb bytes of
        Inl e \<Rightarrow> Reply (Warn [] (''account bundle: invalid protobuf: '' @ e))
      | Inr wire \<Rightarrow>
     (case from_bytes (acs_account_pub wire) (acs_payload wire) (acs_signature wire) of
        Inl e \<Rightarrow> Reply (Warn [] (''account bundle rejected: '' @ display_bundle_error d api e))
      | Inr b \<Rightarrow> map_plan_out (\<lambda>r. case r of
            Inr _ \<Rightarrow> Debug [(''account_pub'', key_hex d b)] ''stored account bundle from delivery''
          | Inl e \<Rightarrow> Warn [(''account_pub'', key_hex d b)]
              (''account bundle rejected: '' @ display_bundle_error d api e)) (account_plan d b)))"

definition message_plan ::
  "proto \<Rightarrow> deps \<Rightarrow> ('a, 's, 'r) account_log_api \<Rightarrow> received \<Rightarrow> log_line plan" where
  "message_plan pb d api received =
     (case received of
        KeyPackage bytes \<Rightarrow> ingest_keypackage_plan pb d api bytes
      | Account bytes \<Rightarrow> ingest_account_plan pb d api bytes)"

lemmas message_plan_defs = message_plan_def ingest_keypackage_plan_def ingest_account_plan_def

section \<open>Every action of the service\<close>

datatype reaction = Responded response | Logged log_line | Pruned "anyhow + unit"

definition plan_of :: "('a, 's, 'r) service \<Rightarrow> action \<Rightarrow> reaction plan" where
  "plan_of srv a =
     (case a of
        Http req \<Rightarrow> map_plan_out Responded (request_plan (web srv) (codecs srv) (account_log srv) req)
      | Deliver m \<Rightarrow> map_plan_out Logged (message_plan (protobuf srv) (codecs srv) (account_log srv) m)
      | PruneKeyPackages \<Rightarrow>
          Update (prune_key_packages_op (max_per_identity (config srv)) (retention (config srv)))
            (\<lambda>r. Pruned (map_sum id (\<lambda>_. ()) r))
      | PruneAccounts \<Rightarrow>
          Update (prune_accounts_op (retention (config srv))) (\<lambda>r. Pruned (map_sum id (\<lambda>_. ()) r)))"

text \<open>The same action as one step of theory \<open>System\<close>, with its output.\<close>

definition perform :: "('a, 's, 'r) service \<Rightarrow> action \<Rightarrow> store \<Rightarrow> reaction \<times> store" where
  "perform srv a s =
     (case a of
        Http req \<Rightarrow> map_prod Responded id (serve (web srv) (codecs srv) (account_log srv) req s)
      | Deliver m \<Rightarrow> map_prod Logged id (ingest (protobuf srv) (codecs srv) (account_log srv) m s)
      | PruneKeyPackages \<Rightarrow>
          map_prod Pruned id (prune_key_packages (max_per_identity (config srv)) (retention (config srv)) s)
      | PruneAccounts \<Rightarrow> map_prod Pruned id (prune_accounts (retention (config srv)) s))"

section \<open>The plans are the service\<close>

lemma run_map_plan_out: "run_plan (map_plan_out f p) s = map_prod f id (run_plan p s)"
  by (cases p) (auto split: prod.splits)

lemma run_keypackage_plan: "run_plan (keypackage_plan d b) s = apply_keypackage d b s"
  by (auto simp: keypackage_plan_def apply_keypackage_def run_insert_op map_ok_def map_err_def try_await_def lift_result_def
      split: sum.splits prod.splits)

lemma run_account_plan: "run_plan (account_plan d b) s = apply_account d b s"
  by (auto simp: account_plan_def apply_account_def run_upsert_account_op map_ok_def map_err_def try_await_def lift_result_def
      ok_def fail_def split: sum.splits prod.splits option.splits)

lemma run_log_plan: "run_plan (log_plan api a slog) s = apply_account_log api a slog s"
  by (auto simp: log_plan_def apply_account_log_def run_put_account_log_op map_ok_def map_err_def try_await_def lift_result_def
      ok_def fail_def split: sum.splits prod.splits account_log_error.splits outcome.splits log_freshness.splits)

lemma map_submitted:
  "map_prod (submitted d api) id res =
     (case res of (Inl e, t) \<Rightarrow> (into_response (api_error_from d api e), t) | (Inr _, t) \<Rightarrow> (status_only NO_CONTENT, t))"
  by (cases res) (simp add: submitted_def split: sum.split)

lemma run_submits:
  "run_plan (submit_key_package_plan d api body) s = respond status_only (submit_key_package d api body) s"
  "run_plan (submit_account_v0_plan d api abody) s = respond status_only (submit_account_v0 d api abody) s"
  "run_plan (submit_account_v1_plan d api param raw) s = respond status_only (submit_account_v1 d api param raw) s"
  by (auto simp: handler_plan_defs run_map_plan_out map_submitted respond_def submit_key_package_run submit_account_v0_run
      submit_account_v1_run parse_addr_def answer_def submitted_def run_keypackage_plan run_account_plan run_log_plan
      api_error_from_def split: sum.splits option.splits prod.splits)

lemma run_fetches:
  "run_plan (fetch_key_package_plan d param) s =
     respond (\<lambda>b. \<lparr>resp_status = OK, resp_headers = [], resp_body = KeyPackageBody b\<rparr>) (fetch_key_package d param) s"
  "run_plan (fetch_account_v0_plan d param) s =
     respond (\<lambda>b. \<lparr>resp_status = OK, resp_headers = [], resp_body = AccountBody b\<rparr>) (fetch_account_v0 d param) s"
  "run_plan (fetch_account_v1_plan d api param) s =
     respond (\<lambda>(hs, b). \<lparr>resp_status = OK, resp_headers = hs, resp_body = RawBody b\<rparr>) (fetch_account_v1 d api param) s"
  by (auto simp: handler_plan_defs fetched_def fetch_key_package_def fetch_account_v0_def fetch_account_v1_def latest_def
      get_account_def get_account_log_def respond_def fetch_pool_def db_call_def try_await_def map_err_def ok_def fail_def
      lift_result_def split: sum.splits prod.splits option.splits list.splits)

lemma run_request_plan: "run_plan (request_plan ax d api req) s = serve ax d api req s"
proof -
  have "run_plan (endpoint_plan ax d api ep param req) s = call_endpoint ax d api ep param req s" for ep param
    by (cases ep) (simp_all add: endpoint_plan_def call_endpoint_def run_submits run_fetches split: sum.split)
  then show ?thesis by (simp add: request_plan_def serve_def split: sum.split prod.split)
qed

lemma run_message_plan: "run_plan (message_plan pb d api m) s = ingest pb d api m s"
  by (cases m) (auto simp: message_plan_defs ingest_def ingest_keypackage_def ingest_account_def run_map_plan_out
      run_keypackage_plan run_account_plan Let_def split: sum.splits prod.splits)

lemma run_plan_of: "run_plan (plan_of srv a) s = perform srv a s"
  by (cases a) (auto simp: plan_of_def perform_def run_map_plan_out run_request_plan run_message_plan run_prune_accounts_op
      run_prune_key_packages_op map_ok_def split: sum.splits prod.splits)

lemma step_perform: "step srv a s t \<longleftrightarrow> (\<exists>x. snd (perform srv a (at_instant x s)) = t)"
proof
  show "\<exists>x. snd (perform srv a (at_instant x s)) = t" if "step srv a s t"
    using that by cases (simp_all add: perform_def del: split_paired_Ex, (metis snd_conv)+)
  show "step srv a s t" if "\<exists>x. snd (perform srv a (at_instant x s)) = t"
    using that by (cases a) (auto simp: perform_def intro: step.intros [OF prod.collapse [symmetric]])
qed

end
