(* ===== verification/Traces.thy ===== *)
theory Traces
  imports Main
begin

text \<open>
  Machines with observable and internal steps, the traces of what is observed of their runs, and locale
  \<open>forward_simulation\<close>: a relation that lets every step of one machine be matched by a run of another
  with the same observation makes the traces of the one traces of the other. Theory \<open>Linearization\<close>
  interprets it for the service.
\<close>

section \<open>Runs and what is observed of them\<close>

text \<open>A step is labelled with what is observed of it, or with \<open>None\<close>.\<close>

type_synonym ('s, 'e) machine = "'s \<Rightarrow> 'e option \<Rightarrow> 's \<Rightarrow> bool"

inductive run :: "('s, 'e) machine \<Rightarrow> 's \<Rightarrow> 'e list \<Rightarrow> 's \<Rightarrow> bool" for M s where
  start: "run M s [] s"
| silent: "run M s tr t \<Longrightarrow> M t None u \<Longrightarrow> run M s tr u"
| observed: "run M s tr t \<Longrightarrow> M t (Some e) u \<Longrightarrow> run M s (tr @ [e]) u"

definition observation :: "'e option \<Rightarrow> 'e list" where
  "observation l = (case l of None \<Rightarrow> [] | Some e \<Rightarrow> [e])"

lemma observation_simps [simp]: "observation None = []" "observation (Some e) = [e]"
  by (simp_all add: observation_def)

lemma run_more: "run M s tr t \<Longrightarrow> M t l u \<Longrightarrow> run M s (tr @ observation l) u"
  by (cases l) (auto intro: run.silent run.observed)

lemma run_step: "M s l t \<Longrightarrow> run M s (observation l) t"
  using run_more [OF run.start, of M s l t] by simp

lemma run_append: "run M s tr t \<Longrightarrow> run M t tr' u \<Longrightarrow> run M s (tr @ tr') u"
  by (rotate_tac, induction rule: run.induct)
    (auto intro: run.silent run.observed simp flip: append_assoc)

lemma run_split: "run M s (tr @ tr') u \<Longrightarrow> \<exists>t. run M s tr t \<and> run M t tr' u"
proof (induction "tr @ tr'" u arbitrary: tr' rule: run.induct)
  case (observed tr0 t e u)
  show ?case
  proof (cases tr' rule: rev_cases)
    case Nil
    then show ?thesis using observed run.observed [OF observed(1,3)] run.start [of M u] by (metis append_Nil2)
  next
    case (snoc ys y)
    then show ?thesis using observed run.observed [of M _ ys] by (metis append_assoc append1_eq_conv)
  qed
qed (metis append_is_Nil_conv run.start, metis run.silent)

text \<open>A run with one observation: internal steps, the step observed, internal steps.\<close>

lemma run_observed:
  assumes "run M s [e] u"
  obtains s1 s2 where "run M s [] s1" and "M s1 (Some e) s2" and "run M s2 [] u"
proof -
  have "tr = [e] \<Longrightarrow> \<exists>s1 s2. run M s [] s1 \<and> M s1 (Some e) s2 \<and> run M s2 [] u" if "run M s tr u" for tr
    using that
  proof (induction rule: run.induct)
    case (silent tr t u)
    then show ?case by (blast intro: run.silent)
  next
    case (observed tr t x u)
    then show ?case using run.start by fastforce
  qed simp
  then show thesis using assms that by blast
qed

section \<open>Forward simulation\<close>

locale forward_simulation =
  fixes low :: "('s, 'e) machine" and high :: "('t, 'e) machine" and sim :: "'s \<Rightarrow> 't \<Rightarrow> bool"
  assumes matched: "sim s t \<Longrightarrow> low s l s' \<Longrightarrow> \<exists>t'. run high t (observation l) t' \<and> sim s' t'"
begin

lemma simulated:
  assumes "run low s tr s'" and "sim s t"
  obtains t' where "run high t tr t'" and "sim s' t'"
proof -
  have "\<exists>t'. run high t tr t' \<and> sim s' t'"
    using assms(1)
  proof (induction rule: run.induct)
    case start
    show ?case using assms(2) run.start [of high t] by (intro exI [of _ t] conjI)
  next
    case (silent tr s1 s2)
    then obtain t1 where t1: "run high t tr t1" "sim s1 t1" by blast
    obtain t2 where "run high t1 [] t2" "sim s2 t2" using matched [OF t1(2) silent(2)] by auto
    then show ?case using run_append [OF t1(1), of "[]" t2] by (intro exI [of _ t2]) simp
  next
    case (observed tr s1 e s2)
    then obtain t1 where t1: "run high t tr t1" "sim s1 t1" by blast
    obtain t2 where "run high t1 [e] t2" "sim s2 t2" using matched [OF t1(2) observed(2)] by auto
    then show ?case using run_append [OF t1(1), of "[e]" t2] by (intro exI [of _ t2] conjI)
  qed
  then show thesis by (elim exE conjE) (rule that)
qed

end

section \<open>Invariants of runs\<close>

lemma run_invariant:
  assumes "run M s tr t" and "P [] s"
    and "\<And>tr t l u. run M s tr t \<Longrightarrow> P tr t \<Longrightarrow> M t l u \<Longrightarrow> P (tr @ observation l) u"
  shows "P tr t"
  using assms(1)
proof (induction rule: run.induct)
  case (silent tr t u)
  then show ?case using assms(3) [of tr t None u] by simp
next
  case (observed tr t e u)
  then show ?case using assms(3) [of tr t "Some e" u] by simp
qed (rule assms(2))

end
