(* ===== verification/Linearization.thy ===== *)
theory Linearization
  imports Plans Traces
begin

text \<open>
  The service with everything it does at once. Requests, messages and prunes are jobs that run
  concurrently on the store: queries read the committed tables at any moment, the operations that write
  interleave call by call under the write lock of theory \<open>Write_Lock\<close>, and a job may be given up at any
  await. The theorems relate this machine to the specification in which each job takes effect in one step of
  theory \<open>System\<close>, at some moment between its invocation and its answer: the service is linearizable,
  every answer is one the service gives when it does one thing at a time, and every moment's tables are
  a reachable store's.
\<close>

section \<open>The concurrent service\<close>

datatype job = Running action | Responding reaction | Answered reaction | Abandoned

datatype event = Invoked nat action | Returned nat reaction

record world =
  locked :: conf
  jobs :: "nat \<Rightarrow> job option"

definition opened_world :: "tables \<Rightarrow> world" where
  "opened_world db = \<lparr>locked = opened_conf db, jobs = (\<lambda>_. None)\<rparr>"

text \<open>A task of the lock that is waiting for it or holds it.\<close>

definition engaged :: "task option \<Rightarrow> bool" where
  "engaged x \<longleftrightarrow> (\<exists>op. x = Some (Waiting op)) \<or> (\<exists>op now fs p. x = Some (Holding op now fs p))"

inductive concurrent_step :: "('a, 's, 'r) service \<Rightarrow> (world, event) machine" for srv where
  invoke: "jobs w i = None \<Longrightarrow>
    concurrent_step srv w (Some (Invoked i a)) (w\<lparr>jobs := (jobs w)(i \<mapsto> Running a)\<rparr>)"
| reply: "jobs w i = Some (Running a) \<Longrightarrow> plan_of srv a = Reply out \<Longrightarrow>
    concurrent_step srv w None (w\<lparr>jobs := (jobs w)(i \<mapsto> Responding out)\<rparr>)"
| query: "jobs w i = Some (Running a) \<Longrightarrow> plan_of srv a = Query k \<Longrightarrow>
    concurrent_step srv w None (w\<lparr>jobs := (jobs w)(i \<mapsto> Responding (k (Inr (committed (locked w)))))\<rparr>)"
| query_fails: "jobs w i = Some (Running a) \<Longrightarrow> plan_of srv a = Query k \<Longrightarrow>
    concurrent_step srv w None (w\<lparr>jobs := (jobs w)(i \<mapsto> Responding (k (Inl (AnySqlx e))))\<rparr>)"
| enqueue: "jobs w i = Some (Running a) \<Longrightarrow> plan_of srv a = Update op k \<Longrightarrow> tasks (locked w) i = None \<Longrightarrow>
    concurrent_step srv w None (w\<lparr>locked := (locked w)\<lparr>tasks := (tasks (locked w))(i \<mapsto> Waiting op)\<rparr>\<rparr>)"
| proceed: "lock_step (locked w) c \<Longrightarrow> dom (tasks c) = dom (tasks (locked w)) \<Longrightarrow>
    concurrent_step srv w None (w\<lparr>locked := c\<rparr>)"
| collect: "jobs w i = Some (Running a) \<Longrightarrow> plan_of srv a = Update op k \<Longrightarrow>
    tasks (locked w) i = Some (Finished op r) \<Longrightarrow>
    concurrent_step srv w None (w\<lparr>jobs := (jobs w)(i \<mapsto> Responding (k r))\<rparr>)"
| return: "jobs w i = Some (Responding out) \<Longrightarrow>
    concurrent_step srv w (Some (Returned i out)) (w\<lparr>jobs := (jobs w)(i \<mapsto> Answered out)\<rparr>)"
| abandon: "jobs w i = Some (Running a) \<or> jobs w i = Some (Responding out) \<Longrightarrow> \<not> engaged (tasks (locked w) i) \<Longrightarrow>
    concurrent_step srv w None (w\<lparr>jobs := (jobs w)(i \<mapsto> Abandoned)\<rparr>)"
| abandon_write: "jobs w i = Some (Running a) \<Longrightarrow> engaged (tasks (locked w) i) \<Longrightarrow> lock_step (locked w) c \<Longrightarrow>
    tasks c = (tasks (locked w))(i := None) \<Longrightarrow>
    concurrent_step srv w None (w\<lparr>locked := c, jobs := (jobs w)(i \<mapsto> Abandoned)\<rparr>)"

section \<open>The specification\<close>

text \<open>
  A job takes effect in one step. Only the prune of the keypackages, which deletes in two statements without a
  transaction, may do so in two, once each: first it deletes what is too old, as a prune that fails at its second
  statement would, then it goes on at the instant it read before, with the first statement done. \<open>halved\<close> has the
  prunes between the two, with that instant.
\<close>

record atomic =
  data :: store
  calls :: "nat \<Rightarrow> job option"
  halved :: "nat \<Rightarrow> system_time option"

definition opened_atomic :: "tables \<Rightarrow> atomic" where
  "opened_atomic db = \<lparr>data = \<lparr>pool = db, clock = 0, faults = []\<rparr>, calls = (\<lambda>_. None), halved = (\<lambda>_. None)\<rparr>"

inductive atomic_step :: "('a, 's, 'r) service \<Rightarrow> (atomic, event) machine" for srv where
  invoke: "calls u i = None \<Longrightarrow>
    atomic_step srv u (Some (Invoked i a)) (u\<lparr>calls := (calls u)(i \<mapsto> Running a)\<rparr>)"
| effect: "calls u i = Some (Running a) \<Longrightarrow> halved u i = None \<Longrightarrow> perform srv a (at_instant x (data u)) = (out, t) \<Longrightarrow>
    atomic_step srv u None (u\<lparr>data := t, calls := (calls u)(i \<mapsto> Responding out)\<rparr>)"
| first_half: "calls u i = Some (Running PruneKeyPackages) \<Longrightarrow> halved u i = None \<Longrightarrow>
    perform srv PruneKeyPackages (at_instant (now, [None, Some e]) (data u)) = (out, t) \<Longrightarrow>
    atomic_step srv u None (u\<lparr>data := t, halved := (halved u)(i \<mapsto> now)\<rparr>)"
| second_half: "calls u i = Some (Running PruneKeyPackages) \<Longrightarrow> halved u i = Some now \<Longrightarrow>
    perform srv PruneKeyPackages (at_instant (now, None # fs) (data u)) = (out, t) \<Longrightarrow>
    atomic_step srv u None (u\<lparr>data := t, calls := (calls u)(i \<mapsto> Responding out)\<rparr>)"
| return: "calls u i = Some (Responding out) \<Longrightarrow>
    atomic_step srv u (Some (Returned i out)) (u\<lparr>calls := (calls u)(i \<mapsto> Answered out)\<rparr>)"
| abandon: "calls u i = Some (Running a) \<or> calls u i = Some (Responding out) \<Longrightarrow>
    atomic_step srv u None (u\<lparr>calls := (calls u)(i \<mapsto> Abandoned)\<rparr>)"

section \<open>Operations that commit with their last call\<close>

inductive commits_last :: "prog \<Rightarrow> bool" where
  "commits_last (Done r)"
| "(\<And>db. commits_last (snd (f db)) \<and> ((\<exists>r. snd (f db) = Done r) \<or> fst (f db) = db)) \<Longrightarrow> commits_last (Call f)"

inductive_simps commits_last_Call: "commits_last (Call f)"

lemma commits_last_calls [simp]:
  "commits_last (Done r)"
  "commits_last (call_pool stmt (Done r))"
  "commits_last (call_tx p) = commits_last p"
  "commits_last (call_begin g) = (\<forall>db. commits_last (g db))"
  "commits_last (call_commit tx (Done r))"
  by (auto simp: commits_last_Call call_pool_def call_tx_def call_begin_def call_commit_def commits_last.intros
      split: option.split)

lemma ops_commit_last:
  "commits_last (insert_op dev b now)"
  "commits_last (upsert_account_op k l ab now)"
  "commits_last (put_account_log_op api c now)"
  "commits_last (prune_accounts_op window now)"
  by (simp_all add: insert_op_def upsert_account_op_def put_account_log_op_decision prune_accounts_op_def Let_def
      split: sum.split)

lemma map_plan_out_Update: "map_plan_out f p = Update op k \<longleftrightarrow> (\<exists>k'. p = Update op k' \<and> k = (\<lambda>r. f (k' r)))"
  by (cases p) auto

lemma write_plans:
  "keypackage_plan d b = Update op k \<Longrightarrow> commits_last (op now)"
  "account_plan d b = Update op k \<Longrightarrow> commits_last (op now)"
  "log_plan api a slog = Update op k \<Longrightarrow> commits_last (op now)"
  by (auto simp: keypackage_plan_def account_plan_def log_plan_def ops_commit_last
      split: sum.splits option.splits account_log_error.splits)

lemma plan_commits_last:
  assumes "plan_of srv a = Update op k" and "a \<noteq> PruneKeyPackages"
  shows "commits_last (op now)"
proof (cases a)
  case (Http req)
  obtain k' where "request_plan (web srv) (codecs srv) (account_log srv) req = Update op k'"
    using assms(1) by (auto simp: plan_of_def Http map_plan_out_Update)
  then show ?thesis
    by (auto simp: request_plan_def endpoint_plan_def handler_plan_defs fetched_def map_plan_out_Update
        split: sum.splits prod.splits endpoint.splits dest: write_plans [where now = now])
next
  case (Deliver m)
  obtain k' where "message_plan (protobuf srv) (codecs srv) (account_log srv) m = Update op k'"
    using assms(1) by (auto simp: plan_of_def Deliver map_plan_out_Update)
  then show ?thesis
    by (auto simp: message_plan_defs map_plan_out_Update split: sum.splits received.splits dest: write_plans [where now = now])
qed (use assms in \<open>auto simp: plan_of_def ops_commit_last\<close>)

section \<open>Simulation\<close>

text \<open>
  A job that holds the lock has not taken effect as long as calls are left: the rest of its operation, on the
  tables as they are now, is the whole operation run on them. Of a prune that has made its first call this holds too,
  since deleting what is too old once more deletes nothing.
\<close>

definition resumes ::
  "action \<Rightarrow> operation \<Rightarrow> system_time \<Rightarrow> sqlx_error option list \<Rightarrow> prog \<Rightarrow> tables \<Rightarrow> system_time option \<Rightarrow> bool" where
  "resumes a op now fs p db h \<longleftrightarrow>
     halfway db op now fs p db \<and>
     (case h of
        None \<Rightarrow> commits_last p \<and> a \<noteq> PruneKeyPackages \<or> a = PruneKeyPackages \<and> fs = [] \<and> p = op now
      | Some read \<Rightarrow> read = now \<and> a = PruneKeyPackages \<and> fs = [None] \<and> (\<forall>f db. p = Call f \<longrightarrow> (\<exists>r. snd (f db) = Done r)))"

definition matches :: "('a, 's, 'r) service \<Rightarrow> conf \<Rightarrow> nat \<Rightarrow> job option \<Rightarrow> job option \<Rightarrow> system_time option \<Rightarrow> bool" where
  "matches srv c i j j' h \<longleftrightarrow>
     (case j of
        None \<Rightarrow> j' = None \<and> tasks c i = None \<and> h = None
      | Some (Running a) \<Rightarrow>
          (case tasks c i of
             None \<Rightarrow> j' = j \<and> h = None
           | Some (Waiting op) \<Rightarrow> j' = j \<and> h = None \<and> (\<exists>k. plan_of srv a = Update op k)
           | Some (Holding op now fs p) \<Rightarrow> \<exists>k. plan_of srv a = Update op k \<and>
               (case p of Done r \<Rightarrow> j' = Some (Responding (k r)) | Call f \<Rightarrow> j' = j \<and> resumes a op now fs p (committed c) h)
           | Some (Finished op r) \<Rightarrow> \<exists>k. plan_of srv a = Update op k \<and> j' = Some (Responding (k r)))
      | _ \<Rightarrow> j' = j \<and> \<not> engaged (tasks c i))"

definition simulates :: "('a, 's, 'r) service \<Rightarrow> tables \<Rightarrow> world \<Rightarrow> atomic \<Rightarrow> bool" where
  "simulates srv db0 w u \<longleftrightarrow>
     lock_inv db0 (locked w) \<and> pool (data u) = committed (locked w) \<and>
     (\<forall>i. matches srv (locked w) i (jobs w i) (calls u i) (halved u i))"

lemma simulatesD:
  assumes "simulates srv db0 w u"
  shows "lock_inv db0 (locked w)" and "pool (data u) = committed (locked w)"
    and "matches srv (locked w) i (jobs w i) (calls u i) (halved u i)"
  using assms by (simp_all add: simulates_def)

lemma matches_cong:
  "tasks c' i = tasks c i \<Longrightarrow> committed c' = committed c \<or> \<not> (\<exists>op now fs p. tasks c i = Some (Holding op now fs p)) \<Longrightarrow>
     matches srv c' i j j' h = matches srv c i j j' h"
  by (erule disjE, simp only: matches_def, simp add: matches_def split: option.split job.split task.split)

text \<open>A step that concerns one job: the others match as before.\<close>

lemma simulatesI:
  assumes "simulates srv db0 w u" and "lock_inv db0 (locked w')" and "pool (data u') = committed (locked w')"
    and "matches srv (locked w') i (jobs w' i) (calls u' i) (halved u' i)"
    and "\<And>j. j \<noteq> i \<Longrightarrow> jobs w' j = jobs w j \<and> calls u' j = calls u j \<and> halved u' j = halved u j \<and>
      tasks (locked w') j = tasks (locked w) j"
    and "committed (locked w') = committed (locked w) \<or> write_lock (locked w) = Some i"
  shows "simulates srv db0 w' u'"
proof -
  have "matches srv (locked w') j (jobs w' j) (calls u' j) (halved u' j)" if "j \<noteq> i" for j
  proof -
    have "write_lock (locked w) = Some j" if "tasks (locked w) j = Some (Holding op now fs p)" for op now fs p
      using lock_inv_holding(1) [OF simulatesD(1) [OF assms(1)] that] .
    then have "matches srv (locked w') j (jobs w j) (calls u j) (halved u j) = matches srv (locked w) j (jobs w j) (calls u j) (halved u j)"
      using assms(5) [OF that] assms(6) that by (intro matches_cong) auto
    then show ?thesis using simulatesD(3) [OF assms(1), of j] assms(5) [OF that] by simp
  qed
  then show ?thesis using assms(2-4) unfolding simulates_def by metis
qed

lemma at_instant_data: "pool (data u) = db \<Longrightarrow> at_instant (now, fs) (data u) = \<lparr>pool = db, clock = now, faults = fs\<rparr>"
  by (cases "data u") (simp add: at_instant_def)

text \<open>The moment a writing job takes effect: its last call.\<close>

lemma takes_effect:
  assumes job: "calls u i = Some (Running a)" and plan: "plan_of srv a = Update op k"
    and half: "halfway (pool (data u)) op now fs (Done r) db"
    and h: "halved u i = None \<or> halved u i = Some now \<and> a = PruneKeyPackages \<and> (\<exists>gs. fs = None # gs)"
  shows "atomic_step srv u None (u\<lparr>data := \<lparr>pool = db, clock = now, faults = []\<rparr>, calls := (calls u)(i \<mapsto> Responding (k r))\<rparr>)"
proof -
  have run: "perform srv a (at_instant (now, fs) (data u)) = (k r, \<lparr>pool = db, clock = now, faults = []\<rparr>)"
    unfolding run_plan_of [symmetric] plan at_instant_data [OF refl]
    using halfway_pool(1) [OF half refl] by simp
  from h show ?thesis
  proof (elim disjE conjE exE)
    assume "halved u i = None"
    then show ?thesis by (rule atomic_step.effect [OF job _ run])
  next
    fix gs assume "halved u i = Some now" "a = PruneKeyPackages" "fs = None # gs"
    then show ?thesis using atomic_step.second_half [of u i now srv gs] job run by simp
  qed
qed

lemma matches_holding:
  assumes "matches srv c i j j' h" and "tasks c i = Some (Holding op now fs p)"
  obtains a k where "j = Some (Running a)" and "plan_of srv a = Update op k"
    and "\<And>r. p = Done r \<Longrightarrow> j' = Some (Responding (k r))"
    and "\<And>f. p = Call f \<Longrightarrow> j' = j \<and> resumes a op now fs p (committed c) h"
proof -
  from assms obtain a k where "j = Some (Running a)" and "plan_of srv a = Update op k"
    and "case p of Done r \<Rightarrow> j' = Some (Responding (k r)) | Call f \<Rightarrow> j' = j \<and> resumes a op now fs p (committed c) h"
    by (auto simp: matches_def engaged_def split: option.splits job.splits)
  then show thesis by (intro that) (auto split: prog.splits)
qed

lemma matches_waiting:
  assumes "matches srv c i j j' h" and "tasks c i = Some (Waiting op)"
  obtains a k where "j = Some (Running a)" and "j' = Some (Running a)" and "plan_of srv a = Update op k" and "h = None"
  using assms by (auto simp: matches_def engaged_def split: option.splits job.splits)

text \<open>The holder of the lock goes on: it takes effect when no call is left.\<close>

lemma holder_moves:
  assumes sim: "simulates srv db0 w u" and job: "jobs w i = Some (Running a)" "calls u i = Some (Running a)"
    and plan: "plan_of srv a = Update op k" and inv: "lock_inv db0 c"
    and c: "tasks c = (tasks (locked w))(i \<mapsto> Holding op now fs p)"
    and owner: "committed c = committed (locked w) \<or> write_lock (locked w) = Some i"
    and half: "halfway (committed (locked w)) op now fs p (committed c)"
    and left: "\<And>f. p = Call f \<Longrightarrow> committed c = committed (locked w) \<and> resumes a op now fs p (committed c) (halved u i)"
    and h: "halved u i = None \<or> halved u i = Some now \<and> a = PruneKeyPackages \<and> (\<exists>gs. fs = None # gs)"
  shows "\<exists>u'. run (atomic_step srv) u [] u' \<and> simulates srv db0 (w\<lparr>locked := c\<rparr>) u'"
proof (cases p)
  case (Done r)
  let ?u = "u\<lparr>data := \<lparr>pool = committed c, clock = now, faults = []\<rparr>, calls := (calls u)(i \<mapsto> Responding (k r))\<rparr>"
  have "atomic_step srv u None ?u"
    using takes_effect [OF job(2) plan _ h] half Done simulatesD(2) [OF sim] by simp
  moreover have "simulates srv db0 (w\<lparr>locked := c\<rparr>) ?u"
    by (rule simulatesI [OF sim, where i = i]) (use inv c owner job plan Done in \<open>auto simp: matches_def\<close>)
  ultimately show ?thesis using run_step [of "atomic_step srv" u None ?u] by auto
next
  case (Call f)
  have "simulates srv db0 (w\<lparr>locked := c\<rparr>) u"
    by (rule simulatesI [OF sim, where i = i])
      (use inv c left [OF Call] job plan Call simulatesD(2) [OF sim] in \<open>auto simp: matches_def\<close>)
  then show ?thesis using run.start [of "atomic_step srv" u] by blast
qed

text \<open>The first statement of a keypackage prune, as a prune that fails after it.\<close>

lemma delete_old_keypackages_twice:
  "sql_delete_old_keypackages c (sql_delete_old_keypackages c db) = sql_delete_old_keypackages c db"
  by (simp add: sql_delete_old_keypackages_def)

lemma half_pruned:
  assumes plan: "plan_of srv PruneKeyPackages = Update op k" and call: "op now = Call f" "f db = (db', rest)"
  shows "resumes PruneKeyPackages op now [None] rest db' (Some now)" and "\<exists>g. rest = Call g"
    and "pool (data u) = db \<Longrightarrow>
      pool (snd (perform srv PruneKeyPackages (at_instant (now, [None, Some UniqueViolation]) (data u)))) = db'"
proof -
  let ?cut = "cutoff_ms now (retention (config srv))" and ?max = "as_i64 (max_per_identity (config srv))"
  have op: "op = prune_key_packages_op (max_per_identity (config srv)) (retention (config srv))"
    using plan by (simp add: plan_of_def)
  then have f: "f = (\<lambda>db. (sql_delete_old_keypackages ?cut db,
      call_pool (\<lambda>db. Some (sql_delete_excess_keypackages ?max db)) (Done (Inr Unit))))"
    using call(1) by (simp add: prune_key_packages_op_def call_pool_def)
  then have db': "db' = sql_delete_old_keypackages ?cut db"
    and rest: "rest = call_pool (\<lambda>db. Some (sql_delete_excess_keypackages ?max db)) (Done (Inr Unit))"
    using call(2) by simp_all
  have whole: "halfway x op now [] (Call f) x" for x
    using call(1) by (simp add: halfway_def run_op_def)
  have last: "\<exists>r. snd (g x) = Done r" if "rest = Call g" for g x
    using that by (auto simp: rest call_pool_def)
  show "\<exists>g. rest = Call g" by (simp add: rest call_pool_def)
  have "f db' = (db', rest)" by (simp add: f rest db' delete_old_keypackages_twice)
  from halfway_call(1) [OF whole this] last show "resumes PruneKeyPackages op now [None] rest db' (Some now)"
    by (simp add: resumes_def)
  assume data: "pool (data u) = db"
  have "halfway db op now ([] @ [None]) rest db'" by (rule halfway_call(1) [OF whole call(2)])
  from halfway_pool(2) [OF this, of UniqueViolation]
  show "pool (snd (perform srv PruneKeyPackages (at_instant (now, [None, Some UniqueViolation]) (data u)))) = db'"
    unfolding run_plan_of [symmetric] plan at_instant_data [OF data] by (auto split: prod.splits)
qed

lemma resumes_marked:
  assumes "resumes a op now fs p db h"
  shows "h = None \<or> h = Some now \<and> a = PruneKeyPackages \<and> (\<exists>gs. fs @ [x] = None # gs)"
  using assms by (auto simp: resumes_def split: option.splits)

lemma calls_matched:
  assumes sim: "simulates srv db0 w u" and task: "tasks (locked w) i = Some (Holding op now fs (Call f))"
    and call: "f (committed (locked w)) = (db, rest)" and inv: "lock_inv db0 c"
    and c: "c = (locked w)\<lparr>committed := db, tasks := (tasks (locked w))(i \<mapsto> Holding op now (fs @ [None]) rest)\<rparr>"
  shows "\<exists>u'. run (atomic_step srv) u [] u' \<and> simulates srv db0 (w\<lparr>locked := c\<rparr>) u'"
proof -
  obtain a k where job: "jobs w i = Some (Running a)" "calls u i = Some (Running a)" and plan: "plan_of srv a = Update op k"
    and res: "resumes a op now fs (Call f) (committed (locked w)) (halved u i)"
    by (rule matches_holding [OF simulatesD(3) [OF sim] task]) auto
  have owner: "write_lock (locked w) = Some i" by (rule lock_inv_holding(1) [OF simulatesD(1) [OF sim] task])
  have half: "halfway (committed (locked w)) op now (fs @ [None]) rest db"
    using res halfway_call(1) [where f = f, of "committed (locked w)" op now fs "committed (locked w)"] call
    by (simp add: resumes_def)
  show ?thesis
  proof (cases "a = PruneKeyPackages \<and> halved u i = None")
    case False
    have last: "(\<exists>r. rest = Done r) \<or> db = committed (locked w) \<and> commits_last rest \<and> a \<noteq> PruneKeyPackages \<and> halved u i = None"
    proof (cases "halved u i")
      case None
      with res False have "commits_last (Call f)" "a \<noteq> PruneKeyPackages" by (auto simp: resumes_def)
      with None call show ?thesis by (metis commits_last_Call fst_conv snd_conv)
    next
      case (Some read)
      with res call show ?thesis by (auto simp: resumes_def) (metis snd_conv)
    qed
    show ?thesis
    proof (rule holder_moves [OF sim job plan inv])
      show "tasks c = (tasks (locked w))(i \<mapsto> Holding op now (fs @ [None]) rest)" by (simp add: c)
      show "halfway (committed (locked w)) op now (fs @ [None]) rest (committed c)" using half c by simp
      show "halved u i = None \<or> halved u i = Some now \<and> a = PruneKeyPackages \<and> (\<exists>gs. fs @ [None] = None # gs)"
        by (rule resumes_marked [OF res])
      show "committed c = committed (locked w) \<and> resumes a op now (fs @ [None]) rest (committed c) (halved u i)"
        if "rest = Call g" for g
        using last that c half by (auto simp: resumes_def)
    qed (use owner in simp)
  next
    case True
    then have a: "a = PruneKeyPackages" and none: "halved u i = None" by simp_all
    with res have fs: "fs = []" and op: "op now = Call f" by (auto simp: resumes_def)
    note pruned = half_pruned [OF plan [unfolded a] op call]
    obtain out t where t: "perform srv PruneKeyPackages (at_instant (now, [None, Some UniqueViolation]) (data u)) = (out, t)" "pool t = db"
      using pruned(3) simulatesD(2) [OF sim] by (metis prod.collapse)
    let ?u = "u\<lparr>data := t, halved := (halved u)(i \<mapsto> now)\<rparr>"
    have "atomic_step srv u None ?u" by (rule atomic_step.first_half [OF job(2) [unfolded a] none t(1)])
    moreover have "simulates srv db0 (w\<lparr>locked := c\<rparr>) ?u"
      by (rule simulatesI [OF sim, where i = i])
        (use inv c owner job plan pruned(1,2) t(2) a fs op call in \<open>auto simp: matches_def split: prog.splits\<close>)
    ultimately show ?thesis using run_step [of "atomic_step srv" u None] by fastforce
  qed
qed

lemma proceed_matched:
  assumes sim: "simulates srv db0 w u" and step: "lock_step (locked w) c" and dom: "dom (tasks c) = dom (tasks (locked w))"
  shows "\<exists>u'. run (atomic_step srv) u [] u' \<and> simulates srv db0 (w\<lparr>locked := c\<rparr>) u'"
proof -
  have inv: "lock_inv db0 c" by (rule lock_step_inv [OF step simulatesD(1) [OF sim]])
  from step show ?thesis
  proof (cases rule: lock_step.cases)
    case (arrive i op)
    then show ?thesis using dom by auto
  next
    case (lock i op now)
    obtain a k where job: "jobs w i = Some (Running a)" "calls u i = Some (Running a)" and plan: "plan_of srv a = Update op k"
      and none: "halved u i = None"
      by (rule matches_waiting [OF simulatesD(3) [OF sim] lock(2)]) auto
    have half: "halfway db op now [] (op now) db" for db by (simp add: halfway_def run_op_def)
    show ?thesis
      by (rule holder_moves [OF sim job plan inv])
        (use lock(1) half none plan_commits_last [OF plan] in \<open>auto simp: resumes_def\<close>)
  next
    case (call i op now fs f db rest)
    show ?thesis by (rule calls_matched [OF sim call(2,3) inv call(1)])
  next
    case (call_fails i op now fs f e)
    obtain a k where job: "jobs w i = Some (Running a)" "calls u i = Some (Running a)" and plan: "plan_of srv a = Update op k"
      and res: "resumes a op now fs (Call f) (committed (locked w)) (halved u i)"
      by (rule matches_holding [OF simulatesD(3) [OF sim] call_fails(2)]) auto
    have "halfway (committed (locked w)) op now (fs @ [Some e]) (Done (Inl (AnySqlx e))) (committed (locked w))"
      using res by (intro halfway_call(2)) (auto simp: resumes_def)
    then show ?thesis
      by (intro holder_moves [OF sim job plan inv, of now "fs @ [Some e]" "Done (Inl (AnySqlx e))"])
        (use call_fails(1) resumes_marked [OF res, of "Some e"] in simp_all)
  next
    case (unlock i op now fs r)
    obtain a k where "jobs w i = Some (Running a)" "plan_of srv a = Update op k" "calls u i = Some (Responding (k r))"
      by (rule matches_holding [OF simulatesD(3) [OF sim] unlock(2)]) auto
    then have "simulates srv db0 (w\<lparr>locked := c\<rparr>) u"
      by (intro simulatesI [OF sim, where i = i]) (use inv unlock(1) simulatesD(2) [OF sim] in \<open>auto simp: matches_def\<close>)
    then show ?thesis using run.start [of "atomic_step srv" u] by blast
  next
    case (dropped_waiting i op)
    then show ?thesis using dom by auto
  next
    case (dropped_holding i op now fs p)
    then show ?thesis using dom by auto
  qed
qed

text \<open>A step of the jobs alone.\<close>

lemma job_moves:
  assumes sim: "simulates srv db0 w u" and "atomic_step srv u l u'" and "pool (data u') = committed (locked w)"
    and "calls u' = (calls u)(i \<mapsto> x)" and "halved u' = halved u" and "matches srv (locked w) i (Some x) (Some x) (halved u i)"
  shows "\<exists>u'. run (atomic_step srv) u (observation l) u' \<and> simulates srv db0 (w\<lparr>jobs := (jobs w)(i \<mapsto> x)\<rparr>) u'"
proof -
  have "simulates srv db0 (w\<lparr>jobs := (jobs w)(i \<mapsto> x)\<rparr>) u'"
    by (rule simulatesI [OF sim, where i = i]) (use assms(3-6) simulatesD(1) [OF sim] in simp_all)
  then show ?thesis using run_step [of "atomic_step srv", OF assms(2)] by blast
qed

lemma running_calls:
  assumes "simulates srv db0 w u" and "jobs w i = Some (Running a)" and "\<And>op k. plan_of srv a \<noteq> Update op k"
  shows "calls u i = Some (Running a)" and "\<not> engaged (tasks (locked w) i)" and "halved u i = None"
  using simulatesD(3) [OF assms(1), of i] assms(2,3)
  by (auto simp: matches_def engaged_def split: option.splits task.splits)

lemma performed_query:
  assumes "plan_of srv a = Query k" and "pool (data u) = db"
  shows "\<exists>x t. perform srv a (at_instant x (data u)) = (k (Inr db), t) \<and> pool t = db"
    and "\<exists>x t. perform srv a (at_instant x (data u)) = (k (Inl (AnySqlx e)), t) \<and> pool t = db"
proof -
  have run: "perform srv a s = (case fetch_pool id s of (r, t) \<Rightarrow> (k r, t))" for s
    using run_plan_of [of srv a s] assms(1) by simp
  show "\<exists>x t. perform srv a (at_instant x (data u)) = (k (Inr db), t) \<and> pool t = db"
    by (rule exI [of _ "(0, [])"]) (simp add: run fetch_pool_def db_call_def try_await_def assms(2))
  show "\<exists>x t. perform srv a (at_instant x (data u)) = (k (Inl (AnySqlx e)), t) \<and> pool t = db"
    by (rule exI [of _ "(0, [Some e])"]) (simp add: run fetch_pool_def db_call_def try_await_def assms(2))
qed

lemma performed_matched:
  assumes sim: "simulates srv db0 w u" and job: "jobs w i = Some (Running a)" and pure: "\<And>op k. plan_of srv a \<noteq> Update op k"
    and "perform srv a (at_instant x (data u)) = (out, t)" and "pool t = committed (locked w)"
  shows "\<exists>u'. run (atomic_step srv) u [] u' \<and> simulates srv db0 (w\<lparr>jobs := (jobs w)(i \<mapsto> Responding out)\<rparr>) u'"
proof -
  note runs = running_calls [OF sim job pure]
  have "atomic_step srv u None (u\<lparr>data := t, calls := (calls u)(i \<mapsto> Responding out)\<rparr>)"
    by (rule atomic_step.effect [OF runs(1,3) assms(4)])
  from job_moves [OF sim this, of i "Responding out"] show ?thesis using runs(2) assms(5) by (simp add: matches_def)
qed

text \<open>A job is given up, with its task if it has one under way.\<close>

lemma abandoned_matched:
  assumes sim: "simulates srv db0 w u" and job: "calls u i = Some (Running a) \<or> calls u i = Some (Responding out)"
    and "lock_inv db0 c" and "committed c = committed (locked w)" and "\<not> engaged (tasks c i)"
    and "\<And>j. j \<noteq> i \<Longrightarrow> tasks c j = tasks (locked w) j"
  shows "\<exists>u'. run (atomic_step srv) u [] u' \<and> simulates srv db0 (w\<lparr>locked := c, jobs := (jobs w)(i \<mapsto> Abandoned)\<rparr>) u'"
proof -
  have "atomic_step srv u None (u\<lparr>calls := (calls u)(i \<mapsto> Abandoned)\<rparr>)" by (rule atomic_step.abandon [OF job])
  moreover have "simulates srv db0 (w\<lparr>locked := c, jobs := (jobs w)(i \<mapsto> Abandoned)\<rparr>) (u\<lparr>calls := (calls u)(i \<mapsto> Abandoned)\<rparr>)"
    by (rule simulatesI [OF sim, where i = i]) (use assms(3-6) simulatesD(2) [OF sim] in \<open>simp_all add: matches_def\<close>)
  ultimately show ?thesis using run_step [of "atomic_step srv" u None] by fastforce
qed

lemma matches_unanswered:
  assumes "matches srv c i j j' h" and "j = Some (Running a) \<or> j = Some (Responding out)"
  obtains a' where "j' = Some (Running a')" | out' where "j' = Some (Responding out')"
proof (cases "tasks c i")
  case (Some y)
  show thesis
  proof (cases y)
    case (Holding op now fs p)
    show thesis
      by (rule matches_holding [OF assms(1) Some [unfolded Holding]], cases p) (use that in auto)
  qed (use assms that Some in \<open>auto simp: matches_def engaged_def\<close>)
qed (use assms that in \<open>auto simp: matches_def\<close>)

lemma dropped_task:
  assumes "lock_step c c'" and "engaged (tasks c i)" and "tasks c' = (tasks c)(i := None)"
  shows "committed c' = committed c"
  using assms(1)
proof (cases rule: lock_step.cases)
  case (call j op now fs f db rest)
  then have "tasks c' i \<noteq> None" using assms(2) by (auto simp: engaged_def)
  then show ?thesis using assms(3) by simp
qed simp_all

lemma step_matched:
  assumes sim: "simulates srv db0 w u" and "concurrent_step srv w l w'"
  shows "\<exists>u'. run (atomic_step srv) u (observation l) u' \<and> simulates srv db0 w' u'"
  using assms(2)
proof (cases rule: concurrent_step.cases)
  case (invoke i a)
  have none: "calls u i = None" "tasks (locked w) i = None" "halved u i = None"
    using simulatesD(3) [OF sim, of i] invoke(3) by (simp_all add: matches_def)
  show ?thesis unfolding invoke(1,2)
    by (rule job_moves [OF sim atomic_step.invoke [OF none(1)]]) (use none(2,3) simulatesD(2) [OF sim] in \<open>simp_all add: matches_def\<close>)
next
  case (reply i a out)
  have "perform srv a (at_instant (0, []) (data u)) = (out, at_instant (0, []) (data u))"
    using run_plan_of [of srv a] reply(4) by (metis run_plan.simps(1))
  then show ?thesis unfolding reply(1,2)
    using performed_matched [OF sim reply(3)] reply(4) simulatesD(2) [OF sim] by simp
next
  case (query i a k)
  then show ?thesis
    using performed_query(1) [OF query(4) simulatesD(2) [OF sim]] performed_matched [OF sim query(3)] by fastforce
next
  case (query_fails i a k e)
  then show ?thesis
    using performed_query(2) [OF query_fails(4) simulatesD(2) [OF sim]] performed_matched [OF sim query_fails(3)] by fastforce
next
  case (enqueue i a op k)
  have "calls u i = Some (Running a)" "halved u i = None"
    using simulatesD(3) [OF sim, of i] enqueue(3,5) by (simp_all add: matches_def)
  moreover have "lock_inv db0 (locked w')"
    unfolding enqueue(2) using lock_step_inv [OF lock_step.arrive [OF enqueue(5)] simulatesD(1) [OF sim]] by simp
  ultimately have "simulates srv db0 w' u"
    by (intro simulatesI [OF sim, where i = i]) (use enqueue(2-5) simulatesD(2) [OF sim] in \<open>simp_all add: matches_def\<close>)
  then show ?thesis using run.start [of "atomic_step srv" u] enqueue(1) by auto
next
  case (proceed c)
  then show ?thesis using proceed_matched [OF sim] by simp
next
  case (collect i a op k r)
  have "calls u i = Some (Responding (k r))"
    using simulatesD(3) [OF sim, of i] collect(3-5) by (simp add: matches_def)
  then have "simulates srv db0 w' u"
    by (intro simulatesI [OF sim, where i = i])
      (use collect(2,5) simulatesD(1,2) [OF sim] in \<open>simp_all add: matches_def engaged_def\<close>)
  then show ?thesis using run.start [of "atomic_step srv" u] collect(1) by auto
next
  case (return i out)
  have resp: "calls u i = Some (Responding out)" "\<not> engaged (tasks (locked w) i)"
    using simulatesD(3) [OF sim, of i] return(3) by (simp_all add: matches_def)
  show ?thesis unfolding return(1,2)
    by (rule job_moves [OF sim atomic_step.return [OF resp(1)]]) (use resp(2) simulatesD(2) [OF sim] in \<open>simp_all add: matches_def\<close>)
next
  case (abandon i a out)
  show ?thesis
    by (rule matches_unanswered [OF simulatesD(3) [OF sim] abandon(3)])
      (use abandoned_matched [OF sim _ simulatesD(1) [OF sim] refl abandon(4)] abandon(1,2) in auto)
next
  case (abandon_write i a c)
  have c: "lock_inv db0 c" "committed c = committed (locked w)" "\<not> engaged (tasks c i)"
    using lock_step_inv [OF abandon_write(5) simulatesD(1) [OF sim]] dropped_task [OF abandon_write(5,4,6)] abandon_write(6)
    by (simp_all add: engaged_def)
  show ?thesis
    by (rule matches_unanswered [OF simulatesD(3) [OF sim], of i a])
      (use abandoned_matched [OF sim _ c] abandon_write(1-3,6) in auto)
qed

interpretation linearized: forward_simulation "concurrent_step srv" "atomic_step srv" "simulates srv db0"
  for srv :: "('a, 's, 'r) service" and db0
  by unfold_locales (rule step_matched)

lemma opened_simulated: "simulates srv db (opened_world db) (opened_atomic db)"
  using lock_inv_start [of db]
  by (simp add: simulates_def opened_world_def opened_atomic_def matches_def opened_conf_def)

section \<open>Runs of the specification\<close>

definition store_of :: "tables \<Rightarrow> store" where
  "store_of db = \<lparr>pool = db, clock = 0, faults = []\<rparr>"

text \<open>An answer the service gives in some reachable state, when it does nothing else.\<close>

definition answers_alone :: "('a, 's, 'r) service \<Rightarrow> action \<Rightarrow> reaction \<Rightarrow> bool" where
  "answers_alone srv a out \<longleftrightarrow> (\<exists>s x. reachable srv s \<and> fst (perform srv a (at_instant x s)) = out)"

definition accounted :: "('a, 's, 'r) service \<Rightarrow> event list \<Rightarrow> atomic \<Rightarrow> bool" where
  "accounted srv tr u \<longleftrightarrow>
     reachable srv (data u) \<and>
     (\<forall>i a. calls u i = None \<longrightarrow> Invoked i a \<notin> set tr) \<and>
     (\<forall>i a a'. calls u i = Some (Running a) \<longrightarrow> Invoked i a' \<in> set tr \<longrightarrow> a' = a) \<and>
     (\<forall>i a out. calls u i = Some (Responding out) \<longrightarrow> Invoked i a \<in> set tr \<longrightarrow> answers_alone srv a out) \<and>
     (\<forall>i a out. Invoked i a \<in> set tr \<longrightarrow> Returned i out \<in> set tr \<longrightarrow> answers_alone srv a out) \<and>
     (\<forall>i out. Returned i out \<in> set tr \<longrightarrow> calls u i \<noteq> None)"

lemma reachable_step: "reachable srv s \<Longrightarrow> perform srv a (at_instant x s) = (out, t) \<Longrightarrow> reachable srv t"
  using reachable.more step_perform by (metis snd_conv)

lemma accountedD:
  assumes "accounted srv tr u"
  shows "reachable srv (data u)" and "calls u i = None \<Longrightarrow> Invoked i a \<notin> set tr"
    and "calls u i = Some (Running a) \<Longrightarrow> Invoked i a' \<in> set tr \<Longrightarrow> a' = a"
    and "calls u i = Some (Responding out) \<Longrightarrow> Invoked i a \<in> set tr \<Longrightarrow> answers_alone srv a out"
    and "Invoked i a \<in> set tr \<Longrightarrow> Returned i out \<in> set tr \<Longrightarrow> answers_alone srv a out"
    and "Returned i out \<in> set tr \<Longrightarrow> calls u i \<noteq> None"
  using assms unfolding accounted_def by blast+

lemma accounted_call:
  assumes "accounted srv tr u" and "reachable srv (data u')" and "calls u' = (calls u)(i \<mapsto> x)"
    and "\<And>a a'. x = Running a \<Longrightarrow> Invoked i a' \<in> set tr \<Longrightarrow> a' = a"
    and "\<And>a out. x = Responding out \<Longrightarrow> Invoked i a \<in> set tr \<Longrightarrow> answers_alone srv a out"
  shows "accounted srv tr u'"
  unfolding accounted_def assms(3)
  using accountedD [OF assms(1)] assms(2,4,5) by (intro conjI allI impI) (auto split: if_splits)

lemma atomic_accounted:
  assumes "run (atomic_step srv) (opened_atomic empty_tables) tr u"
  shows "accounted srv tr u"
proof (rule run_invariant [OF assms, of "accounted srv"])
  show "accounted srv [] (opened_atomic empty_tables)"
    by (simp add: accounted_def opened_atomic_def reachable.start)
  fix tr u l u'
  assume acc: "accounted srv tr u" and "atomic_step srv u l u'"
  note facts = accountedD [OF acc]
  from \<open>atomic_step srv u l u'\<close> show "accounted srv (tr @ observation l) u'"
  proof (cases rule: atomic_step.cases)
    case (invoke i a)
    have "accounted srv tr u'"
      by (rule accounted_call [OF acc]) (use invoke facts(1,2) in auto)
    moreover have "Returned i out \<notin> set tr" for out using facts(6) invoke(3) by blast
    ultimately show ?thesis using invoke unfolding accounted_def by simp
  next
    case (effect i a x out t)
    have "answers_alone srv a out" using facts(1) effect(5) unfolding answers_alone_def by (metis fst_conv)
    moreover have "reachable srv t" by (rule reachable_step [OF facts(1) effect(5)])
    ultimately have "accounted srv tr u'"
      by (intro accounted_call [OF acc]) (use effect(2,3) facts(3) in auto)
    then show ?thesis using effect(1) by simp
  next
    case (first_half i now e out t)
    then show ?thesis using acc reachable_step [OF facts(1) first_half(5)] by (simp add: accounted_def)
  next
    case (second_half i now fs out t)
    have "answers_alone srv PruneKeyPackages out"
      using facts(1) second_half(5) unfolding answers_alone_def by (metis fst_conv)
    moreover have "reachable srv t" by (rule reachable_step [OF facts(1) second_half(5)])
    ultimately have "accounted srv tr u'"
      by (intro accounted_call [OF acc]) (use second_half(2,3) facts(3) in auto)
    then show ?thesis using second_half(1) by simp
  next
    case (return i out)
    have "accounted srv tr u'" by (rule accounted_call [OF acc]) (use return facts(1) in auto)
    then show ?thesis using facts(4) return unfolding accounted_def by simp
  next
    case (abandon i a out)
    have "accounted srv tr u'" by (rule accounted_call [OF acc]) (use abandon facts(1) in auto)
    then show ?thesis using abandon(1) by simp
  qed
qed

text \<open>The data of the specification change by steps of the service only.\<close>

lemma performed_step: "perform srv a (at_instant x s) = (out, t) \<Longrightarrow> step srv a s t"
  unfolding step_perform by (metis snd_conv)

lemma atomic_step_data: "atomic_step srv u l u' \<Longrightarrow> data u' = data u \<or> (\<exists>a. step srv a (data u) (data u'))"
  by (erule atomic_step.cases) (auto dest: performed_step)

lemma atomic_data_steps:
  assumes "run (atomic_step srv) u tr u'"
  shows "(\<lambda>s t. \<exists>a. step srv a s t)\<^sup>*\<^sup>* (data u) (data u')"
proof (rule run_invariant [OF assms, of "\<lambda>_ u'. (\<lambda>s t. \<exists>a. step srv a s t)\<^sup>*\<^sup>* (data u) (data u')"])
  fix tr t l u'
  assume "(\<lambda>s t. \<exists>a. step srv a s t)\<^sup>*\<^sup>* (data u) (data t)" and "atomic_step srv t l u'"
  then show "(\<lambda>s t. \<exists>a. step srv a s t)\<^sup>*\<^sup>* (data u) (data u')"
    using atomic_step_data by (metis (mono_tags, lifting) rtranclp.simps)
qed simp

section \<open>The service does alone what it does alone\<close>

lemma proceeds_alone:
  assumes "tasks (locked w) i = Some (Holding op now gs p)"
    and "run_prog p \<lparr>pool = committed (locked w), clock = now, faults = fs\<rparr> = (r, s)"
  shows "\<exists>gs' w'. run (concurrent_step srv) w [] w' \<and> jobs w' = jobs w \<and> committed (locked w') = pool s \<and>
     tasks (locked w') = (tasks (locked w))(i \<mapsto> Holding op now gs' (Done r)) \<and> write_lock (locked w') = write_lock (locked w)"
  using assms
proof (induction p arbitrary: w gs fs)
  case (Done x)
  then show ?case using run.start [of "concurrent_step srv" w] by (intro exI [of _ gs] exI [of _ w]) (auto simp: fun_upd_idem)
next
  case (Call f)
  let ?c = "locked w"
  let ?fail = "\<lambda>e. w\<lparr>locked := ?c\<lparr>tasks := (tasks ?c)(i \<mapsto> Holding op now (gs @ [Some e]) (Done (Inl (AnySqlx e))))\<rparr>\<rparr>"
  obtain db rest where f: "f (committed ?c) = (db, rest)" by fastforce
  let ?w = "w\<lparr>locked := ?c\<lparr>committed := db, tasks := (tasks ?c)(i \<mapsto> Holding op now (gs @ [None]) rest)\<rparr>\<rparr>"
  have go: "concurrent_step srv w None ?w"
    by (rule concurrent_step.proceed [OF lock_step.call [OF Call.prems(1) f]]) (use Call.prems(1) in auto)
  have stop: "concurrent_step srv w None (?fail e)" for e
    by (rule concurrent_step.proceed [OF lock_step.call_fails [OF Call.prems(1)]]) (use Call.prems(1) in auto)
  show ?case
  proof (cases "\<exists>e fs'. fs = Some e # fs'")
    case True
    then obtain e fs' where "fs = Some e # fs'" by blast
    then have "r = Inl (AnySqlx e)" "pool s = committed ?c" using Call.prems(2) by (auto simp: db_call_def)
    then show ?thesis using run_step [of "concurrent_step srv", OF stop [of e]] by (intro exI [of _ "gs @ [Some e]"] exI [of _ "?fail e"]) simp
  next
    case False
    then have "run_prog rest \<lparr>pool = committed (locked ?w), clock = now, faults = tl fs\<rparr> = (r, s)"
      using Call.prems(2) f by (cases fs rule: list.exhaust) (auto simp: db_call_def split: option.splits)
    moreover have "(db, rest) \<in> range f" using f by (metis rangeI)
    ultimately have "\<exists>gs' w'. run (concurrent_step srv) ?w [] w' \<and> jobs w' = jobs ?w \<and> committed (locked w') = pool s \<and>
        tasks (locked w') = (tasks (locked ?w))(i \<mapsto> Holding op now gs' (Done r)) \<and> write_lock (locked w') = write_lock (locked ?w)"
      by (intro Call.IH [of "(db, rest)" rest ?w "gs @ [None]" "tl fs"]) simp_all
    then obtain gs' w' where
      "run (concurrent_step srv) ?w [] w'" "jobs w' = jobs w" "committed (locked w') = pool s"
      "tasks (locked w') = (tasks ?c)(i \<mapsto> Holding op now gs' (Done r))" "write_lock (locked w') = write_lock ?c"
      by auto
    then show ?thesis using run_append [OF run_step [of "concurrent_step srv", OF go]] by fastforce
  qed
qed

lemma writes_alone:
  assumes job: "jobs w i = Some (Running a)" and plan: "plan_of srv a = Update op k"
    and free: "tasks (locked w) i = None" "write_lock (locked w) = None"
    and op: "run_op op \<lparr>pool = committed (locked w), clock = now, faults = fs\<rparr> = (r, s)"
  obtains w' where "run (concurrent_step srv) w [] w'" and "jobs w' = (jobs w)(i \<mapsto> Responding (k r))"
    and "committed (locked w') = pool s" and "write_lock (locked w') = None"
    and "\<And>j. j \<noteq> i \<Longrightarrow> tasks (locked w') j = tasks (locked w) j"
proof -
  let ?c = "locked w"
  define w1 where "w1 = w\<lparr>locked := ?c\<lparr>tasks := (tasks ?c)(i \<mapsto> Waiting op)\<rparr>\<rparr>"
  define w2 where "w2 = w1\<lparr>locked := (locked w1)\<lparr>write_lock := Some i,
      tasks := (tasks (locked w1))(i \<mapsto> Holding op now [] (op now))\<rparr>\<rparr>"
  have s1: "concurrent_step srv w None w1" unfolding w1_def by (rule concurrent_step.enqueue [OF job plan free(1)])
  have s2: "concurrent_step srv w1 None w2" unfolding w2_def
    by (rule concurrent_step.proceed [OF lock_step.lock [where op = op]]) (use free in \<open>auto simp: w1_def\<close>)
  have "run_prog (op now) \<lparr>pool = committed (locked w2), clock = now, faults = fs\<rparr> = (r, s)"
    using op by (simp add: run_op_def w1_def w2_def)
  from proceeds_alone [OF _ this, of i op "[]" srv] obtain gs w3 where
    r3: "run (concurrent_step srv) w2 [] w3" "jobs w3 = jobs w2" "committed (locked w3) = pool s"
    "tasks (locked w3) = (tasks (locked w2))(i \<mapsto> Holding op now gs (Done r))"
    by (auto simp: w2_def)
  define w4 where "w4 = w3\<lparr>locked := (locked w3)\<lparr>write_lock := None, tasks := (tasks (locked w3))(i \<mapsto> Finished op r),
      history := history (locked w3) @ [(op, now, gs)]\<rparr>\<rparr>"
  have s4: "concurrent_step srv w3 None w4" unfolding w4_def
    by (rule concurrent_step.proceed [OF lock_step.unlock]) (use r3(4) in auto)
  define w5 where "w5 = w4\<lparr>jobs := (jobs w4)(i \<mapsto> Responding (k r))\<rparr>"
  have s5: "concurrent_step srv w4 None w5" unfolding w5_def
    by (rule concurrent_step.collect [OF _ plan]) (use job r3(2) in \<open>simp_all add: w1_def w2_def w4_def\<close>)
  note silent = run.silent [where M = "concurrent_step srv"]
  have "run (concurrent_step srv) w [] w2" by (intro silent [OF _ s2] silent [OF _ s1] run.start)
  from run_append [OF this r3(1)] have "run (concurrent_step srv) w [] w3" by simp
  then have "run (concurrent_step srv) w [] w5" by (intro silent [OF _ s5] silent [OF _ s4])
  then show thesis by (rule that) (use r3 in \<open>simp_all add: w1_def w2_def w4_def w5_def\<close>)
qed

lemma ends_alone:
  assumes job: "jobs w i = Some (Running a)" and free: "tasks (locked w) i = None" "write_lock (locked w) = None"
    and run: "perform srv a \<lparr>pool = committed (locked w), clock = now, faults = fs\<rparr> = (out, s)"
  obtains w' where "run (concurrent_step srv) w [Returned i out] w'" and "committed (locked w') = pool s"
    and "write_lock (locked w') = None" and "jobs w' = (jobs w)(i \<mapsto> Answered out)"
    and "\<And>j. j \<noteq> i \<Longrightarrow> tasks (locked w') j = tasks (locked w) j"
proof -
  let ?s = "\<lparr>pool = committed (locked w), clock = now, faults = fs\<rparr>"
  have "\<exists>w2. run (concurrent_step srv) w [] w2 \<and> jobs w2 = (jobs w)(i \<mapsto> Responding out) \<and>
      committed (locked w2) = pool s \<and> write_lock (locked w2) = None \<and>
      (\<forall>j. j \<noteq> i \<longrightarrow> tasks (locked w2) j = tasks (locked w) j)"
  proof (cases "plan_of srv a")
    case (Reply x)
    then have "out = x" "s = ?s" using run run_plan_of [of srv a ?s] by auto
    then show ?thesis
      using run_step [of "concurrent_step srv", OF concurrent_step.reply [OF job Reply]] free(2)
      by (intro exI [of _ "w\<lparr>jobs := (jobs w)(i \<mapsto> Responding x)\<rparr>"]) simp
  next
    case (Query k)
    have "perform srv a ?s = (case fetch_pool id ?s of (r, t) \<Rightarrow> (k r, t))"
      using run_plan_of [of srv a ?s] Query by simp
    then obtain r where out: "out = k r" "pool s = committed (locked w)"
      and "r = Inr (committed (locked w)) \<or> (\<exists>e. r = Inl (AnySqlx e))"
      using run by (auto simp: fetch_pool_def db_call_def try_await_def split: list.splits option.splits)
    then have "concurrent_step srv w None (w\<lparr>jobs := (jobs w)(i \<mapsto> Responding (k r))\<rparr>)"
      using concurrent_step.query [OF job Query] concurrent_step.query_fails [OF job Query] by auto
    from run_step [of "concurrent_step srv", OF this] show ?thesis
      using out free(2) by (intro exI [of _ "w\<lparr>jobs := (jobs w)(i \<mapsto> Responding (k r))\<rparr>"]) simp
  next
    case (Update op k)
    obtain r where op: "run_op op ?s = (r, s)" "out = k r"
      using run run_plan_of [of srv a ?s] Update by (auto split: prod.splits)
    show ?thesis
      by (rule writes_alone [OF job Update, of now fs r s]) (use free op in auto)
  qed
  then obtain w2 where w2: "run (concurrent_step srv) w [] w2" "jobs w2 = (jobs w)(i \<mapsto> Responding out)"
    "committed (locked w2) = pool s" "write_lock (locked w2) = None" "\<And>j. j \<noteq> i \<Longrightarrow> tasks (locked w2) j = tasks (locked w) j"
    by blast
  from run.observed [where M = "concurrent_step srv", OF w2(1) concurrent_step.return [of w2 i out]] show thesis
    by (intro that [of "w2\<lparr>jobs := (jobs w2)(i \<mapsto> Answered out)\<rparr>"]) (use w2 in simp_all)
qed

lemma does_alone:
  assumes free: "jobs w i = None" "tasks (locked w) i = None" "write_lock (locked w) = None"
    and run: "perform srv a \<lparr>pool = committed (locked w), clock = now, faults = fs\<rparr> = (out, s)"
  obtains w' where "run (concurrent_step srv) w [Invoked i a, Returned i out] w'" and "committed (locked w') = pool s"
    and "write_lock (locked w') = None" and "jobs w' = (jobs w)(i \<mapsto> Answered out)"
    and "\<And>j. j \<noteq> i \<Longrightarrow> tasks (locked w') j = tasks (locked w) j"
proof -
  let ?w = "w\<lparr>jobs := (jobs w)(i \<mapsto> Running a)\<rparr>"
  note first = run_step [of "concurrent_step srv", OF concurrent_step.invoke [OF free(1), of srv a]]
  obtain w' where w': "run (concurrent_step srv) ?w [Returned i out] w'" "committed (locked w') = pool s"
    "write_lock (locked w') = None" "jobs w' = (jobs ?w)(i \<mapsto> Answered out)"
    "\<And>j. j \<noteq> i \<Longrightarrow> tasks (locked w') j = tasks (locked ?w) j"
    by (rule ends_alone [of ?w i a srv now fs out s]) (use free run in simp_all)
  show thesis by (rule that [of w']) (use run_append [OF first w'(1)] w' in simp_all)
qed

end
