(* ===== verification/Acknowledged.thy ===== *)
theory Acknowledged
  imports Linearization
begin

text \<open>
  What an answer is worth afterwards. A client that was told its submission is stored may rely on it: whoever asks
  later is given that submission or one that replaced it. Locale \<open>kept_value\<close> has the argument once, for a value of the
  store that submissions advance and fetches show, over the runs of the specification of theory \<open>Linearization\<close>, and
  carries it over to concurrent runs; it is interpreted for the account logs and for the account bundles.
\<close>

section \<open>What a trace says of the jobs\<close>

definition responded :: "atomic \<Rightarrow> nat \<Rightarrow> reaction \<Rightarrow> bool" where
  "responded u i out \<longleftrightarrow> calls u i = Some (Responding out) \<or> calls u i = Some (Answered out)"

definition recorded :: "event list \<Rightarrow> atomic \<Rightarrow> bool" where
  "recorded tr u \<longleftrightarrow>
     (\<forall>i a. Invoked i a \<in> set tr \<longrightarrow> calls u i \<noteq> None) \<and>
     (\<forall>i a a'. calls u i = Some (Running a) \<longrightarrow> (Invoked i a' \<in> set tr \<longleftrightarrow> a' = a)) \<and>
     (\<forall>i out. Returned i out \<in> set tr \<longleftrightarrow> calls u i = Some (Answered out))"

lemma recordedD:
  assumes "recorded tr u"
  shows "Invoked i a \<in> set tr \<Longrightarrow> calls u i \<noteq> None"
    and "calls u i = Some (Running a) \<Longrightarrow> Invoked i a' \<in> set tr \<longleftrightarrow> a' = a"
    and "Returned i out \<in> set tr \<longleftrightarrow> calls u i = Some (Answered out)"
  using assms unfolding recorded_def by blast+

lemma recorded_start: "recorded [] (opened_atomic db)"
  by (simp add: recorded_def opened_atomic_def)

lemma recorded_step:
  assumes "atomic_step srv u l u'" and "recorded tr u"
  shows "recorded (tr @ observation l) u'"
  using assms(1)
proof (cases rule: atomic_step.cases)
  case (invoke i a)
  have "Invoked i a' \<notin> set tr" for a'
    using recordedD(1) [OF assms(2), of i] invoke(3) by blast
  then show ?thesis using invoke recordedD [OF assms(2)] by (auto simp: recorded_def)
next
  case (effect i a x out t)
  then show ?thesis using recordedD [OF assms(2)] by (auto simp: recorded_def)
next
  case (first_half i now e out t)
  then show ?thesis using assms(2) by (simp add: recorded_def)
next
  case (second_half i now fs out t)
  then show ?thesis using recordedD [OF assms(2)] by (auto simp: recorded_def)
next
  case (return i out)
  then show ?thesis using recordedD [OF assms(2)] by (auto simp: recorded_def)
next
  case (abandon i a out)
  then show ?thesis using recordedD [OF assms(2)] by (auto simp: recorded_def)
qed

text \<open>The jobs of the specification that take effect in two steps are prunes of the keypackages.\<close>

lemma only_prunes_split:
  assumes "run (atomic_step srv) (opened_atomic db) tr u"
  shows "\<forall>i. halved u i \<noteq> None \<longrightarrow> Invoked i PruneKeyPackages \<in> set tr"
proof -
  have "recorded tr u \<and> (\<forall>i. halved u i \<noteq> None \<longrightarrow> Invoked i PruneKeyPackages \<in> set tr)"
    using assms
  proof (rule run_invariant)
    show "recorded [] (opened_atomic db) \<and> (\<forall>i. halved (opened_atomic db) i \<noteq> None \<longrightarrow> Invoked i PruneKeyPackages \<in> set [])"
      using recorded_start by (simp add: opened_atomic_def)
    fix tr t l u
    assume IH: "recorded tr t \<and> (\<forall>i. halved t i \<noteq> None \<longrightarrow> Invoked i PruneKeyPackages \<in> set tr)" and step: "atomic_step srv t l u"
    have "Invoked i PruneKeyPackages \<in> set (tr @ observation l)" if "halved u i \<noteq> None" for i
      using step
    proof (cases rule: atomic_step.cases)
      case (first_half k now e out x)
      then show ?thesis using that IH recordedD(2) [of tr t k PruneKeyPackages] by (auto split: if_splits)
    qed (use that IH in auto)
    then show "recorded (tr @ observation l) u \<and>
        (\<forall>i. halved u i \<noteq> None \<longrightarrow> Invoked i PruneKeyPackages \<in> set (tr @ observation l))"
      using recorded_step [OF step] IH by blast
  qed
  then show ?thesis ..
qed

text \<open>A job has an answer because it took effect in this step, or had one before.\<close>

lemma newly_responded:
  assumes "atomic_step srv u l u'" and "responded u' i out"
  shows "responded u i out \<or>
    (\<exists>a x. calls u i = Some (Running a) \<and> perform srv a (at_instant x (data u)) = (out, data u'))"
  using assms by (cases rule: atomic_step.cases) (auto simp: responded_def split: if_splits)

lemma invoked_running: "atomic_step srv u (Some (Invoked i a)) u' \<Longrightarrow> calls u' i = Some (Running a)"
  by (erule atomic_step.cases) auto

lemma responded_invoked:
  assumes "atomic_step srv u l u'" and "responded u' i out" and "Invoked i a \<in> set (tr @ observation l)"
  shows "Invoked i a \<in> set tr"
  using assms invoked_running [of srv u i a u'] by (cases l) (auto simp: responded_def)

section \<open>Values that are kept\<close>

locale kept_value =
  fixes srv :: "('a, 's, 'r) service" and inv :: "store \<Rightarrow> bool" and allowed :: "action \<Rightarrow> bool"
    and cell :: "store \<Rightarrow> 'v option" and le :: "'v \<Rightarrow> 'v \<Rightarrow> bool"
    and posts :: "action \<Rightarrow> 'v \<Rightarrow> bool" and accepts :: "reaction \<Rightarrow> bool"
    and gets :: "action \<Rightarrow> bool" and serves :: "'v \<Rightarrow> reaction \<Rightarrow> bool"
  assumes le_trans: "le v v' \<Longrightarrow> le v' v'' \<Longrightarrow> le v v''"
    and step_inv: "inv s \<Longrightarrow> step srv a s t \<Longrightarrow> inv t"
    and step_cell: "inv s \<Longrightarrow> allowed a \<Longrightarrow> step srv a s t \<Longrightarrow> cell s = Some v \<Longrightarrow> \<exists>v'. cell t = Some v' \<and> le v v'"
    and posted: "inv s \<Longrightarrow> posts a v \<Longrightarrow> perform srv a (at_instant x s) = (out, t) \<Longrightarrow> accepts out \<Longrightarrow>
      \<exists>v'. cell t = Some v' \<and> le v v'"
    and got: "inv s \<Longrightarrow> gets a \<Longrightarrow> cell s = Some v \<Longrightarrow> perform srv a (at_instant x s) = (out, t) \<Longrightarrow> serves v out"
begin

definition holds :: "'v \<Rightarrow> store \<Rightarrow> bool" where
  "holds v s \<longleftrightarrow> (\<exists>v'. cell s = Some v' \<and> le v v')"

text \<open>No job that could remove the value is under way.\<close>

definition calm :: "event list \<Rightarrow> atomic \<Rightarrow> bool" where
  "calm tr u \<longleftrightarrow> recorded tr u \<and> inv (data u) \<and> (\<forall>i a. calls u i = Some (Running a) \<longrightarrow> allowed a)"

lemma calm_step:
  assumes "calm tr u" and "atomic_step srv u l u'" and "\<And>i a. l = Some (Invoked i a) \<Longrightarrow> allowed a"
  shows "calm (tr @ observation l) u'" and "holds v (data u) \<Longrightarrow> holds v (data u')"
proof -
  have inv: "inv (data u)" and run: "\<And>i a. calls u i = Some (Running a) \<Longrightarrow> allowed a" and rec: "recorded tr u"
    using assms(1) unfolding calm_def by blast+
  have data: "data u' = data u \<or> (\<exists>a. allowed a \<and> step srv a (data u) (data u'))"
    using assms(2)
  proof (cases rule: atomic_step.cases)
    case (effect i a x out t)
    then show ?thesis using run [OF effect(3)] by (auto dest: performed_step)
  next
    case (first_half i now e out t)
    then show ?thesis using run [OF first_half(3)] by (auto dest: performed_step)
  next
    case (second_half i now fs out t)
    then show ?thesis using run [OF second_half(3)] by (auto dest: performed_step)
  qed auto
  have "allowed a" if "calls u' i = Some (Running a)" for i a
    using assms(2) that run assms(3) by (cases rule: atomic_step.cases) (auto split: if_splits)
  then show "calm (tr @ observation l) u'"
    using data inv step_inv recorded_step [OF assms(2) rec] unfolding calm_def by metis
  show "holds v (data u) \<Longrightarrow> holds v (data u')"
    using data step_cell [OF inv] le_trans unfolding holds_def by metis
qed

text \<open>What is shown of the answers of all jobs of a kind, when it holds of each at the moment it takes effect.\<close>

lemma calm_run:
  assumes "run (atomic_step srv) u tr u'" and "calm us u" and "\<And>i a. Invoked i a \<in> set tr \<Longrightarrow> allowed a" and "P (data u)"
    and keeps: "\<And>s t. P s \<Longrightarrow> (\<And>v. holds v s \<Longrightarrow> holds v t) \<Longrightarrow> P t"
    and effect: "\<And>s x a out t. inv s \<Longrightarrow> P s \<Longrightarrow> of_kind a \<Longrightarrow> perform srv a (at_instant x s) = (out, t) \<Longrightarrow> Q a out t"
    and kept: "\<And>a out s t. Q a out s \<Longrightarrow> (\<And>v. holds v s \<Longrightarrow> holds v t) \<Longrightarrow> Q a out t"
  shows "calm (us @ tr) u' \<and> P (data u') \<and>
     (\<forall>i a out. Invoked i a \<in> set tr \<longrightarrow> of_kind a \<longrightarrow> responded u' i out \<longrightarrow> Q a out (data u'))"
    (is "?R tr u'")
proof -
  have "(\<forall>i a. Invoked i a \<in> set tr \<longrightarrow> allowed a) \<longrightarrow> ?R tr u'"
    using assms(1)
  proof (rule run_invariant)
    have "Q a out (data u)" if "Invoked i a \<in> set []" for i a out using that by simp
    then show "(\<forall>i a. Invoked i a \<in> set [] \<longrightarrow> allowed a) \<longrightarrow> ?R [] u" using assms(2,4) by simp
  next
    fix tr t l w
    assume IH: "(\<forall>i a. Invoked i a \<in> set tr \<longrightarrow> allowed a) \<longrightarrow> ?R tr t" and step: "atomic_step srv t l w"
    show "(\<forall>i a. Invoked i a \<in> set (tr @ observation l) \<longrightarrow> allowed a) \<longrightarrow> ?R (tr @ observation l) w"
    proof
      assume all: "\<forall>i a. Invoked i a \<in> set (tr @ observation l) \<longrightarrow> allowed a"
      then have R: "?R tr t" using IH by simp
      have new: "\<And>i a. l = Some (Invoked i a) \<Longrightarrow> allowed a" using all by simp
      have calm: "calm (us @ tr) t" using R by blast
      note next_step = calm_step [OF calm step new]
      have "Q a out (data w)" if inv: "Invoked i a \<in> set (tr @ observation l)" and kind: "of_kind a" and out: "responded w i out" for i a out
      proof -
        have i: "Invoked i a \<in> set tr" by (rule responded_invoked [OF step out inv])
        consider "responded t i out" | b x where "calls t i = Some (Running b)" "perform srv b (at_instant x (data t)) = (out, data w)"
          using newly_responded [OF step out] by blast
        then show ?thesis
        proof cases
          case 1
          then have "Q a out (data t)" using R i kind by blast
          then show ?thesis by (rule kept) (rule next_step(2))
        next
          case 2
          have b: "b = a" using calm i 2(1) recordedD(2) [of "us @ tr" t i b a] by (simp add: calm_def)
          show ?thesis using effect [OF _ _ kind 2(2) [unfolded b]] R calm unfolding calm_def by blast
        qed
      qed
      moreover have "P (data w)" by (rule keeps [of "data t", OF conjunct1 [OF conjunct2 [OF R]]]) (rule next_step(2))
      ultimately show "?R (tr @ observation l) w" using next_step(1) by simp
    qed
  qed
  then show ?thesis using assms(3) by blast
qed

text \<open>
  The trace comes in three parts. When the first ends no job that could remove the value is under way, and none is
  invoked later; in the second the value is submitted and the submission accepted; in the third it is asked for.
\<close>

lemma atomic_serves:
  assumes run: "run (atomic_step srv) (opened_atomic db) (xs @ ys @ zs) u" and start: "inv (data (opened_atomic db))"
    and settled: "\<And>k a. Invoked k a \<in> set xs \<Longrightarrow> \<not> allowed a \<Longrightarrow> \<exists>out. Returned k out \<in> set xs"
    and allowed: "\<And>k a. Invoked k a \<in> set (ys @ zs) \<Longrightarrow> allowed a"
    and post: "Invoked i a \<in> set ys" "posts a v" "Returned i r \<in> set ys" "accepts r"
    and get: "Invoked j g \<in> set zs" "gets g" "Returned j out \<in> set zs"
  shows "\<exists>v'. le v v' \<and> serves v' out"
proof -
  obtain m n where m: "run (atomic_step srv) (opened_atomic db) xs m" and n: "run (atomic_step srv) m ys n"
    and u: "run (atomic_step srv) n zs u" using run by (metis run_split)
  have "recorded xs m \<and> inv (data m)"
    using m
  proof (rule run_invariant [where P = "\<lambda>tr u. recorded tr u \<and> inv (data u)"])
    fix tr t l w assume "recorded tr t \<and> inv (data t)" and step: "atomic_step srv t l w"
    then show "recorded (tr @ observation l) w \<and> inv (data w)"
      using recorded_step [OF step] atomic_step_data [OF step] step_inv by metis
  qed (use start recorded_start in blast)
  moreover have "allowed b" if "calls m k = Some (Running b)" for k b
    using settled [of k b] recordedD(2,3) [of xs m k] calculation that by (metis job.distinct(3) option.inject)
  ultimately have calm: "calm xs m" by (simp add: calm_def)
  have "calm (xs @ ys) n \<and> True \<and> (\<forall>i a out. Invoked i a \<in> set ys \<longrightarrow> (\<exists>v. posts a v) \<longrightarrow> responded n i out \<longrightarrow>
      (\<forall>v. posts a v \<longrightarrow> accepts out \<longrightarrow> holds v (data n)))"
    by (rule calm_run [OF n calm]) (use allowed posted in \<open>auto simp: holds_def\<close>)
  moreover have "responded n i r"
    using calculation recordedD(3) [of "xs @ ys" n i r] post(3) by (simp add: calm_def responded_def)
  ultimately have calm': "calm (xs @ ys) n" and holds: "holds v (data n)" using post by blast+
  have "calm ((xs @ ys) @ zs) u \<and> holds v (data u) \<and> (\<forall>i a out. Invoked i a \<in> set zs \<longrightarrow> gets a \<longrightarrow> responded u i out \<longrightarrow>
      (\<exists>v'. le v v' \<and> serves v' out))"
    by (rule calm_run [OF u calm']) (use allowed holds got in \<open>auto simp: holds_def\<close>)
  moreover have "responded u j out"
    using calculation recordedD(3) [of "(xs @ ys) @ zs" u j out] get(3) by (simp add: calm_def responded_def)
  ultimately show ?thesis using get by blast
qed

lemma concurrent_serves:
  assumes run: "run (concurrent_step srv) (opened_world db) (xs @ ys @ zs) w" and start: "inv (store_of db)"
    and settled: "\<And>k a. Invoked k a \<in> set xs \<Longrightarrow> \<not> allowed a \<Longrightarrow> \<exists>out. Returned k out \<in> set xs"
    and allowed: "\<And>k a. Invoked k a \<in> set (ys @ zs) \<Longrightarrow> allowed a"
    and post: "Invoked i a \<in> set ys" "posts a v" "Returned i r \<in> set ys" "accepts r"
    and get: "Invoked j g \<in> set zs" "gets g" "Returned j out \<in> set zs"
  obtains v' where "le v v'" and "serves v' out"
proof -
  obtain u where u: "run (atomic_step srv) (opened_atomic db) (xs @ ys @ zs) u"
    by (rule linearized.simulated [OF run opened_simulated])
  have "inv (data (opened_atomic db))" using start by (simp add: opened_atomic_def store_of_def)
  then have "\<exists>v'. le v v' \<and> serves v' out" by (rule atomic_serves [OF u _ _ _ post get]) (fact settled allowed)+
  then show thesis using that by blast
qed

end

section \<open>Account logs\<close>

text \<open>Requests that submit a log for an account and that fetch it, and the answers to them.\<close>

definition log_posts :: "('a, 's, 'r) service \<Rightarrow> 'a \<Rightarrow> action \<Rightarrow> bytes \<Rightarrow> bool" where
  "log_posts srv addr act body \<longleftrightarrow>
     (\<exists>req path. act = Http req \<and> select_route (web srv) router req = Inr (SubmitAccountV1, path) \<and>
        addr_parse (account_log srv) path = Some addr \<and> extract_bytes (web srv) req = Inr body)"

definition log_gets :: "('a, 's, 'r) service \<Rightarrow> 'a \<Rightarrow> action \<Rightarrow> bool" where
  "log_gets srv addr act \<longleftrightarrow>
     (\<exists>req path. act = Http req \<and> select_route (web srv) router req = Inr (FetchAccountV1, path) \<and>
        addr_parse (account_log srv) path = Some addr)"

definition stored_answer :: "reaction \<Rightarrow> bool" where
  "stored_answer out \<longleftrightarrow> out = Responded (status_only NO_CONTENT)"

definition log_served :: "bytes \<Rightarrow> reaction \<Rightarrow> bool" where
  "log_served body out \<longleftrightarrow>
     (\<exists>resp. out = Responded resp \<and>
        (resp_status resp = OK \<and> resp_body resp = RawBody body \<or> resp_status resp = INTERNAL_SERVER_ERROR))"

lemma error_answer: "into_response (api_error_from d api e) \<noteq> status_only NO_CONTENT"
  by (simp add: into_response_def status_only_def api_error_from_def internal_def split: bundle_error.split)

lemma submit_answered:
  assumes "respond status_only h s = (status_only NO_CONTENT, t)" and "h s = answer (api_error_from d api) NO_CONTENT (r, u)"
  shows "is_ok r \<and> u = t"
  using assms error_answer [of d api] by (cases r) (auto simp: respond_def)

context account_log_crate
begin

lemma accepted_log:
  assumes inv: "logs_verified api s" and "apply_account_log api a slog s = (Inr (), t)"
  shows "\<exists>v. log_cell t (addr_to_string api a) = Some v \<and> prefix (drop 64 (signed_to_bytes api slog)) (drop 64 v)"
  using assms(2)
proof (cases rule: apply_account_log_cases)
  case (unchanged c upd)
  have c: "record_key api c = addr_to_string api a" "record_artifact api c = signed_to_bytes api slog"
    using made_from [OF unchanged(1)] by (simp_all add: record_key_def record_artifact_def)
  have same: "upd_outcome upd = Unchanged Identical" using unchanged(3,4) outcome_result_Inr [of api "upd_outcome upd" "()"] by simp
  obtain old where old: "log_cell s (addr_to_string api a) = Some old"
    using decision_first [of s c] unchanged(2,3) c(1) by (cases "log_cell s (addr_to_string api a)") auto
  let ?new = "signed_to_bytes api slog"
  have "\<not> extends old ?new \<and> \<not> extends ?new old \<and> (prefix (drop 64 old) (drop 64 ?new) \<or> prefix (drop 64 ?new) (drop 64 old))"
    by (rule decision_compared [OF inv new_valid [OF unchanged(1)], of old]) (use old c unchanged(2) same in auto)
  then have "drop 64 old = drop 64 ?new" unfolding extends_def by (metis prefix_order.le_less)
  then show ?thesis using old log_cell_env [OF unchanged(5)] by simp
next
  case (stored c upd u)
  have c: "record_key api c = addr_to_string api a" "record_artifact api c = signed_to_bytes api slog"
    using made_from [OF stored(1)] by (simp_all add: record_key_def record_artifact_def)
  have "upd_record upd = c"
  proof (cases "log_cell s (addr_to_string api a)")
    case None
    then show ?thesis using decision_first [of s c] stored(2) c(1) by simp
  next
    case (Some old)
    show ?thesis
      by (rule decision_compared [OF inv new_valid [OF stored(1)], of old]) (use Some c stored(2,3) in auto)
  qed
  then have "log_cell t (addr_to_string api a) = Some (signed_to_bytes api slog)"
    using stored(6) made_from [OF stored(1)] by (simp add: log_cell_def)
  then show ?thesis by simp
qed simp_all

end

lemma serve_http:
  assumes "perform srv (Http req) s = (Responded resp, t)" and "select_route (web srv) router req = Inr (ep, param)"
  shows "call_endpoint (web srv) (codecs srv) (account_log srv) ep param req s = (resp, t)"
  using assms by (auto simp: perform_def serve_def map_prod_def split: prod.splits)

lemma perform_http: "perform srv (Http req) s = (out, t) \<Longrightarrow> \<exists>resp. out = Responded resp"
  by (auto simp: perform_def map_prod_def split: prod.splits)

lemma log_posted:
  assumes laws: "account_log_laws (account_log srv)" and inv: "logs_verified (account_log srv) s"
    and "log_posts srv addr act v" and run: "perform srv act s = (out, t)" and "stored_answer out"
  shows "\<exists>v'. log_cell t (addr_to_string (account_log srv) addr) = Some v' \<and> prefix (drop 64 v) (drop 64 v')"
proof -
  let ?api = "account_log srv"
  from assms(3) obtain req path where act: "act = Http req" and route: "select_route (web srv) router req = Inr (SubmitAccountV1, path)"
    and path: "addr_parse ?api path = Some addr" "extract_bytes (web srv) req = Inr v" unfolding log_posts_def by blast
  have "perform srv (Http req) s = (Responded (status_only NO_CONTENT), t)"
    using run assms(5) act by (simp add: stored_answer_def)
  from serve_http [OF this route] path
  have sub: "respond status_only (submit_account_v1 (codecs srv) ?api path v) s = (status_only NO_CONTENT, t)"
    by (simp add: call_endpoint_def)
  obtain slog where slog: "signed_from_bytes ?api v = Inr slog"
    using sub path error_answer [of "codecs srv" ?api] by (cases "signed_from_bytes ?api v") (auto simp: submit_account_v1_run respond_def)
  obtain r u where applied: "apply_account_log ?api addr slog s = (r, u)" by fastforce
  have "is_ok r \<and> u = t"
    by (rule submit_answered [OF sub]) (simp add: submit_account_v1_run path slog applied)
  then have "apply_account_log ?api addr slog s = (Inr (), t)" using applied by (auto simp: is_ok_def split: sum.splits)
  from account_log_crate.accepted_log [OF account_log_crate.intro [OF laws] inv this] show ?thesis
    using artifact_lawsD(2) [OF account_log_lawsD(2) [OF laws] slog] by simp
qed

lemma log_fetched:
  assumes "log_gets srv addr act" and "perform srv act s = (out, t)"
    and "log_cell s (addr_to_string (account_log srv) addr) = Some v"
  shows "log_served v out"
proof -
  let ?api = "account_log srv"
  from assms(1) obtain req path where act: "act = Http req" and route: "select_route (web srv) router req = Inr (FetchAccountV1, path)"
    and path: "addr_parse ?api path = Some addr" unfolding log_gets_def by blast
  obtain resp where out: "out = Responded resp" using perform_http assms(2) act by blast
  from serve_http [OF assms(2) [unfolded act out] route] path assms(3) show ?thesis
    by (auto simp: out log_served_def call_endpoint_def respond_def fetch_account_v1_def parse_addr_def get_account_log_def
        fetch_pool_def db_call_def try_await_def map_err_def lift_result_def ok_def fail_def internal_def into_response_def log_cell_def
        split: list.splits option.splits)
qed

interpretation served_logs: kept_value srv "\<lambda>s. account_log_laws (account_log srv) \<and> logs_verified (account_log srv) s"
  "\<lambda>_. True" "\<lambda>s. log_cell s (addr_to_string (account_log srv) addr)" "\<lambda>v v'. prefix (drop 64 v) (drop 64 v')"
  "log_posts srv addr" stored_answer "log_gets srv addr" log_served
  for srv :: "('a, 's, 'r) service" and addr
proof (unfold_locales, goal_cases)
  case (1 v v' v'') then show ?case by (rule prefix_order.trans)
next
  case (2 s a t)
  then show ?case
    using store_invariant.step_keep [OF account_log_crate.logs_invariant [OF account_log_crate.intro] 2(2) refl refl] by blast
next
  case (3 s a t v)
  then show ?case
    using account_log_crate.step_log_cell [OF account_log_crate.intro _ refl 3(3), of "addr_to_string (account_log srv) addr" v]
    by (auto simp: extends_def strict_prefix_def)
next
  case (4 s a v x out t)
  then show ?case using log_posted [of srv "at_instant x s"] by simp
next
  case (5 s a v x out t)
  then show ?case using log_fetched [of srv addr a "at_instant x s"] by simp
qed

section \<open>Account bundles\<close>

definition account_posts :: "('a, 's, 'r) service \<Rightarrow> string \<Rightarrow> action \<Rightarrow> bytes \<times> bytes \<Rightarrow> bool" where
  "account_posts srv k act v \<longleftrightarrow>
     (\<exists>req path body b. act = Http req \<and> select_route (web srv) router req = Inr (SubmitAccountV0, path) \<and>
        extract_account (web srv) req = Inr body \<and> decode_account (codecs srv) body = Inr b \<and>
        k = key_hex (codecs srv) b \<and> v = bundle_value b)"

definition account_gets :: "('a, 's, 'r) service \<Rightarrow> string \<Rightarrow> action \<Rightarrow> bool" where
  "account_gets srv k act \<longleftrightarrow> (\<exists>req. act = Http req \<and> select_route (web srv) router req = Inr (FetchAccountV0, k))"

definition account_served :: "deps \<Rightarrow> bytes \<times> bytes \<Rightarrow> reaction \<Rightarrow> bool" where
  "account_served d v out \<longleftrightarrow>
     (\<exists>resp. out = Responded resp \<and>
        (resp_status resp = OK \<and> (\<exists>time. resp_body resp = AccountBody
           \<lparr>fac_payload = b64_encode d (fst v), fac_signature = b64_encode d (snd v), fac_updated_at = time\<rparr>) \<or>
         resp_status resp = INTERNAL_SERVER_ERROR))"

lemma account_posted:
  assumes "account_posts srv k act v" and run: "perform srv act s = (out, t)" and "stored_answer out"
  shows "account_cell t k = Some v"
proof -
  let ?d = "codecs srv" and ?api = "account_log srv"
  from assms(1) obtain req path body b where act: "act = Http req"
    and route: "select_route (web srv) router req = Inr (SubmitAccountV0, path)"
    and body: "extract_account (web srv) req = Inr body" "decode_account ?d body = Inr b"
    and k: "k = key_hex ?d b" "v = bundle_value b" unfolding account_posts_def by blast
  have "perform srv (Http req) s = (Responded (status_only NO_CONTENT), t)"
    using run assms(3) act by (simp add: stored_answer_def)
  from serve_http [OF this route] body
  have sub: "respond status_only (submit_account_v0 ?d ?api body) s = (status_only NO_CONTENT, t)"
    by (simp add: call_endpoint_def)
  obtain r u where applied: "apply_account ?d b s = (r, u)" by fastforce
  have ok: "is_ok r \<and> u = t"
    by (rule submit_answered [OF sub]) (simp add: submit_account_v0_run body applied)
  have "submit_account_at ?d (clock s, faults s) b s = (r, u)"
    using applied by (simp add: submit_account_at_def at_instant_def)
  from submit_account_at_stored(1) [OF this] ok k show ?thesis by simp
qed

lemma account_fetched:
  assumes "account_gets srv k act" and "perform srv act s = (out, t)" and "account_cell s k = Some v"
  shows "account_served (codecs srv) v out"
proof -
  from assms(1) obtain req where act: "act = Http req" and route: "select_route (web srv) router req = Inr (FetchAccountV0, k)"
    unfolding account_gets_def by blast
  obtain resp where out: "out = Responded resp" using perform_http assms(2) act by blast
  from serve_http [OF assms(2) [unfolded act out] route] assms(3) show ?thesis
    by (auto simp: out account_served_def call_endpoint_def respond_def fetch_account_v0_def get_account_def
        fetch_pool_def db_call_def try_await_def map_err_def ok_def fail_def internal_def into_response_def account_cell_def
        split: list.splits option.splits)
qed

interpretation served_accounts: kept_value srv "\<lambda>_. True" "\<lambda>a. a \<noteq> PruneAccounts" "\<lambda>s. account_cell s k"
  "\<lambda>v v'. v' = v \<or> lamport_newer v v'" "account_posts srv k" stored_answer "account_gets srv k"
  "account_served (codecs srv)"
  for srv :: "('a, 's, 'r) service" and k
proof (unfold_locales, goal_cases)
  case (1 v v' v'') then show ?case using lamport_newer_trans by blast
next
  case (3 s a t v) then show ?case using rising.advance [of srv s t k v] by blast
next
  case (4 s a v x out t) then show ?case using account_posted [of srv k a v "at_instant x s"] by blast
next
  case (5 s a v x out t) then show ?case using account_fetched [of srv k a "at_instant x s"] by simp
qed simp

end
