(* ===== verification/Lock_Progress.thy ===== *)
theory Lock_Progress
  imports Write_Lock
begin

text \<open>
  Progress under the write lock of \<open>src/store.rs\<close>. Theory \<open>Write_Lock\<close> shows that nothing bad happens
  among the tasks that share the lock; this theory shows that each of them ends. Every operation that
  takes the lock awaits at most four database calls before it gives it back, no configuration is stuck,
  and without new arrivals the tasks are through after a bounded number of steps, whichever of
  their calls fail and whichever of them are dropped.
\<close>

section \<open>Definitions\<close>

text \<open>The operations of the store that take the lock.\<close>

inductive store_write :: "('a, 's, 'r) account_log_api \<Rightarrow> operation \<Rightarrow> bool" for api where
  "store_write api (insert_op device_id b)"
| "store_write api (upsert_account_op account_pub lamport ab)"
| "store_write api (put_account_log_op api candidate)"
| "store_write api (prune_accounts_op window)"
| "store_write api (prune_key_packages_op max_rows window)"

text \<open>At most \<open>n\<close> calls are left, whatever the tables are when they are made.\<close>

primrec within :: "nat \<Rightarrow> prog \<Rightarrow> bool" where
  "within 0 p = (case p of Done _ \<Rightarrow> True | Call _ \<Rightarrow> False)"
| "within (Suc n) p = (case p of Done _ \<Rightarrow> True | Call f \<Rightarrow> \<forall>db. within n (snd (f db)))"

definition pending :: "conf \<Rightarrow> nat \<Rightarrow> operation \<Rightarrow> bool" where
  "pending c i op \<longleftrightarrow>
     tasks c i = Some (Waiting op) \<or> (\<exists>now fs p. tasks c i = Some (Holding op now fs p))"

definition unfinished :: "conf \<Rightarrow> nat set" where
  "unfinished c = {i. \<exists>op. pending c i op}"

text \<open>A step of the tasks that are there: anything but an arrival.\<close>

definition busy_step :: "conf \<Rightarrow> conf \<Rightarrow> bool" where
  "busy_step c c' \<longleftrightarrow> lock_step c c' \<and> dom (tasks c') \<subseteq> dom (tasks c)"

section \<open>Calls left\<close>

lemma within_Done [simp]: "within n (Done r)"
  by (cases n) simp_all

lemma within_Suc: "within n p \<Longrightarrow> within (Suc n) p"
proof (induction n arbitrary: p)
  case 0
  then show ?case by (cases p) simp_all
next
  case (Suc n)
  show ?case
  proof (cases p)
    case (Call f)
    then have "within n (snd (f db))" for db using Suc.prems by simp
    then have "within (Suc n) (snd (f db))" for db by (rule Suc.IH)
    then show ?thesis by (simp only: Call within.simps(2) prog.case) blast
  qed simp
qed

lemma within_call: "within n (Call f) \<Longrightarrow> \<exists>m. n = Suc m \<and> within m (snd (f db))"
  by (cases n) auto

lemma within_calls [simp]:
  "within (Suc n) (call_pool stmt rest) \<longleftrightarrow> (\<exists>db. stmt db \<noteq> None) \<longrightarrow> within n rest"
  "within (Suc n) (call_begin k) \<longleftrightarrow> (\<forall>db. within n (k db))"
  "within (Suc n) (call_tx rest) \<longleftrightarrow> within n rest"
  "within (Suc n) (call_commit tx rest) \<longleftrightarrow> within n rest"
  by (auto simp: call_pool_def call_begin_def call_tx_def call_commit_def split: option.splits)

lemma store_write_within: "store_write api op \<Longrightarrow> within 4 (op now)"
proof -
  assume "store_write api op"
  then have "within (Suc (Suc (Suc (Suc 0)))) (op now)"
    by (induction rule: store_write.induct)
      (auto simp: insert_op_def upsert_account_op_def put_account_log_op_decision prune_accounts_op_def
        prune_key_packages_op_def Let_def simp del: within.simps split: option.splits sum.splits)
  moreover have "(4 :: nat) = Suc (Suc (Suc (Suc 0)))" by simp
  ultimately show ?thesis by (simp only:)
qed

text \<open>A holder never has more calls left than its operation started with.\<close>

lemma holding_within:
  assumes "lock_step\<^sup>*\<^sup>* (opened_conf db0) c" and "tasks c i = Some (Holding op now fs p)" and "within n (op now)"
  shows "within n p"
  using assms
proof (induction arbitrary: i op now fs p rule: rtranclp_induct)
  case base
  then show ?case by (simp add: opened_conf_def)
next
  case (step c c')
  from step(2,4) show ?case
  proof (cases rule: lock_step.cases)
    case (call i' op' now' fs' f db rest)
    show ?thesis
    proof (cases "i = i'")
      case True
      with call step(4) have "op = op'" "now = now'" "p = rest" by auto
      with step.IH [OF call(2)] step(5) have "within n (Call f)" by simp
      from within_call [OF this, of "committed c"] show ?thesis
        using call(3) \<open>p = rest\<close> within_Suc by auto
    next
      case False
      with call step show ?thesis by auto
    qed
  qed (use step in \<open>auto split: if_splits\<close>)
qed

section \<open>Steps left\<close>

text \<open>
  The steps a task may still take: the lock, its calls, and giving the lock back.
\<close>

definition calls_left :: "prog \<Rightarrow> nat" where
  "calls_left p = (LEAST n. within n p)"

fun task_steps :: "task option \<Rightarrow> nat" where
  "task_steps (Some (Waiting op)) = 6"
| "task_steps (Some (Holding op now fs p)) = Suc (calls_left p)"
| "task_steps _ = 0"

definition steps_left :: "nat set \<Rightarrow> conf \<Rightarrow> nat" where
  "steps_left D c = (\<Sum>i \<in> D. task_steps (tasks c i))"

lemma calls_left_le: "within n p \<Longrightarrow> calls_left p \<le> n"
  unfolding calls_left_def by (rule Least_le)

lemma calls_left_Done [simp]: "calls_left (Done r) = 0"
  by (simp add: calls_left_def)

lemma calls_left_call:
  assumes "within n (Call f)" and "f db = (db', rest)"
  shows "calls_left rest < calls_left (Call f)" and "0 < calls_left (Call f)"
proof -
  have "within (calls_left (Call f)) (Call f)" unfolding calls_left_def by (rule LeastI [of "\<lambda>n. within n (Call f)", OF assms(1)])
  from within_call [OF this, of db] show "calls_left rest < calls_left (Call f)" "0 < calls_left (Call f)"
    using calls_left_le assms(2) by fastforce+
qed

lemma steps_left_update:
  assumes "finite D" and "i \<in> D" and "task_steps x < task_steps (tasks c i)" and "tasks c' = (tasks c)(i := x)"
  shows "steps_left D c' < steps_left D c"
  unfolding steps_left_def by (rule sum_strict_mono_ex1) (use assms in auto)

text \<open>Every pending operation is one of the store's.\<close>

definition store_writes :: "('a, 's, 'r) account_log_api \<Rightarrow> conf \<Rightarrow> bool" where
  "store_writes api c \<longleftrightarrow> (\<forall>i op. pending c i op \<longrightarrow> store_write api op)"

text \<open>A step starts no operation but one that arrives.\<close>

lemma lock_step_pending: "lock_step c c' \<Longrightarrow> pending c' i op \<Longrightarrow> pending c i op \<or> tasks c i = None"
  by (erule lock_step.cases) (auto simp: pending_def split: if_splits)

lemma busy_step_pending: "busy_step c c' \<Longrightarrow> pending c' i op \<Longrightarrow> pending c i op"
  using lock_step_pending [of c c' i op] by (auto simp: busy_step_def pending_def)

lemma busy_step_writes: "busy_step c c' \<Longrightarrow> store_writes api c \<Longrightarrow> store_writes api c'"
  unfolding store_writes_def using busy_step_pending by blast

text \<open>A step brings one task closer to its end.\<close>

lemma busy_step_task:
  assumes reach: "lock_step\<^sup>*\<^sup>* (opened_conf db0) c" and writes: "store_writes api c" and step: "busy_step c c'"
  obtains i x where "tasks c' = (tasks c)(i := x)" and "task_steps x < task_steps (tasks c i)"
proof -
  have short: "within 4 (op now)" if "pending c i op" for i op now
    using that writes store_write_within unfolding store_writes_def by blast
  have held: "within 4 p" if "tasks c i = Some (Holding op now fs p)" for i op now fs p
    using holding_within [OF reach that] short that unfolding pending_def by blast
  have "lock_step c c'" and dom: "dom (tasks c') \<subseteq> dom (tasks c)" using step by (auto simp: busy_step_def)
  then show thesis
  proof (cases rule: lock_step.cases)
    case (arrive i op)
    then show thesis using dom by auto
  next
    case (lock i op now)
    have "calls_left (op now) \<le> 4" by (rule calls_left_le) (use short lock(2) in \<open>auto simp: pending_def\<close>)
    then show thesis using lock by (intro that [of i "Some (Holding op now [] (op now))"]) auto
  next
    case (call i op now fs f db rest)
    then show thesis using calls_left_call(1) [OF held [OF call(2)] call(3)]
      by (intro that [of i "Some (Holding op now (fs @ [None]) rest)"]) auto
  next
    case (call_fails i op now fs f e)
    obtain db rest where "f (committed c) = (db, rest)" by fastforce
    from calls_left_call(2) [OF held [OF call_fails(2)] this] call_fails show thesis
      by (intro that [of i "Some (Holding op now (fs @ [Some e]) (Done (Inl (AnySqlx e))))"]) auto
  next
    case (unlock i op now fs r)
    then show thesis by (intro that [of i "Some (Finished op r)"]) auto
  next
    case (dropped_waiting i op)
    then show thesis by (intro that [of i None]) auto
  next
    case (dropped_holding i op now fs p)
    then show thesis by (intro that [of i None]) auto
  qed
qed

lemma busy_step_less:
  assumes reach: "lock_step\<^sup>*\<^sup>* (opened_conf db0) c" and writes: "store_writes api c" and step: "busy_step c c'"
    and D: "finite D" "dom (tasks c) \<subseteq> D"
  shows "steps_left D c' < steps_left D c"
proof -
  obtain i x where x: "tasks c' = (tasks c)(i := x)" "task_steps x < task_steps (tasks c i)"
    by (rule busy_step_task [OF reach writes step])
  then have "i \<in> D" using D(2) by (cases "tasks c i") auto
  then show ?thesis by (rule steps_left_update [OF D(1) _ x(2,1)])
qed

lemma busy_steps_bound:
  assumes "lock_step\<^sup>*\<^sup>* (opened_conf db0) c" and "store_writes api c" and "finite D" and "dom (tasks c) \<subseteq> D"
    and "(busy_step ^^ n) c c'"
  shows "n + steps_left D c' \<le> steps_left D c"
  using assms
proof (induction n arbitrary: c)
  case (Suc n)
  from Suc.prems(5) obtain c1 where first: "busy_step c c1" and rest: "(busy_step ^^ n) c1 c'"
    by (meson relpowp_Suc_D2)
  have "lock_step\<^sup>*\<^sup>* (opened_conf db0) c1" and "dom (tasks c1) \<subseteq> D"
    using Suc.prems(1,4) first unfolding busy_step_def by (blast intro: rtranclp.rtrancl_into_rtrancl)+
  from Suc.IH [OF this(1) busy_step_writes [OF first Suc.prems(2)] Suc.prems(3) this(2) rest]
  show ?case using busy_step_less [OF Suc.prems(1,2) first Suc.prems(3,4)] by linarith
qed simp

lemma lock_step_dom: "lock_step c c' \<Longrightarrow> \<exists>i. dom (tasks c') \<subseteq> insert i (dom (tasks c))"
  by (erule lock_step.cases) (auto split: if_splits)

lemma finite_tasks: "lock_step\<^sup>*\<^sup>* (opened_conf db0) c \<Longrightarrow> finite (dom (tasks c))"
  by (induction rule: rtranclp_induct)
    (auto simp: opened_conf_def dest!: lock_step_dom intro: finite_subset)

lemma steps_left_unfinished:
  assumes "lock_step\<^sup>*\<^sup>* (opened_conf db0) c" and "store_writes api c"
  shows "steps_left (dom (tasks c)) c \<le> 6 * card (unfinished c)"
proof -
  have sub: "unfinished c \<subseteq> dom (tasks c)" by (auto simp: unfinished_def pending_def)
  have fin: "finite (dom (tasks c))" by (rule finite_tasks [OF assms(1)])
  have zero: "task_steps (tasks c i) = 0" if "i \<notin> unfinished c" for i
    using that by (cases "tasks c i" rule: task_steps.cases) (auto simp: unfinished_def pending_def)
  have "task_steps (tasks c i) \<le> 6" for i
  proof (cases "tasks c i" rule: task_steps.cases)
    case (2 op now fs p)
    then have "within 4 (op now)"
      using assms(2) store_write_within unfolding store_writes_def pending_def by blast
    from calls_left_le [OF holding_within [OF assms(1) 2 this]] 2 show ?thesis by simp
  qed auto
  then have "(\<Sum>i \<in> unfinished c. task_steps (tasks c i)) \<le> of_nat (card (unfinished c)) * 6"
    by (intro sum_bounded_above)
  moreover have "steps_left (dom (tasks c)) c = (\<Sum>i \<in> unfinished c. task_steps (tasks c i))"
    unfolding steps_left_def by (rule sum.mono_neutral_right [OF fin sub]) (use zero in auto)
  ultimately show ?thesis by simp
qed

text \<open>No deadlock: whoever has the lock can go on, and if nobody has it, whoever waits can take it.\<close>

lemma lock_stepI:
  "lock_step c c' \<Longrightarrow> tasks c i = Some t \<Longrightarrow> tasks c' = (tasks c)(i \<mapsto> t') \<Longrightarrow> \<exists>c'. lock_step c c' \<and> dom (tasks c') = dom (tasks c)"
  by (rule exI [of _ c']) auto

lemma lock_step_possible:
  assumes "lock_step\<^sup>*\<^sup>* (opened_conf db0) c" and "i \<in> unfinished c"
  shows "\<exists>c'. lock_step c c' \<and> dom (tasks c') = dom (tasks c)"
proof -
  have holder: ?thesis if held: "tasks c j = Some (Holding op now fs p)" for j op now fs p
  proof (cases p)
    case (Done r)
    show ?thesis by (rule lock_stepI [OF lock_step.unlock [of c j op now fs r], of j]) (use held Done in auto)
  next
    case (Call f)
    obtain db rest where "f (committed c) = (db, rest)" by fastforce
    then show ?thesis by (intro lock_stepI [OF lock_step.call [of c j op now fs f db rest], of j]) (use held Call in auto)
  qed
  show ?thesis
  proof (cases "write_lock c")
    case None
    from assms(2) obtain op where "pending c i op" by (auto simp: unfinished_def)
    then consider "tasks c i = Some (Waiting op)" | now fs p where "tasks c i = Some (Holding op now fs p)"
      by (auto simp: pending_def)
    then show ?thesis
    proof cases
      case 1
      show ?thesis by (rule lock_stepI [OF lock_step.lock [of c i op 0], of i]) (use 1 None in auto)
    next
      case 2
      then show ?thesis by (rule holder)
    qed
  next
    case (Some j)
    then show ?thesis using lock_inv_owner [OF run_inv [OF assms(1)]] holder by blast
  qed
qed

lemma busy_step_possible:
  "lock_step\<^sup>*\<^sup>* (opened_conf db0) c \<Longrightarrow> i \<in> unfinished c \<Longrightarrow> \<exists>c'. busy_step c c'"
  unfolding busy_step_def by (drule (1) lock_step_possible) blast

section \<open>Every task ends\<close>

text \<open>
  Every operation that takes the write lock ends. From any configuration the service can be in, as long as
  some task waits for the lock or has it some task can make a step, and the steps the tasks of that
  configuration can make before all of them have ended are at most six for each of them, in whatever order
  they run, whichever of their database calls fail and whichever of them are dropped: one to take the lock, at
  most four database calls, and one to give the lock back. When none is left the lock is free.
\<close>

lemma write_lock_progress:
  assumes "lock_step\<^sup>*\<^sup>* (opened_conf db0) c" and "store_writes api c"
  shows "(unfinished c \<noteq> {} \<longrightarrow> (\<exists>c'. busy_step c c')) \<and>
     (\<forall>n c'. (busy_step ^^ n) c c' \<longrightarrow> n \<le> 6 * card (unfinished c)) \<and>
     (\<forall>c'. busy_step\<^sup>*\<^sup>* c c' \<and> \<not> (\<exists>c''. busy_step c' c'') \<longrightarrow> unfinished c' = {} \<and> write_lock c' = None)"
proof (intro conjI allI impI)
  show "\<exists>c'. busy_step c c'" if "unfinished c \<noteq> {}" using that busy_step_possible [OF assms(1)] by blast
  show "n \<le> 6 * card (unfinished c)" if "(busy_step ^^ n) c c'" for n c'
    using busy_steps_bound [OF assms finite_tasks [OF assms(1)] order_refl that] steps_left_unfinished [OF assms]
    by linarith
  fix c' assume run: "busy_step\<^sup>*\<^sup>* c c' \<and> \<not> (\<exists>c''. busy_step c' c'')"
  have "lock_step\<^sup>*\<^sup>* c c'"
    by (rule rtranclp_mono [THEN predicate2D, OF _ conjunct1 [OF run]]) (auto simp: busy_step_def)
  with assms(1) have reach: "lock_step\<^sup>*\<^sup>* (opened_conf db0) c'" by (rule rtranclp_trans)
  then show none: "unfinished c' = {}" using busy_step_possible [OF reach] run by blast
  show "write_lock c' = None"
    using lock_inv_owner [OF run_inv [OF reach]] none
    by (cases "write_lock c'") (fastforce simp: unfinished_def pending_def)+
qed

end
