(* ===== verification/Service_Progress.thy ===== *)
theory Service_Progress
  imports Linearization Lock_Progress
begin

text \<open>
  Progress of the service. Theory \<open>Linearization\<close> says what the answers of concurrent jobs are; this theory says
  that there are answers: no mix of requests, messages and prunes is ever stuck, and once nothing new comes in, as
  after the shutdown signal of \<open>src/main.rs\<close>, the jobs that are left end after a bounded number of steps, whichever of
  their database calls fail and whichever of them are given up.
\<close>

section \<open>Definitions\<close>

definition outstanding :: "world \<Rightarrow> nat set" where
  "outstanding w = {i. (\<exists>a. jobs w i = Some (Running a)) \<or> (\<exists>out. jobs w i = Some (Responding out))}"

text \<open>A step of the jobs that are there: anything but an invocation.\<close>

definition drain_step :: "('a, 's, 'r) service \<Rightarrow> world \<Rightarrow> world \<Rightarrow> bool" where
  "drain_step srv w w' \<longleftrightarrow> (\<exists>l. concurrent_step srv w l w') \<and> dom (jobs w') \<subseteq> dom (jobs w)"

text \<open>
  The steps a job may still make: joining the queue of the lock, the steps of theory \<open>Lock_Progress\<close>, taking the
  result, and answering.
\<close>

definition job_steps :: "world \<Rightarrow> nat \<Rightarrow> nat" where
  "job_steps w i =
     (case jobs w i of
        Some (Running a) \<Rightarrow> (case tasks (locked w) i of None \<Rightarrow> 9 | t \<Rightarrow> task_steps t + 2)
      | Some (Responding out) \<Rightarrow> 1
      | _ \<Rightarrow> 0)"

definition work_left :: "nat set \<Rightarrow> world \<Rightarrow> nat" where
  "work_left D w = (\<Sum>i \<in> D. job_steps w i)"

section \<open>Every write of the service is one of the store's\<close>

lemma write_plans_store:
  "keypackage_plan d b = Update op k \<Longrightarrow> store_write api op"
  "account_plan d b = Update op k \<Longrightarrow> store_write api op"
  "log_plan api a slog = Update op k \<Longrightarrow> store_write api op"
  by (auto simp: keypackage_plan_def account_plan_def log_plan_def store_write.intros
      split: sum.splits option.splits account_log_error.splits)

lemma plan_store_write: "plan_of srv a = Update op k \<Longrightarrow> store_write (account_log srv) op"
  by (auto simp: plan_of_def request_plan_def message_plan_defs endpoint_plan_def handler_plan_defs
      fetched_def map_plan_out_Update
      intro: store_write.intros write_plans_store
      split: action.splits sum.splits prod.splits endpoint.splits received.splits)

section \<open>What holds at every moment of a run\<close>

definition in_service :: "('a, 's, 'r) service \<Rightarrow> tables \<Rightarrow> world \<Rightarrow> bool" where
  "in_service srv db0 w \<longleftrightarrow>
     lock_step\<^sup>*\<^sup>* (opened_conf db0) (locked w) \<and> (\<exists>u. simulates srv db0 w u) \<and> finite (dom (jobs w))"

lemma concurrent_step_locked: "concurrent_step srv w l w' \<Longrightarrow> locked w' = locked w \<or> lock_step (locked w) (locked w')"
  by (erule concurrent_step.cases) (auto intro: lock_step.arrive)

lemma concurrent_step_jobs: "concurrent_step srv w l w' \<Longrightarrow> \<exists>i. dom (jobs w') \<subseteq> insert i (dom (jobs w))"
  by (erule concurrent_step.cases) auto

lemma in_service_step:
  assumes "in_service srv db0 w" and step: "concurrent_step srv w l w'"
  shows "in_service srv db0 w'"
proof -
  obtain u where u: "simulates srv db0 w u" using assms(1) by (auto simp: in_service_def)
  obtain u' where "simulates srv db0 w' u'" using linearized.matched [OF u step] by blast
  moreover have "lock_step\<^sup>*\<^sup>* (opened_conf db0) (locked w')"
    using assms(1) concurrent_step_locked [OF step] unfolding in_service_def
    by (metis rtranclp.rtrancl_into_rtrancl)
  moreover have "finite (dom (jobs w'))"
    using assms(1) concurrent_step_jobs [OF step] unfolding in_service_def by (metis finite_insert finite_subset)
  ultimately show ?thesis by (auto simp: in_service_def)
qed

lemma in_service_run: "run (concurrent_step srv) (opened_world db0) tr w \<Longrightarrow> in_service srv db0 w"
proof (erule run_invariant [where P = "\<lambda>_. in_service srv db0"])
  have "simulates srv db0 (opened_world db0) (opened_atomic db0)" by (rule opened_simulated)
  then show "in_service srv db0 (opened_world db0)" by (auto simp: in_service_def opened_world_def)
qed (rule in_service_step)

text \<open>A task of the lock belongs to a running job, and runs an operation of the store.\<close>

lemma in_service_matches:
  assumes "in_service srv db0 w"
  obtains j' h where "matches srv (locked w) i (jobs w i) j' h"
  using assms simulatesD(3) unfolding in_service_def by blast

lemma in_service_pending:
  assumes "in_service srv db0 w" and "pending (locked w) i op"
  obtains a k where "jobs w i = Some (Running a)" and "plan_of srv a = Update op k"
proof -
  obtain j' h where m: "matches srv (locked w) i (jobs w i) j' h" by (rule in_service_matches [OF assms(1)])
  from assms(2) consider "tasks (locked w) i = Some (Waiting op)" | now fs p where "tasks (locked w) i = Some (Holding op now fs p)"
    by (auto simp: pending_def)
  then show thesis
  proof cases
    case 1
    show thesis by (rule matches_waiting [OF m 1]) (rule that)
  next
    case 2
    show thesis by (rule matches_holding [OF m 2]) (rule that)
  qed
qed

lemma in_service_writes: "in_service srv db0 w \<Longrightarrow> store_writes (account_log srv) (locked w)"
  unfolding store_writes_def by (blast elim: in_service_pending intro: plan_store_write)

lemma in_service_finished:
  assumes "in_service srv db0 w" and "tasks (locked w) i = Some (Finished op r)" and "jobs w i = Some (Running a)"
  shows "\<exists>k. plan_of srv a = Update op k"
  by (rule in_service_matches [OF assms(1), of i]) (auto simp: matches_def assms(2,3))

lemma in_service_engaged:
  assumes "in_service srv db0 w" and "engaged (tasks (locked w) i)"
  obtains a where "jobs w i = Some (Running a)"
proof -
  obtain op where "pending (locked w) i op" using assms(2) by (auto simp: engaged_def pending_def)
  then show thesis by (rule in_service_pending [OF assms(1)]) (rule that)
qed

lemma in_service_holding:
  assumes "in_service srv db0 w" and "tasks (locked w) i = Some (Holding op now fs p)"
  shows "within 4 p"
proof -
  have "store_write (account_log srv) op"
    using in_service_writes [OF assms(1)] assms(2) unfolding store_writes_def pending_def by blast
  from holding_within [OF _ assms(2) store_write_within [OF this]] assms(1) show ?thesis by (auto simp: in_service_def)
qed

section \<open>Work left\<close>

lemma work_left_update:
  assumes "finite D" and "i \<in> D" and "job_steps w' i < job_steps w i" and "\<And>j. j \<noteq> i \<Longrightarrow> job_steps w' j = job_steps w j"
  shows "work_left D w' < work_left D w"
  unfolding work_left_def by (rule sum_strict_mono_ex1) (use assms in \<open>auto intro: order.strict_implies_order\<close>, metis order.refl order.strict_implies_order)

lemma job_steps_running: "jobs w i = Some (Running a) \<Longrightarrow> 2 \<le> job_steps w i"
  by (simp add: job_steps_def split: option.split)

lemma job_steps_simps [simp]:
  "jobs w i = Some (Responding out) \<Longrightarrow> job_steps w i = 1"
  "jobs w i = Some (Answered out) \<Longrightarrow> job_steps w i = 0"
  "jobs w i = Some Abandoned \<Longrightarrow> job_steps w i = 0"
  by (simp_all add: job_steps_def)

lemma job_steps_other:
  "jobs w' j = jobs w j \<Longrightarrow> tasks (locked w') j = tasks (locked w) j \<Longrightarrow> job_steps w' j = job_steps w j"
  by (simp add: job_steps_def split: option.split job.split)

text \<open>A step brings one job closer to its end.\<close>

lemma proceed_job:
  assumes "in_service srv db0 w" and "lock_step (locked w) c" and dom: "dom (tasks c) = dom (tasks (locked w))"
  obtains i where "job_steps (w\<lparr>locked := c\<rparr>) i < job_steps w i" and "i \<in> dom (jobs w)"
    and "\<And>j. j \<noteq> i \<Longrightarrow> job_steps (w\<lparr>locked := c\<rparr>) j = job_steps w j"
proof -
  have "busy_step (locked w) c" using assms(2) dom by (simp add: busy_step_def)
  moreover have "lock_step\<^sup>*\<^sup>* (opened_conf db0) (locked w)" using assms(1) by (simp add: in_service_def)
  ultimately obtain i x where x: "tasks c = (tasks (locked w))(i := x)" "task_steps x < task_steps (tasks (locked w) i)"
    by (metis busy_step_task in_service_writes [OF assms(1)])
  have "engaged (tasks (locked w) i)"
    using x(2) by (cases "tasks (locked w) i" rule: task_steps.cases) (auto simp: engaged_def)
  then obtain a where a: "jobs w i = Some (Running a)" by (rule in_service_engaged [OF assms(1)])
  have "tasks (locked w) i \<noteq> None" using x(2) by (cases "tasks (locked w) i") simp_all
  then obtain y z where "x = Some y" and "tasks (locked w) i = Some z"
    using dom x(1) by (metis domIff fun_upd_same not_None_eq)
  then show thesis using a x by (intro that [of i] job_steps_other) (auto simp: job_steps_def)
qed

lemma drain_step_job:
  assumes serv: "in_service srv db0 w" and "drain_step srv w w'"
  obtains i where "job_steps w' i < job_steps w i" and "i \<in> dom (jobs w)"
    and "\<And>j. j \<noteq> i \<Longrightarrow> job_steps w' j = job_steps w j"
proof -
  note result = that
  obtain l where step: "concurrent_step srv w l w'" and dom: "dom (jobs w') \<subseteq> dom (jobs w)"
    using assms(2) by (auto simp: drain_step_def)
  have moved: thesis if "job_steps w' i < job_steps w i" "jobs w i = Some j"
    "\<And>j. j \<noteq> i \<Longrightarrow> jobs w' j = jobs w j \<and> tasks (locked w') j = tasks (locked w) j" for i j
    by (rule result [of i]) (use that in \<open>auto intro: job_steps_other\<close>)
  note running = job_steps_running [of w]
  from step show thesis
  proof (cases rule: concurrent_step.cases)
    case (invoke i a)
    then show thesis using dom by auto
  next
    case (reply i a out)
    then show thesis using running [of i a] by (intro moved [of i]) auto
  next
    case (query i a k)
    then show thesis using running [of i a] by (intro moved [of i]) auto
  next
    case (query_fails i a k e)
    then show thesis using running [of i a] by (intro moved [of i]) auto
  next
    case (enqueue i a op k)
    then show thesis by (intro moved [of i]) (auto simp: job_steps_def)
  next
    case (proceed c)
    show thesis by (rule proceed_job [OF serv proceed(3,4)]) (use result proceed(2) in blast)
  next
    case (collect i a op k r)
    then show thesis using running [of i a] by (intro moved [of i]) auto
  next
    case (return i out)
    then show thesis by (intro moved [of i]) auto
  next
    case (abandon i a out)
    obtain j where "jobs w i = Some j" and "0 < job_steps w i" using abandon(3) running [of i a] by fastforce
    then show thesis using abandon(2) by (intro moved [of i]) auto
  next
    case (abandon_write i a c)
    then show thesis using running [of i a] by (intro moved [of i]) auto
  qed
qed

lemma drain_step_in_service: "in_service srv db0 w \<Longrightarrow> drain_step srv w w' \<Longrightarrow> in_service srv db0 w'"
  unfolding drain_step_def by (blast intro: in_service_step)

lemma drain_steps_in_service: "(drain_step srv)\<^sup>*\<^sup>* w w' \<Longrightarrow> in_service srv db0 w \<Longrightarrow> in_service srv db0 w'"
  by (induction rule: rtranclp_induct) (auto intro: drain_step_in_service)

lemma drain_steps_bound:
  assumes "in_service srv db0 w" and "finite D" and "dom (jobs w) \<subseteq> D" and "(drain_step srv ^^ n) w w'"
  shows "n + work_left D w' \<le> work_left D w"
  using assms
proof (induction n arbitrary: w)
  case (Suc n)
  from Suc.prems(4) obtain w1 where first: "drain_step srv w w1" and rest: "(drain_step srv ^^ n) w1 w'"
    by (meson relpowp_Suc_D2)
  obtain i where i: "job_steps w1 i < job_steps w i" "i \<in> dom (jobs w)" "\<And>j. j \<noteq> i \<Longrightarrow> job_steps w1 j = job_steps w j"
    by (rule drain_step_job [OF Suc.prems(1) first]) (rule that)
  have "dom (jobs w1) \<subseteq> D" using first Suc.prems(3) unfolding drain_step_def by blast
  from Suc.IH [OF drain_step_in_service [OF Suc.prems(1) first] Suc.prems(2) this rest]
  show ?case using work_left_update [OF Suc.prems(2) _ i(1,3)] i(2) Suc.prems(3) by fastforce
qed simp

lemma job_steps_bound:
  assumes "in_service srv db0 w"
  shows "job_steps w i \<le> 9" and "i \<notin> outstanding w \<Longrightarrow> job_steps w i = 0"
proof -
  have "task_steps (tasks (locked w) i) \<le> 6"
  proof (cases "tasks (locked w) i" rule: task_steps.cases)
    case (2 op now fs p)
    then show ?thesis using calls_left_le [OF in_service_holding [OF assms 2]] by simp
  qed auto
  then show "job_steps w i \<le> 9" by (auto simp: job_steps_def split: option.splits job.splits)
  show "job_steps w i = 0" if "i \<notin> outstanding w"
    using that by (auto simp: job_steps_def outstanding_def split: option.splits job.splits)
qed

lemma work_left_outstanding:
  assumes "in_service srv db0 w"
  shows "work_left (dom (jobs w)) w \<le> 9 * card (outstanding w)"
proof -
  have sub: "outstanding w \<subseteq> dom (jobs w)" by (auto simp: outstanding_def)
  have fin: "finite (dom (jobs w))" using assms by (simp add: in_service_def)
  have "(\<Sum>i \<in> outstanding w. job_steps w i) \<le> of_nat (card (outstanding w)) * 9"
    by (rule sum_bounded_above) (rule job_steps_bound(1) [OF assms])
  moreover have "work_left (dom (jobs w)) w = (\<Sum>i \<in> outstanding w. job_steps w i)"
    unfolding work_left_def by (rule sum.mono_neutral_right [OF fin sub]) (use job_steps_bound(2) [OF assms] in auto)
  ultimately show ?thesis by simp
qed

section \<open>No job is stuck\<close>

text \<open>A step of a job that is not given up.\<close>

lemma kept_on:
  assumes "concurrent_step srv w l (w\<lparr>jobs := (jobs w)(i \<mapsto> j)\<rparr>)" and "jobs w i \<noteq> None" and "j \<noteq> Abandoned"
  shows "\<exists>w'. drain_step srv w w' \<and> (\<forall>i. jobs w' i = Some Abandoned \<longrightarrow> jobs w i = Some Abandoned)"
  by (rule exI [of _ "w\<lparr>jobs := (jobs w)(i \<mapsto> j)\<rparr>"]) (use assms in \<open>auto simp: drain_step_def\<close>)

lemma kept_lock:
  assumes "concurrent_step srv w l (w\<lparr>locked := c\<rparr>)"
  shows "\<exists>w'. drain_step srv w w' \<and> (\<forall>i. jobs w' i = Some Abandoned \<longrightarrow> jobs w i = Some Abandoned)"
  by (rule exI [of _ "w\<lparr>locked := c\<rparr>"]) (use assms in \<open>auto simp: drain_step_def\<close>)

lemma drain_step_possible:
  assumes serv: "in_service srv db0 w" and i: "i \<in> outstanding w"
  shows "\<exists>w'. drain_step srv w w' \<and> (\<forall>i. jobs w' i = Some Abandoned \<longrightarrow> jobs w i = Some Abandoned)"
proof (cases "\<exists>a. jobs w i = Some (Running a)")
  case False
  then obtain out where "jobs w i = Some (Responding out)" using i by (auto simp: outstanding_def)
  then show ?thesis by (intro kept_on [OF concurrent_step.return]) auto
next
  case True
  then obtain a where job: "jobs w i = Some (Running a)" by blast
  show ?thesis
  proof (cases "plan_of srv a")
    case (Reply out)
    then show ?thesis using job by (intro kept_on [OF concurrent_step.reply [OF job]]) auto
  next
    case (Query k)
    then show ?thesis using job by (intro kept_on [OF concurrent_step.query [OF job]]) auto
  next
    case (Update op k)
    show ?thesis
    proof (cases "tasks (locked w) i")
      case None
      then show ?thesis by (intro kept_lock [OF concurrent_step.enqueue [OF job Update]])
    next
      case (Some t)
      show ?thesis
      proof (cases "i \<in> unfinished (locked w)")
        case True
        have "lock_step\<^sup>*\<^sup>* (opened_conf db0) (locked w)" using serv by (simp add: in_service_def)
        from lock_step_possible [OF this True] show ?thesis by (blast intro: kept_lock concurrent_step.proceed)
      next
        case False
        then obtain op' r where fin: "tasks (locked w) i = Some (Finished op' r)"
          using Some by (cases t) (auto simp: unfinished_def pending_def)
        with in_service_finished [OF serv fin job] Update have "tasks (locked w) i = Some (Finished op r)" by auto
        then show ?thesis using job by (intro kept_on [OF concurrent_step.collect [OF job Update]]) auto
      qed
    qed
  qed
qed

end
