(* ===== verification/Store_Open.thy ===== *)
theory Store_Open
  imports Store
begin

text \<open>
  \<open>Store::open\<close> of \<open>src/store.rs\<close>: which directory it creates, with which options it connects, and in
  which order it does so. The file system, the driver and the migrations are parameters; what is asked
  of them is kept as a trace.
\<close>

section \<open>Paths\<close>

text \<open>
  \<open>Path::parent\<close> on Unix. Separators and \<open>/.\<close> at the end do not count; the root and the empty path
  have no parent. \<open>trim_back\<close> works on the reversed path.
\<close>

fun trim_back :: "string \<Rightarrow> string" where
  "trim_back [] = []"
| "trim_back [c] = [c]"
| "trim_back (c # c' # rest) =
     (if c = CHR ''/'' \<or> c = CHR ''.'' \<and> c' = CHR ''/'' then trim_back (c' # rest) else c # c' # rest)"

definition path_parent :: "string \<Rightarrow> string option" where
  "path_parent path =
     (let back = trim_back (rev path) in
      if back = [] \<or> back = ''/'' then None
      else Some (rev (trim_back (dropWhile (\<lambda>c. c \<noteq> CHR ''/'') back))))"

text \<open>Paths are compared by their components, so a separator at the end does not count here either.\<close>

definition is_memory_path :: "string \<Rightarrow> bool" where
  "is_memory_path path \<longleftrightarrow> rev (trim_back (rev path)) = '':memory:''"

section \<open>Opening\<close>

datatype journal_mode = Wal

record connect_options =
  filename :: string
  create_if_missing :: bool
  busy_timeout :: duration
  journal_mode :: "journal_mode option"

datatype io = CreateDirAll string | Connect connect_options nat | RunMigrations

text \<open>The outcomes of the calls; \<open>connect_with\<close> yields the tables found, \<open>run_migrations\<close> those after it.\<close>

record db_host =
  create_dir_all :: "string \<Rightarrow> anyhow + unit"
  connect_with :: "connect_options \<Rightarrow> nat \<Rightarrow> anyhow + tables"
  run_migrations :: "tables \<Rightarrow> anyhow + tables"

definition do_io :: "io \<Rightarrow> anyhow + 'b \<Rightarrow> (io list, anyhow, 'b) eff" where
  "do_io a r = (\<lambda>trace. (r, trace @ [a]))"

definition store_open :: "db_host \<Rightarrow> string \<Rightarrow> (io list, anyhow, tables) eff" where
  "store_open h path =
     (let is_memory = is_memory_path path;
          options = \<lparr>filename = [], create_if_missing = True, busy_timeout = from_secs 5, journal_mode = None\<rparr> in
     try_await
       (if is_memory then ok (options\<lparr>filename := '':memory:''\<rparr>)
        else
          try_await
            (case path_parent path of
               None \<Rightarrow> ok ()
             | Some parent \<Rightarrow>
                 if parent = [] then ok ()
                 else map_err (AnyContext (''create db directory '' @ parent))
                   (do_io (CreateDirAll parent) (create_dir_all h parent)))
            (\<lambda>_. ok (options\<lparr>filename := path, journal_mode := Some Wal\<rparr>)))
       (\<lambda>options.
     let max_connections = (if is_memory then 1 else 5) in
     try_await (map_err (AnyContext ''open sqlite'')
       (do_io (Connect options max_connections) (connect_with h options max_connections))) (\<lambda>db.
     map_err (AnyContext ''run migrations'') (do_io RunMigrations (run_migrations h db)))))"

section \<open>Properties\<close>

definition file_options :: "string \<Rightarrow> connect_options" where
  "file_options path =
     \<lparr>filename = path, create_if_missing = True, busy_timeout = from_secs 5, journal_mode = Some Wal\<rparr>"

definition memory_options :: connect_options where
  "memory_options =
     \<lparr>filename = '':memory:'', create_if_missing = True, busy_timeout = from_secs 5, journal_mode = None\<rparr>"

text \<open>What opening a path asks for, in order, as long as nothing fails.\<close>

definition open_plan :: "string \<Rightarrow> io list" where
  "open_plan path =
     (if is_memory_path path then [Connect memory_options 1, RunMigrations]
      else (case path_parent path of None \<Rightarrow> [] | Some [] \<Rightarrow> [] | Some dir \<Rightarrow> [CreateDirAll dir]) @
        [Connect (file_options path) 5, RunMigrations])"

text \<open>
  How each call turned out, as a relation: \<open>went h trace a r\<close> says that the call \<open>a\<close>, made after those of \<open>trace\<close>, gave
  \<open>r\<close>, a failure or the tables as far as there are any. The migrations run on what the connection before them found.
\<close>

inductive went :: "db_host \<Rightarrow> io list \<Rightarrow> io \<Rightarrow> anyhow + tables option \<Rightarrow> bool" for h where
  created: "create_dir_all h dir = r \<Longrightarrow> went h trace (CreateDirAll dir) (map_sum id (\<lambda>_. None) r)"
| connected: "connect_with h options n = r \<Longrightarrow> went h trace (Connect options n) (map_sum id Some r)"
| migrated: "connect_with h options n = Inr db \<Longrightarrow> run_migrations h db = r \<Longrightarrow>
    went h (trace @ [Connect options n]) RunMigrations (map_sum id Some r)"

inductive_simps went_simps [simp]:
  "went h trace (CreateDirAll dir) r"
  "went h trace (Connect options n) r"
  "went h trace RunMigrations r"

text \<open>The context an error is given, by the call that failed.\<close>

fun step_name :: "io \<Rightarrow> string" where
  "step_name (CreateDirAll dir) = ''create db directory '' @ dir"
| "step_name (Connect options n) = ''open sqlite''"
| "step_name RunMigrations = ''run migrations''"

text \<open>
  C40. Opening a store makes the calls of its plan in order, the next one only when the one before succeeded. If they
  all succeed the result is the tables the migrations left; otherwise the last call made is the one that failed, and the error
  is its cause under the context that names it. An in-memory database touches no directory and has a single
  connection, so that its tables live as long as the store; a database file gets its directory
  created first, unless it is in the current one, then write-ahead logging and five connections; and
  the migrations run last, on what was found.
\<close>

theorem store_open_follows_plan:
  assumes "store_open h path [] = (r, trace)"
  shows "prefix trace (open_plan path) \<and>
     (\<forall>before a after. trace = before @ a # after \<and> after \<noteq> [] \<longrightarrow> (\<exists>x. went h before a (Inr x))) \<and>
     (case r of
        Inr db \<Rightarrow> trace = open_plan path \<and> went h (butlast trace) (last trace) (Inr (Some db))
      | Inl e \<Rightarrow> trace \<noteq> [] \<and>
          (\<exists>cause. went h (butlast trace) (last trace) (Inl cause) \<and> e = AnyContext (step_name (last trace)) cause))"
  using assms
  by (auto simp: store_open_def open_plan_def Let_def do_io_def memory_options_def file_options_def eff_simps append_eq_Cons_conv
      Cons_eq_append_conv
      elim!: try_await_cases map_err_cases split: if_splits option.splits list.splits sum.splits)

theorem store_open_follows_plan_witness:
  "let h = \<lparr>create_dir_all = (\<lambda>_. Inr ()), connect_with = (\<lambda>_ _. Inr empty_tables), run_migrations = Inr\<rparr>
   in path_parent ''/data/chat-store.db'' = Some ''/data'' \<and> path_parent ''chat-store.db'' = Some [] \<and>
      path_parent ''tmp/./registry.db/'' = Some ''tmp'' \<and> path_parent ''/'' = None \<and>
      is_memory_path '':memory:'' \<and> \<not> is_memory_path ''/data/chat-store.db'' \<and>
      store_open h ''/data/chat-store.db'' [] = (Inr empty_tables, open_plan ''/data/chat-store.db'') \<and>
      open_plan ''/data/chat-store.db'' =
        [CreateDirAll ''/data'', Connect (file_options ''/data/chat-store.db'') 5, RunMigrations]"
proof -
  let ?h = "\<lparr>create_dir_all = (\<lambda>_. Inr ()), connect_with = (\<lambda>_ _. Inr empty_tables), run_migrations = Inr\<rparr>"
  have parent: "path_parent ''/data/chat-store.db'' = Some ''/data''" by (simp add: path_parent_def)
  have on_disk: "\<not> is_memory_path ''/data/chat-store.db''" by (simp add: is_memory_path_def)
  obtain trace where run: "store_open ?h ''/data/chat-store.db'' [] = (Inr empty_tables, trace)"
    by (simp add: store_open_def parent on_disk Let_def do_io_def try_await_def map_err_def ok_def)
  have "trace = open_plan ''/data/chat-store.db''" using store_open_follows_plan [OF run] by simp
  with run show ?thesis
    by (simp add: Let_def parent on_disk open_plan_def) (simp add: path_parent_def is_memory_path_def)
qed

end
