(* ===== verification/Lifecycle.thy ===== *)
theory Lifecycle
  imports Service_Progress Store_Open
begin

text \<open>
  The program of \<open>src/main.rs\<close> over its whole life, and over many lives: it opens the store, spawns the prune task, starts
  the ingest thread, listens, takes requests until the shutdown signal, lets the last ones finish, and ends; or it is killed
  at any moment. Then it may be started again on the same database file. The prune task and the ingest
  thread are loops, kept at the await they are at; messages from the network wait in the queue of the node until the
  thread takes them, and requests come in at any time; all of
  them run at once on the concurrent service of theory \<open>Linearization\<close>. The lemmas show that the lives of the
  program, one after another, are one run of that service, that messages are handled in the order they arrived, each once
  and one at a time, and that after the shutdown signal every way of going on leads to the end of the program, with all requests
  answered.
\<close>

section \<open>The program\<close>

datatype phase = Stopped | Opened | Subscribed | Serving | Draining | Exited

text \<open>Where the prune task is: at \<open>ticker.tick()\<close>, or awaiting the job of one of its two prunes.\<close>

datatype prune_point = AtTick | PruningKeyPackages nat | PruningAccounts nat

text \<open>
  \<open>lives\<close> counts how often the program was started. \<open>inbound\<close> is the queue the node's callback fills, \<open>arrived\<close> all that was
  put there in this life, kept for the statements only. \<open>receiver\<close> is the job of the message the ingest thread is handling,
  \<open>None\<close> when it is at \<open>inbound.recv()\<close>.
\<close>

record program =
  phase :: phase
  lives :: nat
  service_world :: world
  inbound :: "received list"
  arrived :: "received list"
  receiver :: "nat option"
  pruner :: prune_point

definition installed :: "tables \<Rightarrow> program" where
  "installed db = \<lparr>phase = Stopped, lives = 0, service_world = opened_world db, inbound = [], arrived = [],
     receiver = None, pruner = AtTick\<rparr>"

text \<open>What a start sets up; the tables are found as they were left.\<close>

definition started :: "program \<Rightarrow> program" where
  "started p = p\<lparr>phase := Opened, lives := Suc (lives p), inbound := [], arrived := [], receiver := None, pruner := AtTick\<rparr>"

definition answered_job :: "world \<Rightarrow> nat \<Rightarrow> bool" where
  "answered_job w i \<longleftrightarrow> (\<exists>out. jobs w i = Some (Answered out))"

definition alive :: "program \<Rightarrow> bool" where
  "alive p \<longleftrightarrow> phase p \<noteq> Stopped \<and> phase p \<noteq> Exited"

definition connected_node :: "('a, 's, 'r) service \<Rightarrow> program \<Rightarrow> bool" where
  "connected_node srv p \<longleftrightarrow> phase p \<in> {Subscribed, Serving, Draining} \<and> \<not> no_delivery (config srv)"

definition loop_job :: "program \<Rightarrow> nat \<Rightarrow> bool" where
  "loop_job p i \<longleftrightarrow> receiver p = Some i \<or> pruner p = PruningKeyPackages i \<or> pruner p = PruningAccounts i"

text \<open>The end of the process: whatever is not answered is given up, job by job.\<close>

definition give_up :: "('a, 's, 'r) service \<Rightarrow> world \<Rightarrow> world \<Rightarrow> bool" where
  "give_up srv w w' \<longleftrightarrow> concurrent_step srv w None w' \<and> (\<exists>i \<in> outstanding w. jobs w' = (jobs w)(i \<mapsto> Abandoned))"

definition cut_off :: "('a, 's, 'r) service \<Rightarrow> world \<Rightarrow> world \<Rightarrow> bool" where
  "cut_off srv w w' \<longleftrightarrow> (give_up srv)\<^sup>*\<^sup>* w w' \<and> outstanding w' = {}"

text \<open>
  \<open>start\<close> is a successful \<open>Store::open\<close>, which finds the tables as they were left; a database in memory starts
  empty, and so is not started again here. \<open>arrive\<close> is the callback of the node, \<open>receive\<close> and \<open>handled\<close> are the two ends of
  the body of the ingest loop, \<open>tick\<close>, \<open>go_on\<close> and \<open>turn_over\<close> the awaits of the prune loop. The signal ends the
  listening, but connections that are open may still carry a request. Jobs are given up only by
  clients that went away, never by the two loops, and at the end of the process, which waits for the requests.
\<close>

inductive program_step :: "('a, 's, 'r) service \<Rightarrow> (program, event) machine" for srv where
  start: "\<not> alive p \<Longrightarrow> lives p = 0 \<or> \<not> is_memory_path (db_path (config srv)) \<Longrightarrow>
    program_step srv p None (started p)"
| ingestion: "phase p = Opened \<Longrightarrow> program_step srv p None (p\<lparr>phase := Subscribed\<rparr>)"
| bind: "phase p = Subscribed \<Longrightarrow> program_step srv p None (p\<lparr>phase := Serving\<rparr>)"
| request: "phase p = Serving \<or> phase p = Draining \<Longrightarrow> concurrent_step srv (service_world p) (Some (Invoked i (Http req))) w \<Longrightarrow>
    program_step srv p (Some (Invoked i (Http req))) (p\<lparr>service_world := w\<rparr>)"
| arrive: "connected_node srv p \<Longrightarrow>
    program_step srv p None (p\<lparr>inbound := inbound p @ [m], arrived := arrived p @ [m]\<rparr>)"
| receive: "connected_node srv p \<Longrightarrow> receiver p = None \<Longrightarrow> inbound p = m # ms \<Longrightarrow>
    concurrent_step srv (service_world p) (Some (Invoked i (Deliver m))) w \<Longrightarrow>
    program_step srv p (Some (Invoked i (Deliver m))) (p\<lparr>service_world := w, inbound := ms, receiver := Some i\<rparr>)"
| handled: "alive p \<Longrightarrow> receiver p = Some i \<Longrightarrow> answered_job (service_world p) i \<Longrightarrow>
    program_step srv p None (p\<lparr>receiver := None\<rparr>)"
| tick: "alive p \<Longrightarrow> prune_interval (config srv) \<noteq> from_secs 0 \<Longrightarrow> pruner p = AtTick \<Longrightarrow>
    concurrent_step srv (service_world p) (Some (Invoked i PruneKeyPackages)) w \<Longrightarrow>
    program_step srv p (Some (Invoked i PruneKeyPackages)) (p\<lparr>service_world := w, pruner := PruningKeyPackages i\<rparr>)"
| go_on: "alive p \<Longrightarrow> pruner p = PruningKeyPackages i \<Longrightarrow> answered_job (service_world p) i \<Longrightarrow>
    concurrent_step srv (service_world p) (Some (Invoked j PruneAccounts)) w \<Longrightarrow>
    program_step srv p (Some (Invoked j PruneAccounts)) (p\<lparr>service_world := w, pruner := PruningAccounts j\<rparr>)"
| turn_over: "alive p \<Longrightarrow> pruner p = PruningAccounts i \<Longrightarrow> answered_job (service_world p) i \<Longrightarrow>
    program_step srv p None (p\<lparr>pruner := AtTick\<rparr>)"
| work: "alive p \<Longrightarrow> concurrent_step srv (service_world p) l w \<Longrightarrow> (\<And>i a. l \<noteq> Some (Invoked i a)) \<Longrightarrow>
    (\<And>i. loop_job p i \<Longrightarrow> jobs w i \<noteq> Some Abandoned) \<Longrightarrow>
    program_step srv p l (p\<lparr>service_world := w\<rparr>)"
| signal: "phase p = Serving \<Longrightarrow> program_step srv p None (p\<lparr>phase := Draining\<rparr>)"
| exit: "phase p = Draining \<Longrightarrow> (\<And>i. i \<in> outstanding (service_world p) \<Longrightarrow> loop_job p i) \<Longrightarrow> cut_off srv (service_world p) w \<Longrightarrow>
    program_step srv p None (p\<lparr>phase := Exited, service_world := w\<rparr>)"
| crash: "alive p \<Longrightarrow> cut_off srv (service_world p) w \<Longrightarrow>
    program_step srv p None (p\<lparr>phase := Stopped, service_world := w\<rparr>)"

section \<open>Many lives are one run of the service\<close>

lemma give_ups_run: "(give_up srv)\<^sup>*\<^sup>* w w' \<Longrightarrow> run (concurrent_step srv) w [] w'"
  by (induction rule: rtranclp_induct) (auto simp: give_up_def intro: run.start run.silent [where M = "concurrent_step srv"])

lemma cut_off_run: "cut_off srv w w' \<Longrightarrow> run (concurrent_step srv) w [] w'"
  by (simp add: cut_off_def give_ups_run)

lemma program_step_run:
  assumes "program_step srv p l p'"
  shows "run (concurrent_step srv) (service_world p) (observation l) (service_world p')"
proof -
  note one = run_step [of "concurrent_step srv" "service_world p" l] and none = run.start [of "concurrent_step srv" "service_world p"]
  from assms show ?thesis
    by (cases rule: program_step.cases) (use one none cut_off_run in \<open>simp_all add: started_def\<close>)
qed

interpretation lived: forward_simulation "program_step srv" "concurrent_step srv" "\<lambda>p w. service_world p = w"
  for srv :: "('a, 's, 'r) service"
  by unfold_locales (auto dest: program_step_run)

lemma program_run: "run (program_step srv) (installed db) tr p \<Longrightarrow> run (concurrent_step srv) (opened_world db) tr (service_world p)"
  by (erule lived.simulated) (simp_all add: installed_def)

section \<open>The end of a process\<close>

lemma give_up_one:
  assumes "in_service srv db0 w" and "i \<in> outstanding w"
  shows "\<exists>w'. give_up srv w w' \<and> outstanding w' = outstanding w - {i} \<and> committed (locked w') = committed (locked w)"
proof (cases "engaged (tasks (locked w) i)")
  case False
  let ?w = "w\<lparr>jobs := (jobs w)(i \<mapsto> Abandoned)\<rparr>"
  have "concurrent_step srv w None ?w"
    using assms(2) False by (auto simp: outstanding_def intro: concurrent_step.abandon)
  then show ?thesis using assms(2) by (intro exI [of _ ?w]) (auto simp: give_up_def outstanding_def)
next
  case True
  then obtain a where job: "jobs w i = Some (Running a)" by (rule in_service_engaged [OF assms(1)])
  from True have "\<exists>c. lock_step (locked w) c \<and> tasks c = (tasks (locked w))(i := None) \<and> committed c = committed (locked w)"
    using lock_step.dropped_waiting [of "locked w" i] lock_step.dropped_holding [of "locked w" i]
    by (auto simp: engaged_def)
  then obtain c where c: "lock_step (locked w) c" "tasks c = (tasks (locked w))(i := None)" "committed c = committed (locked w)"
    by blast
  show ?thesis using concurrent_step.abandon_write [OF job True c(1,2)] c(3)
    by (intro exI [of _ "w\<lparr>locked := c, jobs := (jobs w)(i \<mapsto> Abandoned)\<rparr>"]) (use assms(2) in \<open>auto simp: give_up_def outstanding_def\<close>)
qed

text \<open>A process can be killed at any moment, and the database is left as the last commit made it.\<close>

lemma cut_off_possible:
  assumes "in_service srv db0 w"
  shows "\<exists>w'. cut_off srv w w' \<and> committed (locked w') = committed (locked w)"
proof -
  have "finite (outstanding w)"
    using assms by (auto simp: in_service_def outstanding_def dom_def elim: finite_subset [rotated])
  then show ?thesis using assms
  proof (induction "outstanding w" arbitrary: w rule: finite_psubset_induct)
    case psubset
    show ?case
    proof (cases "outstanding w = {}")
      case True
      then show ?thesis by (intro exI [of _ w]) (simp add: cut_off_def)
    next
      case False
      then obtain i where i: "i \<in> outstanding w" by blast
      obtain w1 where w1: "give_up srv w w1" "outstanding w1 = outstanding w - {i}" "committed (locked w1) = committed (locked w)"
        using give_up_one [OF psubset.prems i] by blast
      have "in_service srv db0 w1" using w1(1) in_service_step [OF psubset.prems] by (auto simp: give_up_def)
      then obtain w' where "cut_off srv w1 w'" "committed (locked w') = committed (locked w1)"
        using psubset.hyps(2) [of w1] i w1(2) by blast
      then show ?thesis using w1 by (intro exI [of _ w']) (auto simp: cut_off_def intro: converse_rtranclp_into_rtranclp)
    qed
  qed
qed

lemma give_up_committed:
  assumes "give_up srv w w'"
  shows "committed (locked w') = committed (locked w)"
proof -
  obtain i where i: "i \<in> outstanding w" "jobs w' = (jobs w)(i \<mapsto> Abandoned)" and step: "concurrent_step srv w None w'"
    using assms by (auto simp: give_up_def)
  then have same: "jobs w' \<noteq> jobs w" by (auto simp: outstanding_def fun_eq_iff)
  from step show ?thesis
  proof (cases rule: concurrent_step.cases)
    case (abandon_write j a c)
    from abandon_write(4) have "committed c = committed (locked w)"
      by (cases rule: lock_step.cases) (use abandon_write(3,5) in \<open>auto simp: engaged_def fun_eq_iff split: if_splits\<close>)
    then show ?thesis using abandon_write(1) by simp
  qed (use same in auto)
qed

lemma give_ups_committed: "(give_up srv)\<^sup>*\<^sup>* w w' \<Longrightarrow> committed (locked w') = committed (locked w)"
  by (induction rule: rtranclp_induct) (simp_all add: give_up_committed)

section \<open>Answers\<close>

text \<open>A job that is answered was answered with an observed return, and no job is forgotten.\<close>

lemma run_answered:
  assumes "run (concurrent_step srv) w tr w'" and "jobs w' i = Some (Answered out)"
  shows "jobs w i = Some (Answered out) \<or> Returned i out \<in> set tr"
proof -
  have "jobs w' i = Some (Answered out) \<longrightarrow> jobs w i = Some (Answered out) \<or> Returned i out \<in> set tr"
    using assms(1)
  proof (rule run_invariant)
    fix tr t l u
    assume "jobs t i = Some (Answered out) \<longrightarrow> jobs w i = Some (Answered out) \<or> Returned i out \<in> set tr"
      and "concurrent_step srv t l u"
    from this(2,1) show "jobs u i = Some (Answered out) \<longrightarrow> jobs w i = Some (Answered out) \<or> Returned i out \<in> set (tr @ observation l)"
      by (cases rule: concurrent_step.cases) auto
  qed simp
  then show ?thesis using assms(2) by blast
qed

lemma run_jobs: "run (concurrent_step srv) w tr w' \<Longrightarrow> dom (jobs w) \<subseteq> dom (jobs w')"
  by (erule run_invariant [where P = "\<lambda>_ w'. dom (jobs w) \<subseteq> dom (jobs w')"])
    (auto elim!: concurrent_step.cases split: if_splits)

lemma program_steps_run: "run (program_step srv) p tr p' \<Longrightarrow> run (concurrent_step srv) (service_world p) tr (service_world p')"
  by (erule lived.simulated) auto

lemma program_step_lives: "program_step srv p l p' \<Longrightarrow> lives p' = lives p \<or> lives p' = Suc (lives p)"
  by (erule program_step.cases) (auto simp: started_def)

lemma run_lives: "run (program_step srv) p tr p' \<Longrightarrow> lives p \<le> lives p'"
  by (erule run_invariant [where P = "\<lambda>_ p'. lives p \<le> lives p'"]) (use program_step_lives in \<open>fastforce+\<close>)

lemma in_service_runs: "run (concurrent_step srv) w tr w' \<Longrightarrow> in_service srv db0 w \<Longrightarrow> in_service srv db0 w'"
  by (erule run_invariant [where P = "\<lambda>_ w'. in_service srv db0 w \<longrightarrow> in_service srv db0 w'", THEN mp]) (auto intro: in_service_step)

section \<open>One job after another\<close>

text \<open>
  A loop of the program: \<open>turn\<close> are its actions and \<open>current\<close> the job it awaits. It begins a job when it awaits none,
  or one that was answered, and changes the job in no other way while the program lives.
\<close>

locale sequential_loop =
  fixes srv :: "('a, 's, 'r) service" and current :: "program \<Rightarrow> nat option" and turn :: "action \<Rightarrow> bool"
  assumes takes_turn: "program_step srv p (Some (Invoked j a)) p' \<Longrightarrow> turn a \<Longrightarrow>
      current p' = Some j \<and> (\<forall>i. current p = Some i \<longrightarrow> answered_job (service_world p) i)"
    and keeps_job: "program_step srv p l p' \<Longrightarrow> current p = Some i \<Longrightarrow> current p' \<noteq> Some i \<Longrightarrow> lives p' = lives p \<Longrightarrow>
      answered_job (service_world p) i"
begin

lemma one_at_a_time:
  assumes first: "program_step srv p (Some (Invoked i a)) p1" "turn a" and ys: "run (program_step srv) p1 ys p2"
    and second: "program_step srv p2 (Some (Invoked j b)) p3" "turn b" and life: "lives p2 = lives p1"
  shows "\<exists>out. Returned i out \<in> set ys"
proof -
  let ?seen = "\<lambda>ys. \<exists>out. Returned i out \<in> set ys"
  have "concurrent_step srv (service_world p) (Some (Invoked i a)) (service_world p1)"
    using first(1) by (cases rule: program_step.cases) auto
  then have new: "\<not> answered_job (service_world p1) i" by (cases rule: concurrent_step.cases) (auto simp: answered_job_def)
  have returned: "?seen ys" if "run (program_step srv) p1 ys q" "answered_job (service_world q) i" for ys q
    using run_answered [OF program_steps_run [OF that(1)]] that(2) new unfolding answered_job_def by blast
  have "lives p1 \<le> lives p2 \<and> (lives p2 = lives p1 \<longrightarrow> current p2 = Some i \<or> ?seen ys)"
  proof (rule run_invariant [OF ys, where P = "\<lambda>ys q. lives p1 \<le> lives q \<and> (lives q = lives p1 \<longrightarrow> current q = Some i \<or> ?seen ys)"])
    show "lives p1 \<le> lives p1 \<and> (lives p1 = lives p1 \<longrightarrow> current p1 = Some i \<or> ?seen [])"
      using takes_turn [OF first] by simp
    fix ys q l q'
    assume run: "run (program_step srv) p1 ys q" and step: "program_step srv q l q'"
      and IH: "lives p1 \<le> lives q \<and> (lives q = lives p1 \<longrightarrow> current q = Some i \<or> ?seen ys)"
    have lives: "lives q' = lives q \<or> lives q' = Suc (lives q)" using step by (rule program_step_lives)
    have "?seen ys" if "lives q' = lives q" "current q = Some i" "current q' \<noteq> Some i"
      using keeps_job [OF step that(2,3,1)] returned [OF run] by blast
    then show "lives p1 \<le> lives q' \<and> (lives q' = lives p1 \<longrightarrow> current q' = Some i \<or> ?seen (ys @ observation l))"
      using IH lives by fastforce
  qed
  then show ?thesis using life takes_turn [OF second] returned [OF ys] by blast
qed

text \<open>The same of two events of a trace.\<close>

lemma in_turn:
  assumes "run (program_step srv) p (xs @ [Invoked i a] @ ys @ [Invoked j b] @ zs) q" and "lives q = lives p" and "turn a" "turn b"
  shows "\<exists>out. Returned i out \<in> set ys"
proof -
  obtain p1 q1 q2 where r1: "run (program_step srv) p xs p1" and i: "run (program_step srv) p1 [Invoked i a] q1"
    and r2: "run (program_step srv) q1 (ys @ [Invoked j b] @ zs) q"
    using assms(1) run_split by metis
  obtain p2 q3 where r3: "run (program_step srv) q1 ys p2" and j: "run (program_step srv) p2 [Invoked j b] q3"
    and r4: "run (program_step srv) q3 zs q"
    using r2 run_split by metis
  obtain s1 s2 where s: "run (program_step srv) p1 [] s1" "program_step srv s1 (Some (Invoked i a)) s2" "run (program_step srv) s2 [] q1"
    by (rule run_observed [OF i])
  obtain t1 t2 where t: "run (program_step srv) p2 [] t1" "program_step srv t1 (Some (Invoked j b)) t2" "run (program_step srv) t2 [] q3"
    by (rule run_observed [OF j])
  have mid: "run (program_step srv) s2 ys t1" using run_append [OF run_append [OF s(3) r3] t(1)] by simp
  note up = run_lives [where srv = srv]
  have "lives t1 = lives s2"
    using up [OF r1] up [OF s(1)] run_lives [OF run_step [of "program_step srv", OF s(2)]] up [OF mid]
      run_lives [OF run_step [of "program_step srv", OF t(2)]] up [OF t(3)] up [OF r4] assms(2) by linarith
  from one_at_a_time [OF s(2) assms(3) mid t(2) assms(4) this] show ?thesis .
qed

end

definition prune_job :: "prune_point \<Rightarrow> nat option" where
  "prune_job x = (case x of AtTick \<Rightarrow> None | PruningKeyPackages i \<Rightarrow> Some i | PruningAccounts i \<Rightarrow> Some i)"

lemma prune_job_simps [simp]:
  "prune_job AtTick = None" "prune_job (PruningKeyPackages i) = Some i" "prune_job (PruningAccounts i) = Some i"
  by (simp_all add: prune_job_def)

interpretation ingest_thread: sequential_loop srv receiver "\<lambda>a. \<exists>m. a = Deliver m" for srv :: "('a, 's, 'r) service"
proof (unfold_locales, goal_cases)
  case (1 p j a p')
  from 1(1) show ?case by (cases rule: program_step.cases) (use 1(2) in auto)
next
  case (2 p l p' i)
  from 2(1) show ?case by (cases rule: program_step.cases) (use 2(2-4) in \<open>auto simp: started_def\<close>)
qed

interpretation prune_loop: sequential_loop srv "\<lambda>p. prune_job (pruner p)" "\<lambda>a. a = PruneKeyPackages \<or> a = PruneAccounts"
  for srv :: "('a, 's, 'r) service"
proof (unfold_locales, goal_cases)
  case (1 p j a p')
  from 1(1) show ?case by (cases rule: program_step.cases) (use 1(2) in auto)
next
  case (2 p l p' i)
  from 2(1) show ?case by (cases rule: program_step.cases) (use 2(2-4) in \<open>auto simp: started_def\<close>)
qed

section \<open>The order of messages and prunes\<close>

text \<open>The messages taken in a trace, and the prunes begun.\<close>

definition messages_taken :: "event list \<Rightarrow> received list" where
  "messages_taken = List.map_filter (\<lambda>e. case e of Invoked i (Deliver m) \<Rightarrow> Some m | _ \<Rightarrow> None)"

definition prunes_begun :: "event list \<Rightarrow> action list" where
  "prunes_begun = List.map_filter (\<lambda>e. case e of
       Invoked i PruneKeyPackages \<Rightarrow> Some PruneKeyPackages | Invoked i PruneAccounts \<Rightarrow> Some PruneAccounts | _ \<Rightarrow> None)"

lemma map_filter_append: "List.map_filter f (xs @ ys) = List.map_filter f xs @ List.map_filter f ys"
  by (simp add: List.map_filter_def)

lemma taken_simps [simp]:
  "messages_taken [] = []" "messages_taken (xs @ ys) = messages_taken xs @ messages_taken ys"
  "messages_taken [Invoked i a] = (case a of Deliver m \<Rightarrow> [m] | _ \<Rightarrow> [])" "messages_taken [Returned i out] = []"
  "prunes_begun [] = []" "prunes_begun (xs @ ys) = prunes_begun xs @ prunes_begun ys"
  "prunes_begun [Invoked i a] = (case a of PruneKeyPackages \<Rightarrow> [a] | PruneAccounts \<Rightarrow> [a] | _ \<Rightarrow> [])" "prunes_begun [Returned i out] = []"
  by (simp_all add: messages_taken_def prunes_begun_def map_filter_append List.map_filter_simps split: action.split)

text \<open>The prunes of whole turns, and of a turn whose second prune has not begun.\<close>

primrec turns_of :: "nat \<Rightarrow> action list" where
  "turns_of 0 = []"
| "turns_of (Suc n) = turns_of n @ [PruneKeyPackages, PruneAccounts]"

definition prunes_so_far :: "prune_point \<Rightarrow> nat \<Rightarrow> action list" where
  "prunes_so_far x n = turns_of n @ (case x of PruningKeyPackages i \<Rightarrow> [PruneKeyPackages] | _ \<Rightarrow> [])"

lemma quiet_label:
  assumes "\<And>i a. l \<noteq> Some (Invoked i a)"
  shows "messages_taken (observation l) = []" and "prunes_begun (observation l) = []"
proof -
  have "l = None \<or> (\<exists>i out. l = Some (Returned i out))" using assms by (metis event.exhaust option.exhaust)
  then show "messages_taken (observation l) = []" and "prunes_begun (observation l) = []" by auto
qed

lemma life_order:
  assumes "run (program_step srv) (started p) tr q"
  shows "Suc (lives p) \<le> lives q \<and> (lives q = Suc (lives p) \<longrightarrow>
    messages_taken tr @ inbound q = arrived q \<and> (\<exists>n. prunes_begun tr = prunes_so_far (pruner q) n))"
proof (rule run_invariant [OF assms, where P = "\<lambda>tr q. Suc (lives p) \<le> lives q \<and> (lives q = Suc (lives p) \<longrightarrow>
    messages_taken tr @ inbound q = arrived q \<and> (\<exists>n. prunes_begun tr = prunes_so_far (pruner q) n))"])
  have "[] = prunes_so_far AtTick 0" by (simp add: prunes_so_far_def)
  then show "Suc (lives p) \<le> lives (started p) \<and> (lives (started p) = Suc (lives p) \<longrightarrow>
      messages_taken [] @ inbound (started p) = arrived (started p) \<and> (\<exists>n. prunes_begun [] = prunes_so_far (pruner (started p)) n))"
    by (auto simp: started_def)
next
  fix tr q l q'
  assume IH: "Suc (lives p) \<le> lives q \<and> (lives q = Suc (lives p) \<longrightarrow>
      messages_taken tr @ inbound q = arrived q \<and> (\<exists>n. prunes_begun tr = prunes_so_far (pruner q) n))"
    and step: "program_step srv q l q'"
  have go: "\<exists>m. turns_of n @ [PruneKeyPackages, PruneAccounts] = turns_of m" for n using turns_of.simps(2) by metis
  from step show "Suc (lives p) \<le> lives q' \<and> (lives q' = Suc (lives p) \<longrightarrow>
      messages_taken (tr @ observation l) @ inbound q' = arrived q' \<and>
      (\<exists>n. prunes_begun (tr @ observation l) = prunes_so_far (pruner q') n))"
  proof (cases rule: program_step.cases)
    case (go_on i j w)
    then show ?thesis using IH go by (auto simp: prunes_so_far_def)
  next
    case (work w)
    then show ?thesis using IH quiet_label [of l] by auto
  next
    case (receive m ms i w)
    then show ?thesis using IH by (auto simp: prunes_so_far_def)
  qed (use IH in \<open>auto simp: prunes_so_far_def started_def simp flip: append_assoc\<close>)
qed

section \<open>Shutdown\<close>

text \<open>The loops never give their jobs up while the program lives.\<close>

definition loops_wait :: "program \<Rightarrow> bool" where
  "loops_wait p \<longleftrightarrow> (alive p \<longrightarrow> (\<forall>i. loop_job p i \<longrightarrow> jobs (service_world p) i \<noteq> Some Abandoned))"

lemma invoke_jobs: "concurrent_step srv w (Some (Invoked i a)) w' \<Longrightarrow> jobs w i = None \<and> jobs w' = (jobs w)(i \<mapsto> Running a)"
  by (erule concurrent_step.cases) auto

lemma loops_wait_step: "program_step srv p l p' \<Longrightarrow> loops_wait p \<Longrightarrow> loops_wait p'"
  by (erule program_step.cases)
    (auto simp: loops_wait_def loop_job_def alive_def connected_node_def started_def dest!: invoke_jobs split: if_splits)

lemma loops_wait_run: "run (program_step srv) (installed db) tr p \<Longrightarrow> loops_wait p"
  by (erule run_invariant [where P = "\<lambda>_. loops_wait"]) (simp add: loops_wait_def installed_def alive_def, rule loops_wait_step)

text \<open>
  A step of the program as it shuts down, when nothing new comes in, nobody kills it and no client goes away: the jobs
  under way go on, the loops may end a turn, or the process ends.
\<close>

definition closing_step :: "('a, 's, 'r) service \<Rightarrow> program \<Rightarrow> program \<Rightarrow> bool" where
  "closing_step srv p p' \<longleftrightarrow>
     alive p \<and> phase p' \<in> {Draining, Exited} \<and> arrived p' = arrived p \<and>
     (\<exists>l. program_step srv p l p' \<and> (\<forall>i a. l \<noteq> Some (Invoked i a))) \<and>
     (\<forall>i. jobs (service_world p') i = Some Abandoned \<longrightarrow> jobs (service_world p) i = Some Abandoned \<or> loop_job p i)"

text \<open>What is left to do: the steps of the jobs, the ends of the two loops' turns, and the end of the process.\<close>

definition closing_left :: "nat set \<Rightarrow> program \<Rightarrow> nat" where
  "closing_left D p =
     work_left D (service_world p) + (if receiver p = None then 0 else 1) +
     (case pruner p of PruningAccounts i \<Rightarrow> 1 | _ \<Rightarrow> 0) + (if phase p = Exited then 0 else 1)"

definition closing :: "('a, 's, 'r) service \<Rightarrow> tables \<Rightarrow> nat set \<Rightarrow> program \<Rightarrow> bool" where
  "closing srv db0 D p \<longleftrightarrow>
     in_service srv db0 (service_world p) \<and> phase p \<in> {Draining, Exited} \<and> loops_wait p \<and>
     (phase p = Exited \<longrightarrow> outstanding (service_world p) = {}) \<and> dom (jobs (service_world p)) \<subseteq> D"

lemma cut_off_jobs:
  assumes "cut_off srv w w'"
  shows "dom (jobs w') = dom (jobs w)" and "jobs w' i = Some Abandoned \<Longrightarrow> jobs w i = Some Abandoned \<or> i \<in> outstanding w"
proof -
  have "(give_up srv)\<^sup>*\<^sup>* w w'" using assms by (simp add: cut_off_def)
  then have "dom (jobs w') = dom (jobs w) \<and> outstanding w' \<subseteq> outstanding w \<and>
      (\<forall>i. jobs w' i = Some Abandoned \<longrightarrow> jobs w i = Some Abandoned \<or> i \<in> outstanding w)"
  proof (induction rule: rtranclp_induct)
    case (step x y)
    obtain k where k: "k \<in> outstanding x" "jobs y = (jobs x)(k \<mapsto> Abandoned)" using step(2) by (auto simp: give_up_def)
    then have "outstanding y \<subseteq> outstanding x" and "dom (jobs y) = dom (jobs x)" by (auto simp: outstanding_def split: if_splits)
    moreover have "jobs w i = Some Abandoned \<or> i \<in> outstanding w" if "jobs y i = Some Abandoned" for i
      using that k step(3) by (cases "i = k") auto
    moreover have "dom (jobs x) = dom (jobs w)" and "outstanding x \<subseteq> outstanding w" using step(3) by (rule conjunct1, blast)
    ultimately show ?case by (metis subset_trans)
  qed simp
  then show "dom (jobs w') = dom (jobs w)" and "jobs w' i = Some Abandoned \<Longrightarrow> jobs w i = Some Abandoned \<or> i \<in> outstanding w"
    by blast+
qed

lemma quiet_dom: "concurrent_step srv w l w' \<Longrightarrow> (\<And>i a. l \<noteq> Some (Invoked i a)) \<Longrightarrow> dom (jobs w') \<subseteq> dom (jobs w)"
  by (erule concurrent_step.cases) auto

lemma work_left_none:
  assumes "in_service srv db0 w" and "outstanding w = {}"
  shows "work_left D w = 0"
  using job_steps_bound(2) [OF assms(1)] assms(2) by (simp add: work_left_def)

text \<open>Every closing step keeps what holds, and leaves less to do.\<close>

lemma closing_step_keeps:
  assumes closing: "closing srv db0 D p" and "finite D" and step: "closing_step srv p p'"
  shows "closing srv db0 D p'" and "closing_left D p' < closing_left D p" and "loop_job p' i \<Longrightarrow> loop_job p i"
proof -
  have serv: "in_service srv db0 (service_world p)" and wait: "loops_wait p" and dom: "dom (jobs (service_world p)) \<subseteq> D"
    and phase: "phase p = Draining"
    using closing step by (auto simp: closing_def closing_step_def alive_def)
  obtain l where l: "program_step srv p l p'" "\<And>i a. l \<noteq> Some (Invoked i a)" and same: "arrived p' = arrived p"
    and phase': "phase p' \<in> {Draining, Exited}"
    using step unfolding closing_step_def by blast
  have serv': "in_service srv db0 (service_world p')"
    using serv program_step_run [OF l(1)] in_service_runs by blast
  have wait': "loops_wait p'" by (rule loops_wait_step [OF l(1) wait])
  have "dom (jobs (service_world p')) \<subseteq> D \<and> (phase p' = Exited \<longrightarrow> outstanding (service_world p') = {}) \<and>
      closing_left D p' < closing_left D p \<and> (loop_job p' i \<longrightarrow> loop_job p i)"
    using l(1)
  proof (cases rule: program_step.cases)
    case (work w)
    have "drain_step srv (service_world p) w" unfolding drain_step_def using work(3) quiet_dom [OF work(3) l(2)] by blast
    from drain_step_job [OF serv this] obtain k where "job_steps w k < job_steps (service_world p) k" "k \<in> dom (jobs (service_world p))"
      "\<And>j. j \<noteq> k \<Longrightarrow> job_steps w j = job_steps (service_world p) j" by metis
    then have "work_left D w < work_left D (service_world p)" using work_left_update [OF assms(2)] dom by blast
    then show ?thesis using work quiet_dom [OF work(3) l(2)] dom phase
      by (auto simp: closing_left_def loop_job_def)
  next
    case (exit w)
    have "work_left D w = 0" using exit(5) serv' exit(2) by (intro work_left_none) (auto simp: cut_off_def)
    then show ?thesis using exit cut_off_jobs(1) [OF exit(5)] dom
      by (auto simp: closing_left_def loop_job_def cut_off_def split: prune_point.split)
  qed (use l(2) same phase phase' dom in \<open>auto simp: closing_left_def loop_job_def started_def split: prune_point.splits\<close>)
  with serv' wait' phase' show "closing srv db0 D p'" and "closing_left D p' < closing_left D p" and "loop_job p' i \<Longrightarrow> loop_job p i"
    by (auto simp: closing_def)
qed

lemma closing_steps_keep:
  assumes "(closing_step srv)\<^sup>*\<^sup>* p p'" and "closing srv db0 D p" and "finite D"
  shows "closing srv db0 D p'" and "loop_job p' i \<Longrightarrow> loop_job p i"
proof -
  have "closing srv db0 D p' \<and> (\<forall>i. loop_job p' i \<longrightarrow> loop_job p i)"
    using assms(1)
  proof (induction rule: rtranclp_induct)
    case (step x y)
    then show ?case using closing_step_keeps [OF _ assms(3) step(2)] by blast
  qed (use assms(2) in simp)
  then show "closing srv db0 D p'" and "loop_job p' i \<Longrightarrow> loop_job p i" by blast+
qed

lemma closing_steps_bound:
  assumes "(closing_step srv ^^ n) p p'" and "closing srv db0 D p" and "finite D"
  shows "n + closing_left D p' \<le> closing_left D p"
  using assms
proof (induction n arbitrary: p)
  case (Suc n)
  from Suc.prems(1) obtain p1 where first: "closing_step srv p p1" and rest: "(closing_step srv ^^ n) p1 p'"
    by (meson relpowp_Suc_D2)
  note keeps = closing_step_keeps [OF Suc.prems(2,3) first]
  from Suc.IH [OF rest keeps(1) Suc.prems(3)] keeps(2) show ?case by linarith
qed simp

text \<open>The program can go on until it has ended.\<close>

lemma closing_step_possible:
  assumes "closing srv db0 D p" and "phase p = Draining"
  shows "\<exists>p'. closing_step srv p p'"
proof -
  let ?w = "service_world p"
  have serv: "in_service srv db0 ?w" and wait: "loops_wait p" using assms(1) by (simp_all add: closing_def)
  have alive: "alive p" using assms(2) by (simp add: alive_def)
  show ?thesis
  proof (cases "\<exists>i \<in> outstanding ?w. \<not> loop_job p i")
    case True
    then obtain w where w: "drain_step srv ?w w" "\<And>i. jobs w i = Some Abandoned \<Longrightarrow> jobs ?w i = Some Abandoned"
      using drain_step_possible [OF serv] by blast
    then obtain l where l: "concurrent_step srv ?w l w" "\<And>i a. l \<noteq> Some (Invoked i a)"
      using invoke_jobs unfolding drain_step_def by fastforce
    have "program_step srv p l (p\<lparr>service_world := w\<rparr>)"
      by (rule program_step.work [OF alive l]) (use w(2) wait alive in \<open>auto simp: loops_wait_def\<close>)
    then have "closing_step srv p (p\<lparr>service_world := w\<rparr>)"
      unfolding closing_step_def using alive assms(2) l(2) w(2) by auto
    then show ?thesis ..
  next
    case False
    obtain w where w: "cut_off srv ?w w" using cut_off_possible [OF serv] by blast
    have "program_step srv p None (p\<lparr>phase := Exited, service_world := w\<rparr>)"
      by (rule program_step.exit [OF assms(2) _ w]) (use False in blast)
    then have "closing_step srv p (p\<lparr>phase := Exited, service_world := w\<rparr>)"
      unfolding closing_step_def using alive cut_off_jobs(2) [OF w] False by auto
    then show ?thesis ..
  qed
qed

text \<open>No request is given up on the way.\<close>

lemma closing_keeps_request:
  assumes "(closing_step srv)\<^sup>*\<^sup>* p p'" and "closing srv db0 D p" and "finite D" and i: "i \<in> outstanding (service_world p)" "\<not> loop_job p i"
  shows "jobs (service_world p') i \<noteq> None \<and> jobs (service_world p') i \<noteq> Some Abandoned"
  using assms(1)
proof (induction rule: rtranclp_induct)
  case base
  then show ?case using i(1) by (auto simp: outstanding_def)
next
  case (step x y)
  have "\<not> loop_job x i" using closing_steps_keep(2) [OF step(1) assms(2,3)] i(2) by blast
  moreover obtain l where "program_step srv x l y" using step(2) unfolding closing_step_def by blast
  then have "dom (jobs (service_world x)) \<subseteq> dom (jobs (service_world y))" by (rule run_jobs [OF program_step_run])
  ultimately show ?case using step(2,3) unfolding closing_step_def by blast
qed

lemma closing_start:
  assumes "run (program_step srv) (installed db) tr p" and "phase p = Draining"
  shows "closing srv db (dom (jobs (service_world p))) p" and "finite (dom (jobs (service_world p)))"
    and "closing_left (dom (jobs (service_world p))) p \<le> 9 * card (outstanding (service_world p)) + 3"
proof -
  have serv: "in_service srv db (service_world p)" by (rule in_service_run [OF program_run [OF assms(1)]])
  then show "closing srv db (dom (jobs (service_world p))) p" "finite (dom (jobs (service_world p)))"
    using loops_wait_run [OF assms(1)] assms(2) by (simp_all add: closing_def in_service_def)
  show "closing_left (dom (jobs (service_world p))) p \<le> 9 * card (outstanding (service_world p)) + 3"
    using work_left_outstanding [OF serv] by (auto simp: closing_left_def split: prune_point.split)
qed

section \<open>What the program does alone\<close>

text \<open>While it serves and its loops are idle, the program lets requests run as the service does.\<close>

lemma serves_requests:
  assumes "run (concurrent_step srv) (service_world p) tr w" and "phase p = Serving" and "receiver p = None" and "pruner p = AtTick"
    and "\<And>i a. Invoked i a \<in> set tr \<Longrightarrow> \<exists>req. a = Http req"
  shows "run (program_step srv) p tr (p\<lparr>service_world := w\<rparr>)"
proof -
  have "(\<forall>i a. Invoked i a \<in> set tr \<longrightarrow> (\<exists>req. a = Http req)) \<longrightarrow> run (program_step srv) p tr (p\<lparr>service_world := w\<rparr>)"
    using assms(1)
  proof (rule run_invariant)
    have "p = p\<lparr>service_world := service_world p\<rparr>" by simp
    then show "(\<forall>i a. Invoked i a \<in> set [] \<longrightarrow> (\<exists>req. a = Http req)) \<longrightarrow> run (program_step srv) p [] (p\<lparr>service_world := service_world p\<rparr>)"
      using run.start [of "program_step srv" p] by simp
    fix tr t l u
    assume IH: "(\<forall>i a. Invoked i a \<in> set tr \<longrightarrow> (\<exists>req. a = Http req)) \<longrightarrow> run (program_step srv) p tr (p\<lparr>service_world := t\<rparr>)"
      and step: "concurrent_step srv t l u"
    let ?p = "p\<lparr>service_world := t\<rparr>"
    have "program_step srv ?p l (?p\<lparr>service_world := u\<rparr>)" if http: "\<forall>i a. l = Some (Invoked i a) \<longrightarrow> (\<exists>req. a = Http req)"
    proof (cases "\<exists>i a. l = Some (Invoked i a)")
      case True
      then obtain i req where l: "l = Some (Invoked i (Http req))" using http by blast
      show ?thesis unfolding l by (rule program_step.request) (use step assms(2) l in simp_all)
    next
      case False
      then show ?thesis by (intro program_step.work) (use step assms(2-4) in \<open>auto simp: alive_def loop_job_def\<close>)
    qed
    then show "(\<forall>i a. Invoked i a \<in> set (tr @ observation l) \<longrightarrow> (\<exists>req. a = Http req)) \<longrightarrow>
        run (program_step srv) p (tr @ observation l) (p\<lparr>service_world := u\<rparr>)"
      using IH run_more [of "program_step srv" p tr ?p l] by simp
  qed
  then show ?thesis using assms(5) by blast
qed

text \<open>What the service does without new jobs, and without the loops' jobs being given up, it does in the program.\<close>

lemma abandoned_stays: "concurrent_step srv w l w' \<Longrightarrow> jobs w i = Some Abandoned \<Longrightarrow> jobs w' i = Some Abandoned"
  by (erule concurrent_step.cases) auto

lemma works_on:
  assumes "run (concurrent_step srv) (service_world p) tr w" and "alive p"
    and "\<And>i a. Invoked i a \<notin> set tr" and "\<And>i. loop_job p i \<Longrightarrow> jobs w i \<noteq> Some Abandoned"
  shows "run (program_step srv) p tr (p\<lparr>service_world := w\<rparr>)"
proof -
  let ?P = "\<lambda>tr w. (\<forall>i a. Invoked i a \<notin> set tr) \<and> (\<forall>i. loop_job p i \<longrightarrow> jobs w i \<noteq> Some Abandoned) \<longrightarrow>
      run (program_step srv) p tr (p\<lparr>service_world := w\<rparr>)"
  have "?P tr w"
    using assms(1)
  proof (rule run_invariant)
    show "?P [] (service_world p)" using run.start [of "program_step srv" p] by simp
    fix tr t l u
    assume IH: "?P tr t" and step: "concurrent_step srv t l u"
    show "?P (tr @ observation l) u"
    proof
      assume ok: "(\<forall>i a. Invoked i a \<notin> set (tr @ observation l)) \<and> (\<forall>i. loop_job p i \<longrightarrow> jobs u i \<noteq> Some Abandoned)"
      let ?p = "p\<lparr>service_world := t\<rparr>"
      have new: "l \<noteq> Some (Invoked i a)" for i a using ok by (cases l) auto
      have loops: "jobs u i \<noteq> Some Abandoned" if "loop_job ?p i" for i using ok that by (auto simp: loop_job_def)
      have "program_step srv ?p l (?p\<lparr>service_world := u\<rparr>)"
        by (rule program_step.work) (use step assms(2) new loops in \<open>simp_all add: alive_def\<close>)
      then show "run (program_step srv) p (tr @ observation l) (p\<lparr>service_world := u\<rparr>)"
        using IH ok abandoned_stays [OF step] run_more [of "program_step srv" p tr ?p l] by auto
    qed
  qed
  then show ?thesis using assms(3,4) by blast
qed

text \<open>The way from stopped to serving.\<close>

lemma starts_up:
  assumes "\<not> alive p" and "lives p = 0 \<or> \<not> is_memory_path (db_path (config srv))"
  shows "run (program_step srv) p [] ((started p)\<lparr>phase := Serving\<rparr>)"
proof -
  note silent = run.silent [where M = "program_step srv"]
  have "program_step srv p None (started p)" by (rule program_step.start [OF assms])
  moreover have "program_step srv (started p) None ((started p)\<lparr>phase := Subscribed\<rparr>)"
    by (rule program_step.ingestion) (simp add: started_def)
  moreover have "program_step srv ((started p)\<lparr>phase := Subscribed\<rparr>) None ((started p)\<lparr>phase := Subscribed\<rparr>\<lparr>phase := Serving\<rparr>)"
    by (rule program_step.bind) simp
  ultimately have "run (program_step srv) p [] ((started p)\<lparr>phase := Subscribed\<rparr>\<lparr>phase := Serving\<rparr>)"
    by (intro silent [OF silent [OF silent [OF run.start]]])
  then show ?thesis by (cases p) (simp add: started_def)
qed

text \<open>A request in a first life, a crash, and a request in a second life.\<close>

lemma two_lives:
  assumes on_disk: "\<not> is_memory_path (db_path (config srv))"
    and first: "perform srv (Http req) \<lparr>pool = db, clock = now, faults = fs\<rparr> = (out, s)"
    and second: "perform srv (Http req') \<lparr>pool = pool s, clock = now', faults = fs'\<rparr> = (out', s')"
  obtains p where "run (program_step srv) (installed db)
      ([Invoked 0 (Http req), Returned 0 out] @ [Invoked 1 (Http req'), Returned 1 out']) p"
    and "lives p = 2" and "committed (locked (service_world p)) = pool s'"
proof -
  let ?w0 = "opened_world db"
  have opened: "committed (locked ?w0) = db" "jobs ?w0 = (\<lambda>_. None)" "tasks (locked ?w0) = (\<lambda>_. None)" "write_lock (locked ?w0) = None"
    by (simp_all add: opened_world_def opened_conf_def)
  obtain w1 where w1: "run (concurrent_step srv) ?w0 [Invoked 0 (Http req), Returned 0 out] w1" "committed (locked w1) = pool s"
    "write_lock (locked w1) = None" "jobs w1 = (jobs ?w0)(0 \<mapsto> Answered out)"
    "\<And>j. j \<noteq> 0 \<Longrightarrow> tasks (locked w1) j = tasks (locked ?w0) j"
    by (rule does_alone [of ?w0 0 srv "Http req" now fs out s]) (use first opened in simp_all)
  obtain w2 where w2: "run (concurrent_step srv) w1 [Invoked 1 (Http req'), Returned 1 out'] w2" "committed (locked w2) = pool s'"
    by (rule does_alone [of w1 1 srv "Http req'" now' fs' out' s']) (use second opened w1(2-5) in simp_all)
  define p1 where "p1 = (started (installed db))\<lparr>phase := Serving\<rparr>"
  have r1: "run (program_step srv) (installed db) [] p1"
    unfolding p1_def by (rule starts_up) (simp_all add: installed_def alive_def)
  have p1: "phase p1 = Serving" "receiver p1 = None" "pruner p1 = AtTick" "service_world p1 = ?w0" "lives p1 = 1"
    by (simp_all add: p1_def installed_def started_def)
  have r2: "run (program_step srv) p1 [Invoked 0 (Http req), Returned 0 out] (p1\<lparr>service_world := w1\<rparr>)"
    by (rule serves_requests) (use w1(1) p1 in auto)
  define p2 where "p2 = p1\<lparr>service_world := w1\<rparr>\<lparr>phase := Stopped, service_world := w1\<rparr>"
  have "outstanding w1 = {}" using w1(4) opened by (auto simp: outstanding_def split: if_splits)
  then have "program_step srv (p1\<lparr>service_world := w1\<rparr>) None p2"
    unfolding p2_def by (intro program_step.crash) (simp_all add: alive_def p1 cut_off_def)
  note r3 = run_step [of "program_step srv", OF this]
  define p3 where "p3 = (started p2)\<lparr>phase := Serving\<rparr>"
  have r4: "run (program_step srv) p2 [] p3"
    unfolding p3_def by (rule starts_up) (use on_disk in \<open>simp_all add: p2_def alive_def\<close>)
  have p3: "phase p3 = Serving" "receiver p3 = None" "pruner p3 = AtTick" "service_world p3 = w1" "lives p3 = 2"
    by (simp_all add: p3_def p2_def p1 started_def)
  have r5: "run (program_step srv) p3 [Invoked 1 (Http req'), Returned 1 out'] (p3\<lparr>service_world := w2\<rparr>)"
    by (rule serves_requests) (use w2(1) p3 in auto)
  show thesis
    using run_append [OF run_append [OF run_append [OF run_append [OF r1 r2] r3] r4] r5]
    by (intro that [of "p3\<lparr>service_world := w2\<rparr>"]) (simp_all add: p3 w2)
qed

end
