(* ===== verification/Sample_Service.thy ===== *)
theory Sample_Service
  imports Acknowledged Lifecycle
begin

text \<open>
  A concrete service for the closed examples, over the sample crates of theory \<open>Sample_Crates\<close>: its requests and
  messages, what it answers, and runs of it in which a log and a bundle are posted and then fetched.
\<close>

section \<open>The sample service\<close>

text \<open>
  A service for the closed examples. Its framework knows the account routes, takes the fields of a JSON body
  from the headers, and its network messages are those of \<^term>\<open>sample_proto\<close>.
\<close>

definition sample_axum :: axum where
  "sample_axum =
     \<lparr>select_route = (\<lambda>_ req.
        if take 12 (req_uri req) = ''/v1/account/''
        then Inr (if req_method req = ''POST'' then SubmitAccountV1 else FetchAccountV1, drop 12 (req_uri req))
        else if take 11 (req_uri req) = ''/v0/account''
        then Inr (if req_method req = ''POST'' then SubmitAccountV0 else FetchAccountV0, drop 12 (req_uri req))
        else Inl (status_only NOT_FOUND)),
      extract_key_package = (\<lambda>_. Inl (status_only BAD_REQUEST)),
      extract_account = (\<lambda>req. case map snd (req_headers req) of
          [k, p, g] \<Rightarrow> Inr \<lparr>acr_account_pub = k, acr_payload = p, acr_signature = g\<rparr>
        | _ \<Rightarrow> Inl (status_only BAD_REQUEST)),
      extract_bytes = (\<lambda>req. Inr (req_body req))\<rparr>"

definition sample_service :: "(sample_addr, sample_signed, sample_record) service" where
  "sample_service =
     \<lparr>web = sample_axum, protobuf = sample_proto, codecs = sample_deps, account_log = sample_log,
      config = default_cli\<rparr>"

lemma sample_service_simps [simp]:
  "web sample_service = sample_axum" "protobuf sample_service = sample_proto" "codecs sample_service = sample_deps"
  "account_log sample_service = sample_log" "config sample_service = default_cli"
  by (simp_all add: sample_service_def)

text \<open>A log of the account \<open>07\<close>, and the request that posts it.\<close>

definition sample_artifact :: "bytes \<Rightarrow> bytes" where
  "sample_artifact entries = signed_to_bytes sample_log (sample_signed_log [7] entries)"

definition post_log :: "bytes \<Rightarrow> request" where
  "post_log entries =
     \<lparr>req_method = ''POST'', req_uri = ''/v1/account/'' @ base16_encode [7], req_headers = [],
      req_body = sample_artifact entries\<rparr>"

lemma parse_sample_addr: "addr_parse sample_log (base16_encode [7]) = Some [7]"
  using account_log_lawsD(1) [OF sample_account_log_laws] unfolding addr_laws_def sample_log_simps(2) by blast

lemma decode_sample_artifact: "signed_from_bytes sample_log (sample_artifact entries) = Inr (sample_signed_log [7] entries)"
  unfolding sample_artifact_def by (rule artifact_lawsD(1) [OF account_log_lawsD(2) [OF sample_account_log_laws]])

section \<open>Runs\<close>

text \<open>Two jobs of the sample service, one after the other: a log is posted, then fetched.\<close>

definition get_log :: request where
  "get_log = \<lparr>req_method = ''GET'', req_uri = ''/v1/account/'' @ base16_encode [7], req_headers = [], req_body = []\<rparr>"

definition log_response :: response where
  "log_response = \<lparr>resp_status = OK, resp_headers = [(''content-type'', ''application/octet-stream'')],
     resp_body = RawBody (sample_artifact [5, 6])\<rparr>"

definition sample_trace :: "event list" where
  "sample_trace = [Invoked 0 (Http (post_log [5, 6])), Returned 0 (Responded (status_only NO_CONTENT)),
     Invoked 1 (Http get_log), Returned 1 (Responded log_response)]"

lemma serve_post_log_accepted:
  "apply_account_log sample_log [7] (sample_signed_log [7] entries) s = (Inr (), t) \<Longrightarrow>
     serve sample_axum sample_deps sample_log (post_log entries) s = (status_only NO_CONTENT, t)"
  by (simp add: serve_def sample_axum_def post_log_def call_endpoint_def respond_def submit_account_v1_run
      parse_sample_addr decode_sample_artifact del: base16_encode.simps)

lemma serve_get_log:
  "quiet s \<Longrightarrow> log_cell s (base16_encode [7]) = Some (sample_artifact [5, 6]) \<Longrightarrow>
     serve sample_axum sample_deps sample_log get_log s = (log_response, s)"
  by (simp add: serve_def sample_axum_def get_log_def call_endpoint_def respond_def fetch_account_v1_quiet
      parse_sample_addr log_response_def del: base16_encode.simps)

definition posted_tables :: tables where
  "posted_tables = sql_upsert_log (base16_encode [7]) (stamp_ms 5000000) (sample_artifact [5, 6]) empty_tables"

lemma perform_post_log:
  "perform sample_service (Http (post_log [5, 6])) \<lparr>pool = empty_tables, clock = 5000000, faults = []\<rparr> =
     (Responded (status_only NO_CONTENT), \<lparr>pool = posted_tables, clock = 5000000, faults = []\<rparr>)"
proof -
  let ?start = "\<lparr>pool = empty_tables, clock = 5000000, faults = []\<rparr>"
  have "apply_account_log sample_log [7] (sample_signed_log [7] [5, 6]) ?start = (Inr (), ?start\<lparr>pool := posted_tables\<rparr>)"
    using sample_logs.verdict(1) [OF _ _ sample_log_simps(1), of ?start "[7]" "[5, 6]"]
    by (simp add: quiet_def logs_verified_def log_cell_def sample_artifact_def empty_tables_def sql_select_log_def posted_tables_def
        del: base16_encode.simps)
  then show ?thesis by (simp add: perform_def serve_post_log_accepted)
qed

lemma perform_get_log:
  "perform sample_service (Http get_log) \<lparr>pool = posted_tables, clock = 6000000, faults = []\<rparr> =
     (Responded log_response, \<lparr>pool = posted_tables, clock = 6000000, faults = []\<rparr>)"
  using serve_get_log [of "\<lparr>pool = posted_tables, clock = 6000000, faults = []\<rparr>"]
  by (simp add: perform_def quiet_def log_cell_def posted_tables_def del: base16_encode.simps)

lemma sample_concurrent_run:
  obtains w where "run (concurrent_step sample_service) (opened_world empty_tables) sample_trace w"
    and "log_cell (store_of (committed (locked w))) (base16_encode [7]) = Some (sample_artifact [5, 6])"
    and "write_lock (locked w) = None" and "jobs w 2 = None" and "tasks (locked w) 2 = None"
proof -
  have open_world: "committed (locked (opened_world empty_tables)) = empty_tables" "jobs (opened_world empty_tables) i = None"
    "tasks (locked (opened_world empty_tables)) i = None" "write_lock (locked (opened_world empty_tables)) = None" for i
    by (simp_all add: opened_world_def opened_conf_def)
  obtain w1 where w1: "run (concurrent_step sample_service) (opened_world empty_tables) (take 2 sample_trace) w1"
    "committed (locked w1) = posted_tables" "write_lock (locked w1) = None"
    "\<And>j. j \<noteq> 0 \<Longrightarrow> jobs w1 j = None" "\<And>j. j \<noteq> 0 \<Longrightarrow> tasks (locked w1) j = None"
    by (rule does_alone [of "opened_world empty_tables" 0 sample_service "Http (post_log [5, 6])" 5000000 "[]"])
      (simp_all only: open_world perform_post_log, simp_all add: sample_trace_def open_world)
  obtain w2 where w2: "run (concurrent_step sample_service) w1 (drop 2 sample_trace) w2"
    "committed (locked w2) = posted_tables" "write_lock (locked w2) = None" "jobs w2 2 = None" "tasks (locked w2) 2 = None"
    by (rule does_alone [of w1 1 sample_service "Http get_log" 6000000 "[]"])
      (use w1(3-5) in \<open>simp_all only: w1(2) perform_get_log, simp_all add: sample_trace_def\<close>)
  from run_append [OF w1(1) w2(1)] have "run (concurrent_step sample_service) (opened_world empty_tables) sample_trace w2"
    by (simp only: append_take_drop_id)
  then show thesis by (rule that) (use w2 in \<open>simp_all add: store_of_def log_cell_def posted_tables_def del: base16_encode.simps\<close>)
qed

text \<open>The same in two lives of the program: it crashes after the log was posted and is started again.\<close>

lemma sample_file: "\<not> is_memory_path (db_path (config sample_service))"
  by (simp add: default_cli_def is_memory_path_def)

lemma sample_program_run:
  obtains p where "run (program_step sample_service) (installed empty_tables) (take 2 sample_trace @ drop 2 sample_trace) p"
    and "lives p = 2"
  by (rule two_lives [OF sample_file perform_post_log, where req' = get_log and now' = 6000000 and fs' = "[]"])
    (use perform_get_log in \<open>simp_all add: sample_trace_def\<close>)

section \<open>Account bundles\<close>

definition post_account :: "u64 \<Rightarrow> request" where
  "post_account lamport =
     \<lparr>req_method = ''POST'', req_uri = ''/v0/account'',
      req_headers = [(''account_pub'', key_hex sample_deps (sample_bundle 7 (payload_with_lamport lamport))),
        (''payload'', b64_encode sample_deps (payload_with_lamport lamport)),
        (''signature'', b64_encode sample_deps (bsignature (sample_bundle 7 (payload_with_lamport lamport))))],
      req_body = []\<rparr>"

definition ask_account :: request where
  "ask_account = \<lparr>req_method = ''GET'', req_uri = ''/v0/account/'' @ base16_encode (replicate 32 7), req_headers = [], req_body = []\<rparr>"

definition account_response :: "u64 \<Rightarrow> response" where
  "account_response lamport = \<lparr>resp_status = OK, resp_headers = [], resp_body = AccountBody
     \<lparr>fac_payload = b64_encode sample_deps (payload_with_lamport lamport),
      fac_signature = b64_encode sample_deps (bsignature (sample_bundle 7 (payload_with_lamport lamport))),
      fac_updated_at = stamp_ms 5000000\<rparr>\<rparr>"

definition account_tables :: "u64 \<Rightarrow> tables" where
  "account_tables lamport = sql_upsert_account (base16_encode (replicate 32 7)) (stamp_ms 5000000) (payload_with_lamport lamport)
     (bsignature (sample_bundle 7 (payload_with_lamport lamport))) empty_tables"

lemma post_account_bundle:
  "\<exists>body. extract_account sample_axum (post_account lamport) = Inr body \<and>
     decode_account sample_deps body = Inr (sample_bundle 7 (payload_with_lamport lamport))"
  by (simp add: sample_axum_def post_account_def decode_account_def decode_bundle_def key_hex_def from_bytes_def
      hex_lawsD(1) [OF sample_hex_laws] sample_base64_laws [unfolded base64_laws_def] sample_bundle_def
      del: base16_encode.simps)

lemma route_account:
  "select_route sample_axum router (post_account lamport) = Inr (SubmitAccountV0, [])"
  "select_route sample_axum router ask_account = Inr (FetchAccountV0, base16_encode (replicate 32 7))"
  by (simp_all add: sample_axum_def post_account_def ask_account_def del: base16_encode.simps)

lemma perform_post_account:
  "perform sample_service (Http (post_account lamport)) \<lparr>pool = empty_tables, clock = 5000000, faults = []\<rparr> =
     (Responded (status_only NO_CONTENT), \<lparr>pool = account_tables lamport, clock = 5000000, faults = []\<rparr>)"
proof -
  let ?s = "\<lparr>pool = empty_tables, clock = 5000000, faults = []\<rparr>" and ?b = "sample_bundle 7 (payload_with_lamport lamport)"
  obtain body where body: "extract_account sample_axum (post_account lamport) = Inr body" "decode_account sample_deps body = Inr ?b"
    using post_account_bundle by blast
  have "apply_account sample_deps ?b ?s = (Inr (), ?s\<lparr>pool := account_tables lamport\<rparr>)"
    by (simp add: apply_account_quiet quiet_def account_tables_def holds_lamport_def empty_tables_def sql_select_account_def
        del: base16_encode.simps)
  then show ?thesis
    by (simp add: perform_def serve_def route_account call_endpoint_def body respond_def submit_account_v0_run)
qed

lemma perform_ask_account:
  "perform sample_service (Http ask_account) \<lparr>pool = account_tables lamport, clock = 6000000, faults = []\<rparr> =
     (Responded (account_response lamport), \<lparr>pool = account_tables lamport, clock = 6000000, faults = []\<rparr>)"
  by (simp add: perform_def serve_def route_account call_endpoint_def respond_def fetch_account_v0_quiet quiet_def account_tables_def
      account_response_def del: base16_encode.simps)

lemma sample_account_run:
  obtains p where "run (program_step sample_service) (installed empty_tables)
      ([Invoked 0 (Http (post_account lamport)), Returned 0 (Responded (status_only NO_CONTENT))] @
       [Invoked 1 (Http ask_account), Returned 1 (Responded (account_response lamport))]) p"
  by (rule two_lives [OF sample_file perform_post_account, where req' = ask_account and now' = 6000000 and fs' = "[]"])
    (use perform_ask_account in simp_all)

end
