(* ===== verification/Benchmark.thy ===== *)
theory Benchmark
  imports Endpoints
begin

text \<open>
  The benchmark client of \<open>examples/benchmark.rs\<close>: its options, how it splits the work, the keys it
  derives, and the business flow of seven requests it runs. The HTTP client and the Ed25519 signer are
  parameters. The theorems show that every operation gets keys of its own and that the flow succeeds
  against the service of theory \<open>Handlers\<close>.
\<close>

section \<open>Options\<close>

record config =
  operations :: usize
  concurrency :: usize
  payload_bytes :: usize
  server_bin :: string
  keep_db :: bool

definition default_config :: config where
  "default_config =
     \<lparr>operations = 1000, concurrency = 16, payload_bytes = 512,
      server_bin = ''target/release/chat-store'', keep_db = False\<rparr>"

text \<open>\<open>str::parse::<usize>\<close>: an optional plus sign and decimal digits whose value fits 64 bits.\<close>

definition digit_value :: "char \<Rightarrow> nat option" where
  "digit_value c = (let n = of_char c :: nat in if 48 \<le> n \<and> n \<le> 57 then Some (n - 48) else None)"

fun parse_digits :: "nat \<Rightarrow> string \<Rightarrow> string + nat" where
  "parse_digits acc [] = Inr acc"
| "parse_digits acc (c # cs) =
     (case digit_value c of
        None \<Rightarrow> Inl ''invalid digit found in string''
      | Some v \<Rightarrow>
          if acc * 10 + v \<ge> 2 ^ 64 then Inl ''number too large to fit in target type''
          else parse_digits (acc * 10 + v) cs)"

definition parse_usize :: "string \<Rightarrow> string + usize" where
  "parse_usize text =
     (if text = [] then Inl ''cannot parse integer from empty string''
      else if text = ''+'' then Inl ''invalid digit found in string''
      else map_sum id of_nat (parse_digits 0 (if hd text = CHR ''+'' then tl text else text)))"

definition next_value :: "string \<Rightarrow> string list \<Rightarrow> anyhow + (string \<times> string list)" where
  "next_value opt args =
     (case args of [] \<Rightarrow> Inl (AnyMsg (opt @ '' requires a value'')) | a # rest \<Rightarrow> Inr (a, rest))"

definition parse_value :: "string \<Rightarrow> string list \<Rightarrow> anyhow + (usize \<times> string list)" where
  "parse_value opt args =
     (case next_value opt args of
        Inl e \<Rightarrow> Inl e
      | Inr (a, rest) \<Rightarrow>
          (case parse_usize a of
             Inl e \<Rightarrow> Inl (AnyMsg (''invalid value for '' @ opt @ '': '' @ e))
           | Inr v \<Rightarrow> Inr (v, rest)))"

lemma parse_value_shorter: "parse_value opt args = Inr (v, rest) \<Longrightarrow> length rest < length args"
  by (auto simp: parse_value_def next_value_def split: list.splits sum.splits prod.splits)

lemma next_value_shorter: "next_value opt args = Inr (v, rest) \<Longrightarrow> length rest < length args"
  by (auto simp: next_value_def split: list.splits)

text \<open>The loop over the arguments; what \<open>--help\<close> prints is not modelled.\<close>

function parse_loop :: "config \<Rightarrow> string list \<Rightarrow> anyhow + config" where
  "parse_loop c args =
     (case args of
        [] \<Rightarrow> Inr c
      | arg # rest \<Rightarrow>
          if arg = ''--operations'' then
            (case parse_value arg rest of Inl e \<Rightarrow> Inl e
             | Inr (v, rest') \<Rightarrow> parse_loop (c\<lparr>operations := v\<rparr>) rest')
          else if arg = ''--concurrency'' then
            (case parse_value arg rest of Inl e \<Rightarrow> Inl e
             | Inr (v, rest') \<Rightarrow> parse_loop (c\<lparr>concurrency := v\<rparr>) rest')
          else if arg = ''--payload-bytes'' then
            (case parse_value arg rest of Inl e \<Rightarrow> Inl e
             | Inr (v, rest') \<Rightarrow> parse_loop (c\<lparr>payload_bytes := v\<rparr>) rest')
          else if arg = ''--server-bin'' then
            (case next_value arg rest of Inl e \<Rightarrow> Inl e
             | Inr (v, rest') \<Rightarrow> parse_loop (c\<lparr>server_bin := v\<rparr>) rest')
          else if arg = ''--keep-db'' then parse_loop (c\<lparr>keep_db := True\<rparr>) rest
          else if arg = ''--help'' \<or> arg = ''-h'' then Inl (AnyMsg ''help requested'')
          else Inl (AnyMsg (''unknown option: '' @ arg)))"
  by pat_completeness auto
termination
  by (relation "measure (\<lambda>(_, args). length args)")
    (auto dest: parse_value_shorter [OF sym] next_value_shorter [OF sym] parse_value_shorter next_value_shorter)

definition parse_args :: "string list \<Rightarrow> anyhow + config" where
  "parse_args args =
     (case parse_loop default_config args of
        Inl e \<Rightarrow> Inl e
      | Inr c \<Rightarrow>
          if operations c = 0 \<or> concurrency c = 0
          then Inl (AnyMsg ''--operations and --concurrency must both be greater than zero'')
          else Inr c)"

section \<open>Work and keys\<close>

definition workers :: "config \<Rightarrow> usize" where
  "workers c = min (concurrency c) (operations c)"

definition split_work :: "usize \<Rightarrow> usize \<Rightarrow> usize list" where
  "split_work ops ws =
     map (\<lambda>w. ops div ws + (if of_nat w < ops mod ws then 1 else 0)) [0..<unat ws]"

definition sequence_number :: "nat \<Rightarrow> nat \<Rightarrow> u64" where
  "sequence_number worker operation = or (push_bit 32 (of_nat worker)) (of_nat operation)"

definition signing_key :: "u64 \<Rightarrow> bytes" where
  "signing_key n = to_le_bytes n @ map (\<lambda>i. of_nat i * 37 + 11) [0..<24]"

section \<open>The business flow\<close>

text \<open>
  The signer: the verifying key of a seed and the signature over a message. The HTTP client: a request
  as the client composes it, answered or failed; and what only shows in error messages.
\<close>

record signer =
  verifying_key :: "bytes \<Rightarrow> bytes"
  sign :: "bytes \<Rightarrow> bytes \<Rightarrow> bytes"

datatype http_call =
    PostKeyPackage submit_key_package_request
  | GetKeyPackage string
  | PostAccount submit_account_request
  | GetAccount string

record client =
  send :: "http_call \<Rightarrow> (store, anyhow, response) eff"
  status_text :: "status_code \<Rightarrow> string"
  body_text :: "body \<Rightarrow> string"
  json_error :: anyhow
  base64_error :: anyhow
  signature_error :: anyhow

definition pub_hex :: "deps \<Rightarrow> signer \<Rightarrow> bytes \<Rightarrow> string" where
  "pub_hex d sg key = hex_encode d (verifying_key sg key)"

definition expect_status :: "client \<Rightarrow> status_code \<Rightarrow> string \<Rightarrow> response \<Rightarrow> anyhow + response" where
  "expect_status cl expected operation resp =
     (if resp_status resp \<noteq> expected
      then Inl (AnyMsg (operation @ '': expected '' @ status_text cl expected @ '', got '' @
             status_text cl (resp_status resp) @ '': '' @ body_text cl (resp_body resp)))
      else Inr resp)"

text \<open>The two shapes of \<open>.json()?\<close>, on a response whose body is the document itself.\<close>

definition json_bundle :: "client \<Rightarrow> response \<Rightarrow> anyhow + fetch_key_package_response" where
  "json_bundle cl resp = (case resp_body resp of KeyPackageBody b \<Rightarrow> Inr b | _ \<Rightarrow> Inl (json_error cl))"

definition json_account :: "client \<Rightarrow> response \<Rightarrow> anyhow + fetch_account_response" where
  "json_account cl resp = (case resp_body resp of AccountBody b \<Rightarrow> Inr b | _ \<Rightarrow> Inl (json_error cl))"

definition verify_response ::
  "client \<Rightarrow> deps \<Rightarrow> signer \<Rightarrow> bytes \<Rightarrow> fetch_key_package_response \<Rightarrow> bytes \<Rightarrow> anyhow + unit" where
  "verify_response cl d sg key resp expected_payload =
     (case b64_decode d (fkp_payload resp) of
        None \<Rightarrow> Inl (AnyContext ''response payload was not base64'' (base64_error cl))
      | Some payload \<Rightarrow>
     (case b64_decode d (fkp_signature resp) of
        None \<Rightarrow> Inl (AnyContext ''response signature was not base64'' (base64_error cl))
      | Some signature \<Rightarrow>
          if length signature \<noteq> 64 then Inl (AnyMsg ''response signature did not contain 64 bytes'')
          else if payload \<noteq> expected_payload
          then Inl (AnyMsg ''response payload did not match the published payload'')
          else if \<not> verify_strict d (verifying_key sg key) payload signature
          then Inl (AnyContext ''response signature verification failed'' (signature_error cl))
          else Inr ()))"

definition publish_account ::
  "client \<Rightarrow> deps \<Rightarrow> signer \<Rightarrow> bytes \<Rightarrow> string \<Rightarrow> bytes \<Rightarrow> status_code \<Rightarrow> (store, anyhow, unit) eff" where
  "publish_account cl d sg account_key account_pub payload expected =
     try_await (send cl (PostAccount
       \<lparr>acr_account_pub = account_pub, acr_payload = b64_encode d payload,
        acr_signature = b64_encode d (sign sg account_key payload)\<rparr>)) (\<lambda>resp.
     try_await (lift_result (expect_status cl expected ''publish account'' resp)) (\<lambda>_. ok ()))"

definition keypackage_bytes :: "u64 \<Rightarrow> nat \<Rightarrow> bytes" where
  "keypackage_bytes sequence padding = to_le_bytes sequence @ replicate padding (of_char CHR ''k'')"

definition exercise_business_flow ::
  "client \<Rightarrow> deps \<Rightarrow> signer \<Rightarrow> u64 \<Rightarrow> nat \<Rightarrow> (store, anyhow, unit) eff" where
  "exercise_business_flow cl d sg sequence padding =
     (let device_key = signing_key (sequence * 2);
          device_id = pub_hex d sg device_key;
          keypackage_payload = keypackage_bytes sequence padding;
          keypackage_signature = sign sg device_key keypackage_payload in
     try_await (send cl (PostKeyPackage
       \<lparr>kpr_device_id = device_id, kpr_payload = b64_encode d keypackage_payload,
        kpr_signature = b64_encode d keypackage_signature\<rparr>)) (\<lambda>resp.
     try_await (lift_result (expect_status cl NO_CONTENT ''publish keypackage'' resp)) (\<lambda>_.
     try_await (send cl (GetKeyPackage device_id)) (\<lambda>resp.
     try_await (lift_result (expect_status cl OK ''fetch keypackage'' resp)) (\<lambda>resp.
     try_await (lift_result (json_bundle cl resp)) (\<lambda>keypackage.
     try_await (lift_result (verify_response cl d sg device_key keypackage keypackage_payload)) (\<lambda>_.
     let account_key = signing_key (sequence * 2 + 1);
         account_pub = pub_hex d sg account_key;
         first_payload = account_payload 1 padding in
     try_await (publish_account cl d sg account_key account_pub first_payload NO_CONTENT) (\<lambda>_.
     try_await (send cl (GetAccount account_pub)) (\<lambda>resp.
     try_await (lift_result (expect_status cl OK ''fetch account'' resp)) (\<lambda>resp.
     try_await (lift_result (json_account cl resp)) (\<lambda>account.
     if fac_updated_at account \<le> 0
     then fail (AnyMsg ''fetch account: server returned a non-positive updated_at'')
     else
     try_await (lift_result (verify_response cl d sg account_key
       \<lparr>fkp_payload = fac_payload account, fkp_signature = fac_signature account\<rparr> first_payload)) (\<lambda>_.
     try_await (publish_account cl d sg account_key account_pub first_payload CONFLICT) (\<lambda>_.
     let second_payload = account_payload 2 padding in
     try_await (publish_account cl d sg account_key account_pub second_payload NO_CONTENT) (\<lambda>_.
     try_await (send cl (GetAccount account_pub)) (\<lambda>resp.
     try_await (lift_result (expect_status cl OK ''fetch updated account'' resp)) (\<lambda>resp.
     try_await (lift_result (json_account cl resp)) (\<lambda>updated_account.
     lift_result (verify_response cl d sg account_key
       \<lparr>fkp_payload = fac_payload updated_account, fkp_signature = fac_signature updated_account\<rparr>
       second_payload))))))))))))))))))"

definition check_error_paths :: "client \<Rightarrow> (store, anyhow, unit) eff" where
  "check_error_paths cl =
     try_await (send cl (GetKeyPackage (replicate 64 CHR ''0''))) (\<lambda>resp.
     try_await (lift_result (expect_status cl NOT_FOUND ''fetch unknown keypackage'' resp)) (\<lambda>_.
     try_await (send cl (GetAccount (replicate 64 CHR ''0''))) (\<lambda>resp.
     try_await (lift_result (expect_status cl NOT_FOUND ''fetch unknown account'' resp)) (\<lambda>_.
     try_await (send cl (PostKeyPackage
       \<lparr>kpr_device_id = ''not-a-key'', kpr_payload = ''bad'', kpr_signature = ''bad''\<rparr>)) (\<lambda>resp.
     try_await (lift_result (expect_status cl BAD_REQUEST ''reject malformed keypackage'' resp)) (\<lambda>_.
     ok ()))))))"

section \<open>The client against the service\<close>

text \<open>
  The loopback connection of the benchmark: a call reaches its handler \<open>dt\<close> nanoseconds after the
  last one, and the database does not fail.
\<close>

definition loopback_send ::
  "deps \<Rightarrow> ('a, 's, 'r) account_log_api \<Rightarrow> int \<Rightarrow> http_call \<Rightarrow> (store, anyhow, response) eff" where
  "loopback_send d api dt call s =
     (let t = at_instant (clock s + dt, []) s;
          answered = (\<lambda>(resp, u). (Inr resp, u)) in
      case call of
        PostKeyPackage req \<Rightarrow> answered (respond status_only (submit_key_package d api req) t)
      | GetKeyPackage dev \<Rightarrow>
          answered (respond (\<lambda>b. \<lparr>resp_status = OK, resp_headers = [], resp_body = KeyPackageBody b\<rparr>)
            (fetch_key_package d dev) t)
      | PostAccount req \<Rightarrow> answered (respond status_only (submit_account_v0 d api req) t)
      | GetAccount acct \<Rightarrow>
          answered (respond (\<lambda>b. \<lparr>resp_status = OK, resp_headers = [], resp_body = AccountBody b\<rparr>)
            (fetch_account_v0 d acct) t))"

definition connected :: "client \<Rightarrow> deps \<Rightarrow> ('a, 's, 'r) account_log_api \<Rightarrow> int \<Rightarrow> bool" where
  "connected cl d api dt \<longleftrightarrow> send cl = loopback_send d api dt"

definition signer_laws :: "deps \<Rightarrow> signer \<Rightarrow> bool" where
  "signer_laws d sg \<longleftrightarrow>
     (\<forall>seed. length (verifying_key sg seed) = 32) \<and>
     (\<forall>seed m. length (sign sg seed m) = 64 \<and> authentic d (verifying_key sg seed) m (sign sg seed m))"

text \<open>The calls of the flow, answered.\<close>

locale loopback =
  fixes cl :: client and d :: deps and sg :: signer and api :: "('a, 's, 'r) account_log_api" and dt :: int
  assumes connected: "connected cl d api dt" and hex: "hex_laws d" and base64: "base64_laws d"
    and signer: "signer_laws d sg"
begin

definition later :: "store \<Rightarrow> store" where
  "later s = at_instant (clock s + dt, []) s"

lemma later_simps [simp]: "pool (later s) = pool s" "clock (later s) = clock s + dt" "quiet (later s)"
  by (simp_all add: later_def)

lemma signed [simp]:
  "length (verifying_key sg seed) = 32" "length (sign sg seed m) = 64"
  "authentic d (verifying_key sg seed) m (sign sg seed m)"
  using signer by (simp_all add: signer_laws_def)

lemma decoded:
  "decode_bundle d (pub_hex d sg key) (b64_encode d p) (b64_encode d (sign sg key p)) =
     Inr \<lparr>bkey = verifying_key sg key, bpayload = p, bsignature = sign sg key p\<rparr>"
  unfolding pub_hex_def by (rule decode_bundle_encoded [OF hex base64]) simp_all

lemma verified [simp]:
  "verify d \<lparr>bkey = verifying_key sg key, bpayload = p, bsignature = sign sg key p\<rparr> = Inr ()"
  by (simp add: verify_Inr_iff)

lemma response_verifies:
  "verify_response cl d sg key \<lparr>fkp_payload = b64_encode d p, fkp_signature = b64_encode d (sign sg key p)\<rparr> p = Inr ()"
  using signed(3) [of key p] base64 by (simp add: verify_response_def base64_lawsD authentic_def)

definition account_post :: "bytes \<Rightarrow> bytes \<Rightarrow> http_call" where
  "account_post key p = PostAccount \<lparr>acr_account_pub = pub_hex d sg key, acr_payload = b64_encode d p,
     acr_signature = b64_encode d (sign sg key p)\<rparr>"

lemma post_account_stored:
  assumes "payload_lamport p = Some l" and "\<not> holds_lamport (pub_hex d sg key) l (pool s)"
  shows "send cl (account_post key p) s = (Inr (status_only NO_CONTENT), (later s)\<lparr>pool :=
     sql_upsert_account (pub_hex d sg key) (stamp_ms (clock s + dt)) p (sign sg key p) (pool s)\<rparr>)"
  using assms connected
  by (simp add: account_post_def connected_def loopback_send_def respond_def submit_account_v0_run decode_account_def
      decoded apply_account_quiet key_hex_def pub_hex_def [symmetric] flip: later_def)

lemma post_account_stale:
  assumes "payload_lamport p = Some l" and "holds_lamport (pub_hex d sg key) l (pool s)"
  shows "send cl (account_post key p) s = (Inr (into_response (api_error_from d api Stale)), later s)"
  using assms connected
  by (simp add: account_post_def connected_def loopback_send_def respond_def submit_account_v0_run decode_account_def
      decoded apply_account_quiet key_hex_def pub_hex_def [symmetric] flip: later_def)

lemma stale_status: "resp_status (into_response (api_error_from d api Stale)) = CONFLICT"
  by (simp add: into_response_def api_error_from_def)

lemma publish_stored:
  assumes "payload_lamport p = Some l" and "\<not> holds_lamport (pub_hex d sg key) l (pool s)"
  shows "publish_account cl d sg key (pub_hex d sg key) p NO_CONTENT s =
     (Inr (), (later s)\<lparr>pool := sql_upsert_account (pub_hex d sg key) (stamp_ms (clock s + dt)) p (sign sg key p) (pool s)\<rparr>)"
  using post_account_stored [OF assms]
  by (simp add: publish_account_def account_post_def expect_status_def status_only_def eff_simps try_await_def)

lemma publish_stale:
  assumes "payload_lamport p = Some l" and "holds_lamport (pub_hex d sg key) l (pool s)"
  shows "publish_account cl d sg key (pub_hex d sg key) p CONFLICT s = (Inr (), later s)"
  using post_account_stale [OF assms] stale_status
  by (simp add: publish_account_def account_post_def expect_status_def eff_simps try_await_def)

lemma get_account_found:
  assumes "sql_select_account k (pool s) = Some r"
  shows "send cl (GetAccount k) s =
     (Inr \<lparr>resp_status = OK, resp_headers = [], resp_body = AccountBody
        \<lparr>fac_payload = b64_encode d (ab_payload r), fac_signature = b64_encode d (ab_signature r),
         fac_updated_at = ab_updated_at r\<rparr>\<rparr>, later s)"
  using assms connected
  by (simp add: connected_def loopback_send_def respond_def fetch_account_v0_quiet flip: later_def)

lemma post_keypackage_stored:
  assumes "sql_insert_keypackage (pub_hex d sg key) (stamp_ms (clock s + dt)) p (sign sg key p) (pool s) = Some db"
  shows "send cl (PostKeyPackage \<lparr>kpr_device_id = pub_hex d sg key, kpr_payload = b64_encode d p,
        kpr_signature = b64_encode d (sign sg key p)\<rparr>) s = (Inr (status_only NO_CONTENT), (later s)\<lparr>pool := db\<rparr>)"
  using assms connected
  by (simp add: connected_def loopback_send_def respond_def submit_key_package_run decode_key_package_def
      decoded apply_keypackage_quiet key_hex_def pub_hex_def [symmetric] flip: later_def)

lemma get_keypackage_found:
  assumes "sql_latest_keypackage k (pool s) = Some r"
  shows "send cl (GetKeyPackage k) s =
     (Inr \<lparr>resp_status = OK, resp_headers = [], resp_body = KeyPackageBody
        \<lparr>fkp_payload = b64_encode d (kp_payload r), fkp_signature = b64_encode d (kp_signature r)\<rparr>\<rparr>, later s)"
  using assms connected
  by (simp add: connected_def loopback_send_def respond_def fetch_key_package_quiet flip: later_def)

lemma flow_succeeds:
  assumes "store_wf s"
    and "\<forall>r \<in> set (keypackages (pool s)). kp_device_id r = pub_hex d sg (signing_key (n * 2)) \<longrightarrow>
           kp_received_at r < stamp_ms (clock s + dt)"
    and "\<not> holds_lamport (pub_hex d sg (signing_key (n * 2 + 1))) 1 (pool s)"
    and "0 < stamp_ms (clock s + dt + dt + dt)"
  obtains t where "exercise_business_flow cl d sg n padding s = (Inr (), t)"
    and "account_cell t (pub_hex d sg (signing_key (n * 2 + 1))) =
      Some (account_payload 2 padding, sign sg (signing_key (n * 2 + 1)) (account_payload 2 padding))"
proof -
  let ?dev = "signing_key (n * 2)" and ?acc = "signing_key (n * 2 + 1)"
  let ?kp = "keypackage_bytes n padding"
  let ?k = "pub_hex d sg ?acc" and ?p1 = "account_payload 1 padding" and ?p2 = "account_payload 2 padding"
  obtain db r where ins: "sql_insert_keypackage (pub_hex d sg ?dev) (stamp_ms (clock s + dt)) ?kp (sign sg ?dev ?kp) (pool s) = Some db"
    and row: "sql_latest_keypackage (pub_hex d sg ?dev) db = Some r" "kp_payload r = ?kp" "kp_signature r = sign sg ?dev ?kp"
    by (rule insert_latest [OF assms(1,2)])
  have accounts: "account_bundles db = account_bundles (pool s)"
    using ins by (auto simp: sql_insert_keypackage_def split: if_splits)
  define s2 where "s2 = later ((later s)\<lparr>pool := db\<rparr>)"
  have fresh: "\<not> holds_lamport ?k 1 (pool s2)"
    using assms(3) accounts by (simp add: s2_def holds_lamport_def sql_select_account_def)
  define s3 where "s3 = (later s2)\<lparr>pool := sql_upsert_account ?k (stamp_ms (clock s2 + dt)) ?p1 (sign sg ?acc ?p1) (pool s2)\<rparr>"
  note first = publish_stored [OF payload_lamport_account_payload fresh, of padding, folded s3_def]
  have row3: "sql_select_account ?k (pool s3) = Some \<lparr>ab_account_pub = ?k, ab_updated_at = stamp_ms (clock s2 + dt),
      ab_payload = ?p1, ab_signature = sign sg ?acc ?p1\<rparr>" by (simp add: s3_def)
  have stale: "holds_lamport ?k 1 (pool (later s3))" by (simp add: s3_def)
  have newer: "\<not> holds_lamport ?k 2 (pool (later (later s3)))" by (simp add: s3_def word_le_nat_alt)
  define s6 where "s6 = (later (later (later s3)))\<lparr>pool := sql_upsert_account ?k (stamp_ms (clock (later (later s3)) + dt)) ?p2
      (sign sg ?acc ?p2) (pool (later (later s3)))\<rparr>"
  note second = publish_stored [OF payload_lamport_account_payload newer, of padding, folded s6_def]
  have row6: "sql_select_account ?k (pool s6) = Some \<lparr>ab_account_pub = ?k,
      ab_updated_at = stamp_ms (clock (later (later s3)) + dt), ab_payload = ?p2, ab_signature = sign sg ?acc ?p2\<rparr>"
    by (simp add: s6_def)
  have positive: "0 < stamp_ms (clock s2 + dt)" using assms(4) by (simp add: s2_def)
  have "exercise_business_flow cl d sg n padding s = (Inr (), later s6)"
    using positive row(2,3)
    by (simp add: exercise_business_flow_def Let_def try_await_def lift_result_def post_keypackage_stored [OF ins]
        get_keypackage_found [of _ "(later s)\<lparr>pool := db\<rparr>", simplified, OF row(1)] s2_def [symmetric] first
        get_account_found [OF row3] publish_stale [OF payload_lamport_account_payload stale] second
        get_account_found [OF row6] expect_status_def status_only_def json_bundle_def json_account_def response_verifies)
  moreover have "account_cell (later s6) ?k = Some (?p2, sign sg ?acc ?p2)" by (simp add: account_cell_def row6)
  ultimately show thesis by (rule that)
qed

end

section \<open>Lemmas\<close>

lemma unat_sequence_number:
  assumes "w < 2 ^ 31" and "n < 2 ^ 32"
  shows "unat (sequence_number w n) = w * 2 ^ 32 + n"
proof -
  have "\<not> bit (of_nat n :: u64) i" if "32 \<le> i" for i
  proof -
    have "n < 2 ^ i" using assms(2) power_increasing [OF that, of "2 :: nat"] by simp
    then have "\<not> bit n i" by (simp add: bit_iff_odd)
    then show ?thesis by (simp add: bit_simps)
  qed
  then have "and (push_bit 32 (of_nat w)) (of_nat n) = (0 :: u64)"
    by (intro bit_eqI) (auto simp: bit_and_iff bit_push_bit_iff)
  then have "sequence_number w n = push_bit 32 (of_nat w) + of_nat n"
    by (simp add: sequence_number_def disjunctive_add_eq_or)
  also have "\<dots> = of_nat (w * 2 ^ 32 + n)" by (simp add: push_bit_eq_mult mult.commute)
  finally show ?thesis using assms by (simp only: unat_of_nat) (simp add: take_bit_nat_eq_self)
qed

lemma signing_key_inject: "signing_key a = signing_key b \<longleftrightarrow> a = b"
  by (auto simp: signing_key_def) (metis from_to_le_bytes)

text \<open>
  No two operations of a run share a key: with at most \<open>2 ^ 31\<close> workers and \<open>2 ^ 32\<close> operations each, the
  device and account seeds of all operations are pairwise distinct.
\<close>

lemma signing_keys_distinct:
  assumes "w < 2 ^ 31" and "w' < 2 ^ 31" and "n < 2 ^ 32" and "n' < 2 ^ 32"
  shows "(signing_key (sequence_number w n * 2) = signing_key (sequence_number w' n' * 2) \<longleftrightarrow> w = w' \<and> n = n') \<and>
     (signing_key (sequence_number w n * 2 + 1) = signing_key (sequence_number w' n' * 2 + 1) \<longleftrightarrow> w = w' \<and> n = n') \<and>
     signing_key (sequence_number w n * 2) \<noteq> signing_key (sequence_number w' n' * 2 + 1)"
proof -
  have double: "unat (sequence_number v m * 2) = (v * 2 ^ 32 + m) * 2"
    "unat (sequence_number v m * 2 + 1) = (v * 2 ^ 32 + m) * 2 + 1" if "v < 2 ^ 31" "m < 2 ^ 32" for v m
  proof -
    have "(v * 2 ^ 32 + m) * 2 + 1 < 2 ^ 64" using that by simp
    then show "unat (sequence_number v m * 2) = (v * 2 ^ 32 + m) * 2"
      "unat (sequence_number v m * 2 + 1) = (v * 2 ^ 32 + m) * 2 + 1"
      using unat_sequence_number [OF that] by (simp_all add: unat_word_ariths)
  qed
  have split: "v * 2 ^ 32 + m = v' * 2 ^ 32 + m' \<longleftrightarrow> v = v' \<and> m = m'" if "m < 2 ^ 32" "m' < 2 ^ 32" for v v' m m' :: nat
  proof
    assume eq: "v * 2 ^ 32 + m = v' * 2 ^ 32 + m'"
    have "(v * 2 ^ 32 + m) mod 2 ^ 32 = m" "(v' * 2 ^ 32 + m') mod 2 ^ 32 = m'" using that by simp_all
    with eq have "m = m'" by metis
    with eq show "v = v' \<and> m = m'" by simp
  qed simp
  note eqs = double [OF assms(1,3)] double [OF assms(2,4)] split [OF assms(3,4), of w w']
  show ?thesis unfolding signing_key_inject
    using eqs by (auto simp: word_unat_eq_iff)
qed

lemma sum_list_indicator: "sum_list (map (\<lambda>w. a + (if w < b then 1 else 0)) [0..<n]) = n * a + min n (b :: nat)"
  by (induction n) (auto simp: min_def)

lemma unat_split_work:
  assumes "0 < unat ws"
  shows "map unat (split_work ops ws) =
     map (\<lambda>w. unat ops div unat ws + (if w < unat ops mod unat ws then 1 else 0)) [0..<unat ws]"
proof -
  have "unat (ops div ws + (if of_nat w < ops mod ws then 1 else 0)) =
      unat ops div unat ws + (if w < unat ops mod unat ws then 1 else 0)" if "w < unat ws" for w
  proof -
    have "unat (of_nat w :: u64) = w"
      using that unsigned_less [of ws, where 'a = nat] by (simp add: unat_of_nat take_bit_nat_eq_self)
    then have less: "of_nat w < ops mod ws \<longleftrightarrow> w < unat ops mod unat ws"
      by (simp add: word_less_nat_alt unat_mod)
    have "unat ops div unat ws + 1 \<le> unat ops" if "w < unat ops mod unat ws"
    proof -
      have "unat ops mod unat ws \<le> unat ops - unat ops div unat ws * unat ws" by (simp add: minus_div_mult_eq_mod)
      moreover have "unat ops div unat ws \<le> unat ops div unat ws * unat ws" using assms by simp
      ultimately show ?thesis using that div_mult_mod_eq [of "unat ops" "unat ws"] by linarith
    qed
    then have "unat ops div unat ws + 1 < 2 ^ 64" if "w < unat ops mod unat ws"
      using that unsigned_less [of ops, where 'a = nat] by simp
    moreover have "unat ops div unat ws < 2 ^ 64"
      by (rule le_less_trans [OF div_le_dividend]) (use unsigned_less [of ops, where 'a = nat] in simp)
    ultimately show ?thesis unfolding less
      by (auto simp: unat_word_ariths unat_div)
  qed
  then show ?thesis by (simp add: split_work_def)
qed

text \<open>
  The work of an accepted configuration is split exactly: there is at least one worker and no more
  than asked for, each gets at least one operation, and the shares add up to the operations asked for.
\<close>

lemma work_is_split:
  assumes "parse_args args = Inr c"
  shows "0 < unat (workers c)" and "unat (workers c) \<le> unat (concurrency c)"
    and "length (split_work (operations c) (workers c)) = unat (workers c)"
    and "share \<in> set (split_work (operations c) (workers c)) \<Longrightarrow> 0 < unat share"
    and "sum_list (map unat (split_work (operations c) (workers c))) = unat (operations c)"
proof -
  have pos: "0 < unat (operations c)" "0 < unat (concurrency c)"
    using assms by (auto simp: parse_args_def unat_gt_0 split: sum.splits if_splits)
  show ws: "0 < unat (workers c)" "unat (workers c) \<le> unat (concurrency c)"
    and "length (split_work (operations c) (workers c)) = unat (workers c)"
    using pos by (auto simp: workers_def min_def split_work_def word_le_nat_alt split: if_splits)
  have le: "unat (workers c) \<le> unat (operations c)"
    using pos by (auto simp: workers_def min_def word_le_nat_alt split: if_splits)
  note shares = unat_split_work [OF ws(1), of "operations c"]
  have "0 < unat (operations c) div unat (workers c)" using ws le by (simp add: div_greater_zero_iff)
  then have "\<forall>share \<in> set (map unat (split_work (operations c) (workers c))). 0 < share" unfolding shares by auto
  then show "share \<in> set (split_work (operations c) (workers c)) \<Longrightarrow> 0 < unat share" by simp
  show "sum_list (map unat (split_work (operations c) (workers c))) = unat (operations c)"
    unfolding shares sum_list_indicator using mod_less_divisor [OF ws(1), of "unat (operations c)"]
    by (simp add: min_def)
qed

section \<open>Properties\<close>

text \<open>A client connected to the service of the closed examples, with a signer whose keys are its seeds.\<close>

definition sample_signer :: signer where
  "sample_signer =
     \<lparr>verifying_key = (\<lambda>seed. take 32 (seed @ replicate 32 0)),
      sign = (\<lambda>seed m. sample_sign (take 32 (seed @ replicate 32 0)) m)\<rparr>"

definition sample_client :: "int \<Rightarrow> client" where
  "sample_client dt =
     \<lparr>send = loopback_send sample_deps sample_log dt, status_text = (\<lambda>_. ''status''), body_text = (\<lambda>_. ''body''),
      json_error = AnyMsg ''json'', base64_error = AnyMsg ''base64'', signature_error = AnyMsg ''signature''\<rparr>"

lemma sample_signer_laws: "signer_laws sample_deps sample_signer"
proof -
  have "length (take 32 (seed @ replicate 32 (0 :: u8))) = 32" for seed by simp
  then show ?thesis
    by (simp only: signer_laws_def sample_signer_def sample_deps_def authentic_def signer.simps deps.simps
        length_sample_sign) simp
qed

interpretation sample_loopback: loopback "sample_client dt" sample_deps sample_signer sample_log dt for dt
  by unfold_locales
    (simp_all add: connected_def sample_client_def sample_hex_laws sample_base64_laws sample_signer_laws)

text \<open>
  The business flow of the benchmark succeeds against the service: from any store without rows
  of the two keys, with a clock past the epoch and requests at any pace, the keypackage is published,
  fetched and verified, the account bundle likewise, its replay is refused with 409, and the bundle
  with the next lamport is accepted, fetched and verified; it is what the store then holds.
\<close>

lemma benchmark_flow_succeeds:
  assumes "connected cl d api dt" and "hex_laws d" and "base64_laws d" and "signer_laws d sg"
    and "store_wf s" and "0 < stamp_ms (clock s + dt + dt + dt)"
    and "\<forall>r \<in> set (keypackages (pool s)). kp_device_id r \<noteq> pub_hex d sg (signing_key (n * 2))"
    and "sql_select_account (pub_hex d sg (signing_key (n * 2 + 1))) (pool s) = None"
  shows "\<exists>t. exercise_business_flow cl d sg n padding s = (Inr (), t) \<and>
     account_cell t (pub_hex d sg (signing_key (n * 2 + 1))) =
       Some (account_payload 2 padding, sign sg (signing_key (n * 2 + 1)) (account_payload 2 padding))"
proof -
  have loop: "loopback cl d sg api dt" using assms(1-4) by (rule loopback.intro)
  have "\<not> holds_lamport (pub_hex d sg (signing_key (n * 2 + 1))) 1 (pool s)"
    using assms(8) by (simp add: holds_lamport_def)
  then show ?thesis using loopback.flow_succeeds [OF loop assms(5) _ _ assms(6)] assms(7) by blast
qed

text \<open>
  The error paths the benchmark checks first are answered as it expects, on every store that has no
  row under the all-zero identifier: unknown resources with 404 and a malformed submission with 400. The
  check changes no table.
\<close>

lemma benchmark_error_paths_pass:
  assumes "connected cl d api dt" and "hex_decode d ''not-a-key'' = None"
    and "\<forall>r \<in> set (keypackages (pool s)). kp_device_id r \<noteq> replicate 64 CHR ''0''"
    and "sql_select_account (replicate 64 CHR ''0'') (pool s) = None"
  shows "\<exists>t. check_error_paths cl s = (Inr (), t) \<and> pool t = pool s"
proof -
  have none: "sql_latest_keypackage (replicate 64 CHR ''0'') (pool s) = None"
    using assms(3) by (simp add: latest_keypackage_None)
  show ?thesis
    using assms(1,2,4) none
    by (simp add: check_error_paths_def connected_def loopback_send_def respond_def fetch_key_package_quiet
        fetch_account_v0_quiet submit_key_package_run decode_key_package_def decode_bundle_def into_response_def
        not_found_def api_error_from_def expect_status_def try_await_def lift_result_def ok_def Let_def)
qed

end
