(* ===== verification/Interference.thy ===== *)
theory Interference
  imports Prelude
begin

text \<open>
  Clients that share one server. A client is the tree of its requests: what it asks next depends on the
  answers so far. Several of them run in threads, and the server answers their requests one by one in
  any order. Locale \<open>shared_state\<close> states what such clients rely on and guarantee: each has a set of
  keys of its own, relies on the others to leave what is stored under them alone, and touches nothing
  else. Its main lemma is that clients which succeed under such interference all succeed in every
  interleaving, after exactly as many requests as they make alone.
\<close>

section \<open>Clients and threads\<close>

datatype ('c, 'r, 'e, 'a) requests = Return "'e + 'a" | Request 'c "'r \<Rightarrow> ('c, 'r, 'e, 'a) requests"

text \<open>\<open>and_then p f\<close> is \<open>let x = p?; f(x)\<close>.\<close>

primrec and_then ::
  "('c, 'r, 'e, 'a) requests \<Rightarrow> ('a \<Rightarrow> ('c, 'r, 'e, 'b) requests) \<Rightarrow> ('c, 'r, 'e, 'b) requests" where
  "and_then (Return r) f = (case r of Inl e \<Rightarrow> Return (Inl e) | Inr x \<Rightarrow> f x)"
| "and_then (Request c k) f = Request c (\<lambda>resp. and_then (k resp) f)"

text \<open>A client run alone, against a server that answers or fails.\<close>

primrec run_requests :: "('c \<Rightarrow> ('s, 'e, 'r) eff) \<Rightarrow> ('c, 'r, 'e, 'a) requests \<Rightarrow> ('s, 'e, 'a) eff" where
  "run_requests srv (Return r) = lift_result r"
| "run_requests srv (Request c k) = try_await (srv c) (\<lambda>resp. run_requests srv (k resp))"

text \<open>
  Threads: in each step one thread's request is answered, under circumstances \<open>i\<close> (the instant, say)
  that satisfy \<open>fine\<close>; a failed request ends the thread with its error.
\<close>

inductive thread_step ::
  "('c \<Rightarrow> 'i \<Rightarrow> ('s, 'e, 'r) eff) \<Rightarrow> ('i \<Rightarrow> bool) \<Rightarrow>
   's \<times> ('c, 'r, 'e, 'a) requests list \<Rightarrow> 's \<times> ('c, 'r, 'e, 'a) requests list \<Rightarrow> bool"
  for srv fine where
  answered: "n < length ps \<Longrightarrow> ps ! n = Request c k \<Longrightarrow> fine i \<Longrightarrow> srv c i s = (Inr resp, t) \<Longrightarrow>
    thread_step srv fine (s, ps) (t, ps[n := k resp])"
| failed: "n < length ps \<Longrightarrow> ps ! n = Request c k \<Longrightarrow> fine i \<Longrightarrow> srv c i s = (Inl e, t) \<Longrightarrow>
    thread_step srv fine (s, ps) (t, ps[n := Return (Inl e)])"

lemma run_and_then: "run_requests srv (and_then p f) = try_await (run_requests srv p) (\<lambda>x. run_requests srv (f x))"
proof (induction p)
  case (Return r)
  then show ?case by (auto simp: fun_eq_iff try_await_def lift_result_def split: sum.splits)
next
  case (Request c k)
  then show ?case by (simp add: try_await_assoc)
qed

section \<open>Rely and guarantee\<close>

locale shared_state =
  fixes srv :: "'c \<Rightarrow> 'i \<Rightarrow> ('s, 'e, 'r) eff" and fine :: "'i \<Rightarrow> bool"
    and agree :: "'k set \<Rightarrow> 's \<Rightarrow> 's \<Rightarrow> bool" and inv :: "'s \<Rightarrow> bool"
  assumes agree_refl: "agree K s s"
    and agree_trans: "agree K s t \<Longrightarrow> agree K t u \<Longrightarrow> agree K s u"
    and agree_mono: "agree K' s t \<Longrightarrow> K \<subseteq> K' \<Longrightarrow> agree K s t"
    and some_fine: "\<exists>i. fine i"
begin

text \<open>
  The client succeeds with \<open>x\<close> after \<open>n\<close> requests, whatever others do to the keys outside \<open>K\<close> in between,
  and itself changes nothing outside \<open>K\<close>.
\<close>

primrec succeeds :: "'k set \<Rightarrow> nat \<Rightarrow> 'a \<Rightarrow> ('c, 'r, 'e, 'a) requests \<Rightarrow> 's \<Rightarrow> bool" where
  "succeeds K 0 x p s = (p = Return (Inr x))"
| "succeeds K (Suc n) x p s =
     (\<exists>c k. p = Request c k \<and>
        (\<forall>i t. agree K s t \<and> inv t \<and> fine i \<longrightarrow>
           (\<exists>resp u. srv c i t = (Inr resp, u) \<and> agree (- K) t u \<and> inv u \<and> succeeds K n x (k resp) u)))"

lemma succeedsI:
  assumes "\<And>i t. agree K s t \<Longrightarrow> inv t \<Longrightarrow> fine i \<Longrightarrow>
     \<exists>resp u. srv c i t = (Inr resp, u) \<and> agree (- K) t u \<and> inv u \<and> succeeds K n x (k resp) u"
  shows "succeeds K (Suc n) x (Request c k) s"
  using assms by simp

lemma succeeds_stable: "succeeds K n x p s \<Longrightarrow> agree K s t \<Longrightarrow> succeeds K n x p t"
proof (cases n)
  case (Suc m)
  assume "succeeds K n x p s" and "agree K s t"
  then obtain c k where p: "p = Request c k" and go: "\<And>i u. agree K s u \<Longrightarrow> inv u \<Longrightarrow> fine i \<Longrightarrow>
      \<exists>resp v. srv c i u = (Inr resp, v) \<and> agree (- K) u v \<and> inv v \<and> succeeds K m x (k resp) v"
    unfolding Suc succeeds.simps by blast
  show ?thesis unfolding Suc p by (rule succeedsI) (rule go [OF agree_trans [OF \<open>agree K s t\<close>]])
qed simp

lemma succeeds_mono: "succeeds K n x p s \<Longrightarrow> K \<subseteq> K' \<Longrightarrow> succeeds K' n x p s"
proof (induction n arbitrary: p s)
  case (Suc n)
  from Suc.prems(1) obtain c k where p: "p = Request c k"
    and go: "agree K s t \<Longrightarrow> inv t \<Longrightarrow> fine i \<Longrightarrow>
       \<exists>resp u. srv c i t = (Inr resp, u) \<and> agree (- K) t u \<and> inv u \<and> succeeds K n x (k resp) u" for i t
    by auto
  show ?case unfolding p
  proof (rule succeedsI)
    fix i t assume "agree K' s t" and "inv t" and "fine i"
    from go [OF agree_mono [OF this(1) Suc.prems(2)] this(2,3)]
    show "\<exists>resp u. srv c i t = (Inr resp, u) \<and> agree (- K') t u \<and> inv u \<and> succeeds K' n x (k resp) u"
      using Suc.IH [OF _ Suc.prems(2)] agree_mono Suc.prems(2) by (metis Compl_subset_Compl_iff)
  qed
qed simp

text \<open>One client after another, on keys that do not overlap.\<close>

lemma succeeds_and_then:
  assumes "succeeds K n x p s" and "K \<inter> K' = {}" and "\<And>t. agree K' s t \<Longrightarrow> succeeds K' m y (f x) t"
  shows "succeeds (K \<union> K') (n + m) y (and_then p f) s"
  using assms(1,3)
proof (induction n arbitrary: p s)
  case 0
  have "succeeds (K \<union> K') m y (f x) s" by (rule succeeds_mono [OF 0(2) [OF agree_refl]]) simp
  then show ?case using 0(1) by simp
next
  case (Suc n)
  from Suc.prems(1) obtain c k where p: "p = Request c k"
    and go: "agree K s t \<Longrightarrow> inv t \<Longrightarrow> fine i \<Longrightarrow>
       \<exists>resp u. srv c i t = (Inr resp, u) \<and> agree (- K) t u \<and> inv u \<and> succeeds K n x (k resp) u" for i t
    by auto
  show ?case unfolding p and_then.simps add_Suc
  proof (rule succeedsI)
    fix i t assume t: "agree (K \<union> K') s t" "inv t" "fine i"
    have parts: "agree K s t" "agree K' s t" by (rule agree_mono [OF t(1)], simp)+
    from go [OF parts(1) t(2,3)] obtain resp u where u: "srv c i t = (Inr resp, u)"
      "agree (- K) t u" "inv u" "succeeds K n x (k resp) u" by blast
    have "agree K' t u" by (rule agree_mono [OF u(2)]) (use assms(2) in blast)
    with parts(2) have "agree K' s u" by (rule agree_trans)
    then have "succeeds (K \<union> K') (n + m) y (and_then (k resp) f) u"
      using Suc.IH [OF u(4)] Suc.prems(2) agree_trans by blast
    moreover have "agree (- (K \<union> K')) t u" by (rule agree_mono [OF u(2)]) blast
    ultimately show "\<exists>resp u. srv c i t = (Inr resp, u) \<and> agree (- (K \<union> K')) t u \<and> inv u \<and>
        succeeds (K \<union> K') (n + m) y (and_then (k resp) f) u"
      using u(1,3) by blast
  qed
qed

section \<open>Every interleaving\<close>

definition threads_ok ::
  "(nat \<Rightarrow> 'k set) \<Rightarrow> (nat \<Rightarrow> 'a) \<Rightarrow> (nat \<Rightarrow> nat) \<Rightarrow> 's \<times> ('c, 'r, 'e, 'a) requests list \<Rightarrow> bool" where
  "threads_ok K x left r \<longleftrightarrow>
     inv (fst r) \<and> (\<forall>n < length (snd r). succeeds (K n) (left n) (x n) (snd r ! n) (fst r))"

lemma threads_step:
  assumes "thread_step srv fine (s, ps) (t, qs)" and "threads_ok K x left (s, ps)"
    and "\<And>m n. m \<noteq> n \<Longrightarrow> K m \<inter> K n = {}"
  shows "\<exists>m left'. m < length ps \<and> left m = Suc (left' m) \<and> (\<forall>n. n \<noteq> m \<longrightarrow> left' n = left n) \<and>
     length qs = length ps \<and> threads_ok K x left' (t, qs)"
proof -
  obtain m c k i r where m: "m < length ps" "ps ! m = Request c k" "fine i" "srv c i s = (r, t)"
    and qs: "qs = ps[m := case r of Inl e \<Rightarrow> Return (Inl e) | Inr resp \<Rightarrow> k resp]"
    using assms(1) by (cases rule: thread_step.cases) auto
  from assms(2) have inv: "inv s" and all: "\<And>n. n < length ps \<Longrightarrow> succeeds (K n) (left n) (x n) (ps ! n) s"
    by (simp_all add: threads_ok_def)
  from all [OF m(1)] obtain j where j: "left m = Suc j" by (cases "left m") (auto simp: m(2))
  with all [OF m(1)] m inv agree_refl obtain resp where r: "r = Inr resp" and own: "agree (- K m) s t" "inv t"
    "succeeds (K m) j (x m) (k resp) t" by fastforce
  have "succeeds (K n) (left n) (x n) (ps ! n) t" if "n < length ps" "n \<noteq> m" for n
    by (rule succeeds_stable [OF all [OF that(1)] agree_mono [OF own(1)]]) (use assms(3) [OF that(2)] in blast)
  then have "threads_ok K x (left(m := j)) (t, qs)"
    using own(2,3) m(1) r by (auto simp: threads_ok_def qs nth_list_update)
  then show ?thesis using m(1) j qs by (intro exI [of _ m] exI [of _ "left(m := j)"]) simp
qed

lemma threads_run:
  assumes "(thread_step srv fine ^^ n) (s, ps) (t, qs)" and "threads_ok K x left (s, ps)"
    and "\<And>m n. m \<noteq> n \<Longrightarrow> K m \<inter> K n = {}"
  shows "\<exists>left'. length qs = length ps \<and> threads_ok K x left' (t, qs) \<and>
     n + (\<Sum>m < length ps. left' m) = (\<Sum>m < length ps. left m)"
  using assms(1)
proof (induction n arbitrary: t qs)
  case 0
  then show ?case using assms(2) by auto
next
  case (Suc n)
  then obtain u rs where run: "(thread_step srv fine ^^ n) (s, ps) (u, rs)" and last: "thread_step srv fine (u, rs) (t, qs)"
    by auto
  from Suc.IH [OF run] obtain left' where before: "length rs = length ps" "threads_ok K x left' (u, rs)"
    "n + (\<Sum>m < length ps. left' m) = (\<Sum>m < length ps. left m)" by blast
  from threads_step [OF last before(2) assms(3)] obtain m left'' where m: "m < length rs" "left' m = Suc (left'' m)"
    "\<And>n. n \<noteq> m \<Longrightarrow> left'' n = left' n" "length qs = length rs" "threads_ok K x left'' (t, qs)" by blast
  have "(\<Sum>n < length ps. left' n) = left' m + (\<Sum>n \<in> {..<length ps} - {m}. left' n)"
    and "(\<Sum>n < length ps. left'' n) = left'' m + (\<Sum>n \<in> {..<length ps} - {m}. left'' n)"
    using m(1) before(1) by (simp_all add: sum.remove)
  moreover have "(\<Sum>n \<in> {..<length ps} - {m}. left'' n) = (\<Sum>n \<in> {..<length ps} - {m}. left' n)"
    by (rule sum.cong) (simp_all add: m(3))
  ultimately show ?case using m(2,4,5) before(1,3) by (intro exI [of _ left'']) simp
qed

lemma threads_progress:
  assumes "threads_ok K x left (s, ps)" and "m < length ps" and "left m \<noteq> 0"
  shows "\<exists>r. thread_step srv fine (s, ps) r"
proof -
  obtain j where j: "left m = Suc j" using assms(3) by (cases "left m") auto
  have inv: "inv s" and "succeeds (K m) (left m) (x m) (ps ! m) s" using assms(1,2) by (simp_all add: threads_ok_def)
  then obtain c k where "ps ! m = Request c k" and "\<And>i. fine i \<Longrightarrow> \<exists>resp u. srv c i s = (Inr resp, u)"
    using agree_refl inv by (auto simp: j) blast
  then show ?thesis using some_fine assms(2) thread_step.answered [of m ps c k fine _ srv s] by blast
qed

text \<open>
  Whatever the order, the run makes exactly the requests the threads make alone, is never stuck before that,
  and ends with every thread's own result.
\<close>

lemma interleaving:
  assumes "(thread_step srv fine ^^ n) (s, ps) (t, qs)" and "threads_ok K x left (s, ps)"
    and "\<And>m n. m \<noteq> n \<Longrightarrow> K m \<inter> K n = {}"
  defines "whole \<equiv> (\<Sum>m < length ps. left m)"
  shows "n \<le> whole" and "n < whole \<Longrightarrow> \<exists>r. thread_step srv fine (t, qs) r"
    and "n = whole \<Longrightarrow> qs = map (\<lambda>m. Return (Inr (x m))) [0..<length ps]"
proof -
  from threads_run [OF assms(1-3)] obtain left' where after: "length qs = length ps" "threads_ok K x left' (t, qs)"
    and sum: "n + (\<Sum>m < length ps. left' m) = whole" unfolding whole_def by blast
  show "n \<le> whole" using sum by simp
  show "\<exists>r. thread_step srv fine (t, qs) r" if "n < whole"
  proof -
    have "(\<Sum>m < length ps. left' m) \<noteq> 0" using sum that by linarith
    then obtain m where "m < length ps" "left' m \<noteq> 0" by auto
    with threads_progress [OF after(2)] after(1) show ?thesis by simp
  qed
  show "qs = map (\<lambda>m. Return (Inr (x m))) [0..<length ps]" if "n = whole"
  proof (rule nth_equalityI)
    fix m assume m: "m < length qs"
    have "left' m = 0" using m sum that after(1) by simp
    moreover have "succeeds (K m) (left' m) (x m) (qs ! m) t" using m after(2) by (simp add: threads_ok_def)
    ultimately show "qs ! m = map (\<lambda>m. Return (Inr (x m))) [0..<length ps] ! m" using m after(1) by simp
  qed (simp add: after(1))
qed

end

end
