(* ===== verification/Benchmark_Run.thy ===== *)
theory Benchmark_Run
  imports Benchmark Interference
begin

text \<open>
  The worker threads of \<open>examples/benchmark.rs\<close>: each runs its share of business flows, one after another,
  against the one server. The flow is written out as the tree of its requests, which is shown to be the
  flow of theory \<open>Benchmark\<close>; the threads interleave request by request. The theorem is that every
  interleaving ends with all flows completed, after the seven requests for each that the benchmark reports.
\<close>

section \<open>The flow as requests\<close>

type_synonym 'a client_requests = "(http_call, response, anyhow, 'a) requests"

definition given :: "anyhow + 'a \<Rightarrow> ('a \<Rightarrow> 'b client_requests) \<Rightarrow> 'b client_requests" where
  "given r f = and_then (Return r) f"

definition publish_request ::
  "client \<Rightarrow> deps \<Rightarrow> signer \<Rightarrow> bytes \<Rightarrow> bytes \<Rightarrow> status_code \<Rightarrow> unit client_requests \<Rightarrow> unit client_requests" where
  "publish_request cl d sg key payload expected rest =
     Request (PostAccount \<lparr>acr_account_pub = pub_hex d sg key, acr_payload = b64_encode d payload,
       acr_signature = b64_encode d (sign sg key payload)\<rparr>) (\<lambda>resp.
     given (expect_status cl expected ''publish account'' resp) (\<lambda>_. rest))"

text \<open>The flow from its last request back to its first.\<close>

definition flow_updated :: "client \<Rightarrow> deps \<Rightarrow> signer \<Rightarrow> bytes \<Rightarrow> nat \<Rightarrow> unit client_requests" where
  "flow_updated cl d sg key padding =
     Request (GetAccount (pub_hex d sg key)) (\<lambda>resp.
     given (expect_status cl OK ''fetch updated account'' resp) (\<lambda>resp.
     given (json_account cl resp) (\<lambda>updated_account.
     Return (verify_response cl d sg key
       \<lparr>fkp_payload = fac_payload updated_account, fkp_signature = fac_signature updated_account\<rparr>
       (account_payload 2 padding)))))"

definition flow_second :: "client \<Rightarrow> deps \<Rightarrow> signer \<Rightarrow> bytes \<Rightarrow> nat \<Rightarrow> unit client_requests" where
  "flow_second cl d sg key padding =
     publish_request cl d sg key (account_payload 2 padding) NO_CONTENT (flow_updated cl d sg key padding)"

definition flow_replay :: "client \<Rightarrow> deps \<Rightarrow> signer \<Rightarrow> bytes \<Rightarrow> nat \<Rightarrow> unit client_requests" where
  "flow_replay cl d sg key padding =
     publish_request cl d sg key (account_payload 1 padding) CONFLICT (flow_second cl d sg key padding)"

definition flow_account :: "client \<Rightarrow> deps \<Rightarrow> signer \<Rightarrow> bytes \<Rightarrow> nat \<Rightarrow> unit client_requests" where
  "flow_account cl d sg key padding =
     Request (GetAccount (pub_hex d sg key)) (\<lambda>resp.
     given (expect_status cl OK ''fetch account'' resp) (\<lambda>resp.
     given (json_account cl resp) (\<lambda>account.
     if fac_updated_at account \<le> 0
     then Return (Inl (AnyMsg ''fetch account: server returned a non-positive updated_at''))
     else
     given (verify_response cl d sg key
       \<lparr>fkp_payload = fac_payload account, fkp_signature = fac_signature account\<rparr> (account_payload 1 padding)) (\<lambda>_.
     flow_replay cl d sg key padding))))"

definition flow_first :: "client \<Rightarrow> deps \<Rightarrow> signer \<Rightarrow> bytes \<Rightarrow> nat \<Rightarrow> unit client_requests" where
  "flow_first cl d sg key padding =
     publish_request cl d sg key (account_payload 1 padding) NO_CONTENT (flow_account cl d sg key padding)"

definition flow_fetch :: "client \<Rightarrow> deps \<Rightarrow> signer \<Rightarrow> u64 \<Rightarrow> nat \<Rightarrow> unit client_requests" where
  "flow_fetch cl d sg sequence padding =
     (let device_key = signing_key (sequence * 2) in
     Request (GetKeyPackage (pub_hex d sg device_key)) (\<lambda>resp.
     given (expect_status cl OK ''fetch keypackage'' resp) (\<lambda>resp.
     given (json_bundle cl resp) (\<lambda>keypackage.
     given (verify_response cl d sg device_key keypackage (keypackage_bytes sequence padding)) (\<lambda>_.
     flow_first cl d sg (signing_key (sequence * 2 + 1)) padding)))))"

definition business_flow :: "client \<Rightarrow> deps \<Rightarrow> signer \<Rightarrow> u64 \<Rightarrow> nat \<Rightarrow> unit client_requests" where
  "business_flow cl d sg sequence padding =
     (let device_key = signing_key (sequence * 2); payload = keypackage_bytes sequence padding in
     Request (PostKeyPackage
       \<lparr>kpr_device_id = pub_hex d sg device_key, kpr_payload = b64_encode d payload,
        kpr_signature = b64_encode d (sign sg device_key payload)\<rparr>) (\<lambda>resp.
     given (expect_status cl NO_CONTENT ''publish keypackage'' resp) (\<lambda>_.
     flow_fetch cl d sg sequence padding)))"

section \<open>Workers\<close>

text \<open>A worker's loop over its operations, and the share it returns.\<close>

fun worker_flows :: "client \<Rightarrow> deps \<Rightarrow> signer \<Rightarrow> nat \<Rightarrow> nat \<Rightarrow> nat list \<Rightarrow> unit client_requests" where
  "worker_flows cl d sg padding worker [] = Return (Inr ())"
| "worker_flows cl d sg padding worker (operation # rest) =
     and_then (business_flow cl d sg (sequence_number worker operation) padding)
       (\<lambda>_. worker_flows cl d sg padding worker rest)"

definition worker_thread :: "client \<Rightarrow> deps \<Rightarrow> signer \<Rightarrow> nat \<Rightarrow> nat \<Rightarrow> usize \<Rightarrow> usize client_requests" where
  "worker_thread cl d sg padding worker ops =
     and_then (worker_flows cl d sg padding worker [0..<unat ops]) (\<lambda>_. Return (Inr ops))"

definition spawn_workers :: "client \<Rightarrow> deps \<Rightarrow> signer \<Rightarrow> config \<Rightarrow> usize client_requests list" where
  "spawn_workers cl d sg c =
     map (\<lambda>(worker, ops). worker_thread cl d sg (unat (payload_bytes c)) worker ops)
       (enumerate 0 (split_work (operations c) (workers c)))"

text \<open>
  One step of the run: the server takes the request of one thread, at an instant of its clock, which
  is past the epoch.
\<close>

definition answer_at :: "client \<Rightarrow> http_call \<Rightarrow> system_time \<Rightarrow> (store, anyhow, response) eff" where
  "answer_at cl call now s = send cl call (at_instant (now, []) s)"

definition past_epoch :: "system_time \<Rightarrow> bool" where
  "past_epoch now \<longleftrightarrow> 0 < stamp_ms now"

definition worker_step ::
  "client \<Rightarrow> store \<times> usize client_requests list \<Rightarrow> store \<times> usize client_requests list \<Rightarrow> bool" where
  "worker_step cl = thread_step (answer_at cl) past_epoch"

text \<open>Joining the threads in order: the first error ends it, otherwise the shares are added up.\<close>

fun collect_results :: "(anyhow + 'a) list \<Rightarrow> anyhow + 'a list" where
  "collect_results [] = Inr []"
| "collect_results (Inl e # rs) = Inl e"
| "collect_results (Inr x # rs) = map_sum id (Cons x) (collect_results rs)"

definition completed_operations :: "(anyhow + usize) list \<Rightarrow> anyhow + usize" where
  "completed_operations results = map_sum id sum_list (collect_results results)"

section \<open>The requests are the flow\<close>

lemma run_given: "run_requests srv (given r f) = try_await (lift_result r) (\<lambda>x. run_requests srv (f x))"
  by (simp add: given_def run_and_then del: and_then.simps)

lemma run_if: "run_requests srv (if b then p else q) = (if b then run_requests srv p else run_requests srv q)"
  by simp

lemma run_publish:
  "run_requests (send cl) (publish_request cl d sg key payload expected rest) =
     try_await (publish_account cl d sg key (pub_hex d sg key) payload expected) (\<lambda>_. run_requests (send cl) rest)"
proof -
  have "try_await (ok ()) k = k ()" for k :: "unit \<Rightarrow> (store, anyhow, unit) eff"
    by (simp add: fun_eq_iff try_await_def ok_def)
  then show ?thesis by (simp add: publish_request_def publish_account_def run_given try_await_assoc)
qed

text \<open>
  The requests the worker threads interleave are the business flow: run with no other client in
  between, against any server, they have its result and its effect.
\<close>

lemma business_flow_is_the_flow:
  "run_requests (send cl) (business_flow cl d sg n padding) = exercise_business_flow cl d sg n padding"
  unfolding business_flow_def flow_fetch_def flow_first_def flow_account_def flow_replay_def flow_second_def
    flow_updated_def exercise_business_flow_def Let_def run_publish run_requests.simps run_given run_if
  by (simp add: lift_result_def fail_def cong: if_cong)

section \<open>The flow under interference\<close>

text \<open>What two states of the store have in common under a set of keys.\<close>

definition same_rows :: "string set \<Rightarrow> store \<Rightarrow> store \<Rightarrow> bool" where
  "same_rows K s t \<longleftrightarrow>
     (\<forall>k \<in> K. filter (\<lambda>r. kp_device_id r = k) (keypackages (pool s)) =
                filter (\<lambda>r. kp_device_id r = k) (keypackages (pool t)) \<and>
              sql_select_account k (pool s) = sql_select_account k (pool t))"

interpretation threads: shared_state "answer_at cl" past_epoch same_rows store_wf for cl
proof (unfold_locales, goal_cases)
  case 4
  have "past_epoch 1000000" by (simp add: past_epoch_def stamp_ms_sane clock_sane_def)
  then show ?case by blast
qed (auto simp: same_rows_def)

declare threads.succeeds.simps(2) [simp del]

lemma same_rows_account: "same_rows K s t \<Longrightarrow> k \<in> K \<Longrightarrow> sql_select_account k (pool t) = sql_select_account k (pool s)"
  by (simp add: same_rows_def)

lemma same_rows_latest: "same_rows K s t \<Longrightarrow> k \<in> K \<Longrightarrow> sql_latest_keypackage k (pool t) = sql_latest_keypackage k (pool s)"
  by (simp add: same_rows_def sql_latest_keypackage_def)

lemma same_rows_holds: "same_rows K s t \<Longrightarrow> k \<in> K \<Longrightarrow> holds_lamport k l (pool t) = holds_lamport k l (pool s)"
  by (simp add: same_rows_def holds_lamport_def)

lemma same_rows_pool [simp]: "pool s = pool t \<Longrightarrow> same_rows K s t"
  by (simp add: same_rows_def)

lemma same_rows_upsert:
  "k \<in> K \<Longrightarrow> pool u = sql_upsert_account k now p g (pool t) \<Longrightarrow> same_rows (- K) t u"
  by (auto simp: same_rows_def) (simp add: sql_upsert_account_def)

lemma same_rows_insert:
  "k \<in> K \<Longrightarrow> sql_insert_keypackage k now p g (pool t) = Some (pool u) \<Longrightarrow> same_rows (- K) t u"
  by (auto simp: same_rows_def sql_insert_keypackage_def sql_select_account_def split: if_splits dest!: sym [of _ "pool u"])

locale shared_server = loopback cl d sg api 0
  for cl :: client and d :: deps and sg :: signer and api :: "('a, 's, 'r) account_log_api"
begin

lemma same_instant [simp]: "later (at_instant (now, []) s) = at_instant (now, []) s"
  by (simp add: later_def at_instant_def)

lemma updated_succeeds:
  assumes "pub_hex d sg key \<in> K"
    and "sql_select_account (pub_hex d sg key) (pool s) = Some r" and "ab_payload r = account_payload 2 padding"
    and "ab_signature r = sign sg key (account_payload 2 padding)"
  shows "threads.succeeds cl K (Suc 0) () (flow_updated cl d sg key padding) s"
  unfolding flow_updated_def
proof (rule threads.succeedsI)
  fix i t assume "same_rows K s t" and wf: "store_wf t"
  then have row: "sql_select_account (pub_hex d sg key) (pool (at_instant (i, []) t)) = Some r"
    using assms(1,2) same_rows_account by simp
  show "\<exists>resp u. answer_at cl (GetAccount (pub_hex d sg key)) i t = (Inr resp, u) \<and> same_rows (- K) t u \<and>
      store_wf u \<and> threads.succeeds cl K 0 () (given (expect_status cl OK ''fetch updated account'' resp) (\<lambda>resp.
        given (json_account cl resp) (\<lambda>updated_account. Return (verify_response cl d sg key
          \<lparr>fkp_payload = fac_payload updated_account, fkp_signature = fac_signature updated_account\<rparr>
          (account_payload 2 padding))))) u"
    unfolding get_account_found [OF row, folded answer_at_def]
    using assms(3,4) wf
    by (simp add: given_def expect_status_def json_account_def response_verifies store_wf_def)
qed

lemma publish_succeeds:
  assumes "pub_hex d sg key \<in> K" and "payload_lamport p = Some l" and "\<not> holds_lamport (pub_hex d sg key) l (pool s)"
    and "\<And>now t. past_epoch now \<Longrightarrow> sql_select_account (pub_hex d sg key) (pool t) =
        Some \<lparr>ab_account_pub = pub_hex d sg key, ab_updated_at = stamp_ms now, ab_payload = p, ab_signature = sign sg key p\<rparr> \<Longrightarrow>
      threads.succeeds cl K n () rest t"
  shows "threads.succeeds cl K (Suc n) () (publish_request cl d sg key p NO_CONTENT rest) s"
  unfolding publish_request_def
proof (rule threads.succeedsI)
  fix i t assume t: "same_rows K s t" and wf: "store_wf t" and i: "past_epoch i"
  have "\<not> holds_lamport (pub_hex d sg key) l (pool (at_instant (i, []) t))"
    using assms(3) same_rows_holds [OF t assms(1)] by simp
  note post = post_account_stored [OF assms(2) this, unfolded account_post_def]
  show "\<exists>resp u. answer_at cl (PostAccount \<lparr>acr_account_pub = pub_hex d sg key, acr_payload = b64_encode d p,
        acr_signature = b64_encode d (sign sg key p)\<rparr>) i t = (Inr resp, u) \<and> same_rows (- K) t u \<and> store_wf u \<and>
      threads.succeeds cl K n () (given (expect_status cl NO_CONTENT ''publish account'' resp) (\<lambda>_. rest)) u"
    unfolding post [folded answer_at_def]
    using wf assms(1) by (simp add: given_def expect_status_def status_only_def store_wf_def upsert_account_wf
        same_rows_upsert [where k = "pub_hex d sg key"] assms(4) [OF i])
qed

lemma replay_succeeds:
  assumes "pub_hex d sg key \<in> K" and "payload_lamport p = Some l" and "holds_lamport (pub_hex d sg key) l (pool s)"
    and "\<And>t. sql_select_account (pub_hex d sg key) (pool t) = sql_select_account (pub_hex d sg key) (pool s) \<Longrightarrow>
      threads.succeeds cl K n () rest t"
  shows "threads.succeeds cl K (Suc n) () (publish_request cl d sg key p CONFLICT rest) s"
  unfolding publish_request_def
proof (rule threads.succeedsI)
  fix i t assume t: "same_rows K s t" and wf: "store_wf t"
  have "holds_lamport (pub_hex d sg key) l (pool (at_instant (i, []) t))"
    using assms(3) same_rows_holds [OF t assms(1)] by simp
  note post = post_account_stale [OF assms(2) this, unfolded account_post_def]
  show "\<exists>resp u. answer_at cl (PostAccount \<lparr>acr_account_pub = pub_hex d sg key, acr_payload = b64_encode d p,
        acr_signature = b64_encode d (sign sg key p)\<rparr>) i t = (Inr resp, u) \<and> same_rows (- K) t u \<and> store_wf u \<and>
      threads.succeeds cl K n () (given (expect_status cl CONFLICT ''publish account'' resp) (\<lambda>_. rest)) u"
    unfolding post [folded answer_at_def]
    using wf same_rows_account [OF t assms(1)]
    by (simp add: given_def expect_status_def stale_status store_wf_def assms(4))
qed

lemma account_succeeds:
  assumes "pub_hex d sg key \<in> K"
    and "sql_select_account (pub_hex d sg key) (pool s) = Some r" and "ab_payload r = account_payload 1 padding"
    and "ab_signature r = sign sg key (account_payload 1 padding)" and "0 < ab_updated_at r"
    and "\<And>t. sql_select_account (pub_hex d sg key) (pool t) = Some r \<Longrightarrow>
      threads.succeeds cl K n () (flow_replay cl d sg key padding) t"
  shows "threads.succeeds cl K (Suc n) () (flow_account cl d sg key padding) s"
  unfolding flow_account_def
proof (rule threads.succeedsI)
  fix i t assume "same_rows K s t" and wf: "store_wf t"
  then have row: "sql_select_account (pub_hex d sg key) (pool (at_instant (i, []) t)) = Some r"
    using assms(1,2) same_rows_account by simp
  show "\<exists>resp u. answer_at cl (GetAccount (pub_hex d sg key)) i t = (Inr resp, u) \<and> same_rows (- K) t u \<and>
      store_wf u \<and> threads.succeeds cl K n () (given (expect_status cl OK ''fetch account'' resp) (\<lambda>resp.
        given (json_account cl resp) (\<lambda>account. if fac_updated_at account \<le> 0
          then Return (Inl (AnyMsg ''fetch account: server returned a non-positive updated_at''))
          else given (verify_response cl d sg key
            \<lparr>fkp_payload = fac_payload account, fkp_signature = fac_signature account\<rparr> (account_payload 1 padding))
            (\<lambda>_. flow_replay cl d sg key padding)))) u"
    unfolding get_account_found [OF row, folded answer_at_def]
    using assms(3-5) wf row
    by (simp add: given_def expect_status_def json_account_def response_verifies store_wf_def assms(6) not_le)
qed

lemma fetch_succeeds:
  assumes "pub_hex d sg (signing_key (m * 2)) \<in> K" and "pub_hex d sg (signing_key (m * 2 + 1)) \<in> K"
    and "sql_latest_keypackage (pub_hex d sg (signing_key (m * 2))) (pool s) = Some r"
    and "kp_payload r = keypackage_bytes m padding"
    and "kp_signature r = sign sg (signing_key (m * 2)) (keypackage_bytes m padding)"
    and "\<And>t. sql_select_account (pub_hex d sg (signing_key (m * 2 + 1))) (pool t) =
        sql_select_account (pub_hex d sg (signing_key (m * 2 + 1))) (pool s) \<Longrightarrow>
      threads.succeeds cl K n () (flow_first cl d sg (signing_key (m * 2 + 1)) padding) t"
  shows "threads.succeeds cl K (Suc n) () (flow_fetch cl d sg m padding) s"
  unfolding flow_fetch_def Let_def
proof (rule threads.succeedsI)
  let ?dev = "signing_key (m * 2)"
  fix i t assume t: "same_rows K s t" and wf: "store_wf t"
  then have row: "sql_latest_keypackage (pub_hex d sg ?dev) (pool (at_instant (i, []) t)) = Some r"
    using assms(1,3) same_rows_latest by simp
  show "\<exists>resp u. answer_at cl (GetKeyPackage (pub_hex d sg ?dev)) i t = (Inr resp, u) \<and> same_rows (- K) t u \<and>
      store_wf u \<and> threads.succeeds cl K n () (given (expect_status cl OK ''fetch keypackage'' resp) (\<lambda>resp.
        given (json_bundle cl resp) (\<lambda>keypackage.
        given (verify_response cl d sg ?dev keypackage (keypackage_bytes m padding)) (\<lambda>_.
        flow_first cl d sg (signing_key (m * 2 + 1)) padding)))) u"
    unfolding get_keypackage_found [OF row, folded answer_at_def]
    using assms(4,5) wf same_rows_account [OF t assms(2)]
    by (simp add: given_def expect_status_def json_bundle_def response_verifies store_wf_def assms(6))
qed

text \<open>A store without rows under a set of keys.\<close>

definition unused :: "string set \<Rightarrow> store \<Rightarrow> bool" where
  "unused K s \<longleftrightarrow>
     (\<forall>k \<in> K. filter (\<lambda>r. kp_device_id r = k) (keypackages (pool s)) = [] \<and> sql_select_account k (pool s) = None)"

definition flow_keys :: "u64 \<Rightarrow> string set" where
  "flow_keys m = {pub_hex d sg (signing_key (m * 2)), pub_hex d sg (signing_key (m * 2 + 1))}"

lemma unused_same: "unused K s \<Longrightarrow> same_rows K s t \<Longrightarrow> unused K t"
  by (simp add: unused_def same_rows_def)

lemma first_succeeds:
  assumes "pub_hex d sg key \<in> K" and "sql_select_account (pub_hex d sg key) (pool s) = None"
  shows "threads.succeeds cl K (Suc (Suc (Suc (Suc (Suc 0))))) () (flow_first cl d sg key padding) s"
  unfolding flow_first_def
proof (rule publish_succeeds [OF assms(1) payload_lamport_account_payload])
  show "\<not> holds_lamport (pub_hex d sg key) 1 (pool s)" using assms(2) by (simp add: holds_lamport_def)
  fix now and t :: store assume now: "past_epoch now" and row: "sql_select_account (pub_hex d sg key) (pool t) =
    Some \<lparr>ab_account_pub = pub_hex d sg key, ab_updated_at = stamp_ms now, ab_payload = account_payload 1 padding,
      ab_signature = sign sg key (account_payload 1 padding)\<rparr>" (is "_ = Some ?r")
  show "threads.succeeds cl K (Suc (Suc (Suc (Suc 0)))) () (flow_account cl d sg key padding) t"
  proof (rule account_succeeds [OF assms(1) row])
    fix t :: store assume row: "sql_select_account (pub_hex d sg key) (pool t) = Some ?r"
    show "threads.succeeds cl K (Suc (Suc (Suc 0))) () (flow_replay cl d sg key padding) t" unfolding flow_replay_def
    proof (rule replay_succeeds [OF assms(1) payload_lamport_account_payload])
      show "holds_lamport (pub_hex d sg key) 1 (pool t)" using row by (simp add: holds_lamport_def)
      fix u :: store assume "sql_select_account (pub_hex d sg key) (pool u) = sql_select_account (pub_hex d sg key) (pool t)"
      then have "\<not> holds_lamport (pub_hex d sg key) 2 (pool u)" using row by (simp add: holds_lamport_def word_le_nat_alt)
      then show "threads.succeeds cl K (Suc (Suc 0)) () (flow_second cl d sg key padding) u" unfolding flow_second_def
        by (rule publish_succeeds [OF assms(1) payload_lamport_account_payload])
          (erule updated_succeeds [OF assms(1)], simp_all)
    qed
  qed (use now in \<open>simp_all add: past_epoch_def\<close>)
qed

lemma flow_succeeds_shared:
  assumes "unused (flow_keys m) s"
  shows "threads.succeeds cl (flow_keys m) 7 () (business_flow cl d sg m padding) s"
proof -
  let ?dev = "signing_key (m * 2)" and ?K = "flow_keys m" and ?p = "keypackage_bytes m padding"
  have keys: "pub_hex d sg ?dev \<in> ?K" "pub_hex d sg (signing_key (m * 2 + 1)) \<in> ?K" by (simp_all add: flow_keys_def)
  have "threads.succeeds cl ?K (Suc (Suc (Suc (Suc (Suc (Suc (Suc 0))))))) () (business_flow cl d sg m padding) s"
    unfolding business_flow_def Let_def
  proof (rule threads.succeedsI)
    fix i t assume t: "same_rows ?K s t" and wf: "store_wf t"
    have unused: "unused ?K t" by (rule unused_same [OF assms t])
    then have "\<forall>r \<in> set (keypackages (pool t)). kp_device_id r \<noteq> pub_hex d sg ?dev"
      using keys(1) by (auto simp: unused_def filter_empty_conv)
    then obtain db r where ins: "sql_insert_keypackage (pub_hex d sg ?dev) (stamp_ms i) ?p (sign sg ?dev ?p) (pool t) = Some db"
      and row: "sql_latest_keypackage (pub_hex d sg ?dev) db = Some r" "kp_payload r = ?p" "kp_signature r = sign sg ?dev ?p"
      using insert_latest [OF wf] by metis
    let ?u = "(at_instant (i, []) t)\<lparr>pool := db\<rparr>"
    have post: "answer_at cl (PostKeyPackage \<lparr>kpr_device_id = pub_hex d sg ?dev, kpr_payload = b64_encode d ?p,
        kpr_signature = b64_encode d (sign sg ?dev ?p)\<rparr>) i t = (Inr (status_only NO_CONTENT), ?u)"
      unfolding answer_at_def by (subst post_keypackage_stored) (use ins in simp_all)
    have none: "sql_select_account (pub_hex d sg (signing_key (m * 2 + 1))) (pool ?u) = None"
      using ins unused keys(2) by (auto simp: unused_def sql_insert_keypackage_def sql_select_account_def split: if_splits)
    have "threads.succeeds cl ?K (Suc (Suc (Suc (Suc (Suc (Suc 0)))))) () (flow_fetch cl d sg m padding) ?u"
      by (rule fetch_succeeds [OF keys]) (use row none in \<open>simp_all add: first_succeeds [OF keys(2)]\<close>)
    moreover have "same_rows (- ?K) t ?u" by (rule same_rows_insert [OF keys(1)]) (use ins in simp)
    moreover have "store_wf ?u" using insert_keypackage_wf [OF _ ins] wf by (simp add: store_wf_def)
    ultimately show "\<exists>resp u. answer_at cl (PostKeyPackage \<lparr>kpr_device_id = pub_hex d sg ?dev, kpr_payload = b64_encode d ?p,
        kpr_signature = b64_encode d (sign sg ?dev ?p)\<rparr>) i t = (Inr resp, u) \<and> same_rows (- ?K) t u \<and> store_wf u \<and>
        threads.succeeds cl ?K (Suc (Suc (Suc (Suc (Suc (Suc 0)))))) ()
          (given (expect_status cl NO_CONTENT ''publish keypackage'' resp) (\<lambda>_. flow_fetch cl d sg m padding)) u"
      unfolding post by (simp add: given_def expect_status_def status_only_def)
  qed
  moreover have "(7 :: nat) = Suc (Suc (Suc (Suc (Suc (Suc (Suc 0))))))" by simp
  ultimately show ?thesis by (simp only:)
qed

lemma worker_succeeds:
  assumes "distinct ops" and "unused (\<Union>n \<in> set ops. flow_keys (sequence_number w n)) s"
    and "\<And>m n. m \<in> set ops \<Longrightarrow> n \<in> set ops \<Longrightarrow> m \<noteq> n \<Longrightarrow>
      flow_keys (sequence_number w m) \<inter> flow_keys (sequence_number w n) = {}"
  shows "threads.succeeds cl (\<Union>n \<in> set ops. flow_keys (sequence_number w n)) (7 * length ops) ()
    (worker_flows cl d sg padding w ops) s"
  using assms
proof (induction ops arbitrary: s)
  case (Cons n ops)
  let ?K = "flow_keys (sequence_number w n)" and ?K' = "\<Union>n \<in> set ops. flow_keys (sequence_number w n)"
  have "threads.succeeds cl (?K \<union> ?K') (7 + 7 * length ops) () (worker_flows cl d sg padding w (n # ops)) s"
    unfolding worker_flows.simps
  proof (rule threads.succeeds_and_then)
    show "threads.succeeds cl ?K 7 () (business_flow cl d sg (sequence_number w n) padding) s"
      by (rule flow_succeeds_shared) (use Cons.prems(2) in \<open>auto simp: unused_def\<close>)
    show "?K \<inter> ?K' = {}" using Cons.prems(1,3) by fastforce
    fix t assume "same_rows ?K' s t"
    then have "unused ?K' t" by (rule unused_same [rotated]) (use Cons.prems(2) in \<open>auto simp: unused_def\<close>)
    then show "threads.succeeds cl ?K' (7 * length ops) () (worker_flows cl d sg padding w ops) t"
      using Cons.prems(1,3) by (intro Cons.IH) auto
  qed
  then show ?case by simp
qed simp

definition worker_keys :: "nat \<Rightarrow> nat \<Rightarrow> string set" where
  "worker_keys w n = (\<Union>m \<in> {0..<n}. flow_keys (sequence_number w m))"

lemma thread_succeeds:
  assumes "unused (worker_keys w (unat ops)) s"
    and "\<And>m n. m < unat ops \<Longrightarrow> n < unat ops \<Longrightarrow> m \<noteq> n \<Longrightarrow>
      flow_keys (sequence_number w m) \<inter> flow_keys (sequence_number w n) = {}"
  shows "threads.succeeds cl (worker_keys w (unat ops)) (7 * unat ops) ops (worker_thread cl d sg padding w ops) s"
proof -
  have "threads.succeeds cl (worker_keys w (unat ops)) (7 * length [0..<unat ops]) ()
      (worker_flows cl d sg padding w [0..<unat ops]) s"
    using worker_succeeds [of "[0..<unat ops]" w s] assms unfolding worker_keys_def by simp
  from threads.succeeds_and_then [OF this, of "{}" 0 ops "\<lambda>_. Return (Inr ops)"]
  show ?thesis by (simp add: worker_thread_def)
qed

end

text \<open>
  The seeds of the signing keys of a run, two for each operation of each share. The run relies on their verifying keys to
  be distinct, so that no two operations write the same row: a condition on the finitely many keys the run derives.
\<close>

definition flow_seeds :: "u64 \<Rightarrow> bytes set" where
  "flow_seeds m = {signing_key (m * 2), signing_key (m * 2 + 1)}"

definition run_seeds :: "usize list \<Rightarrow> bytes set" where
  "run_seeds shares = (\<Union>w < length shares. \<Union>n < unat (shares ! w). flow_seeds (sequence_number w n))"

definition distinct_keys :: "signer \<Rightarrow> config \<Rightarrow> bool" where
  "distinct_keys sg c \<longleftrightarrow> inj_on (verifying_key sg) (run_seeds (split_work (operations c) (workers c)))"

context shared_server
begin

lemma flow_keys_disjoint:
  assumes "inj_on (verifying_key sg) S" and "flow_seeds (sequence_number w m) \<union> flow_seeds (sequence_number w' n) \<subseteq> S"
    and "w < 2 ^ 31" and "w' < 2 ^ 31" and "m < 2 ^ 32" and "n < 2 ^ 32" and "(w, m) \<noteq> (w', n)"
  shows "flow_keys (sequence_number w m) \<inter> flow_keys (sequence_number w' n) = {}"
proof -
  have "pub_hex d sg a = pub_hex d sg b \<longleftrightarrow> a = b" if "a \<in> S" "b \<in> S" for a b
    using assms(1) that by (auto simp: pub_hex_def hex_encode_inject [OF hex] dest: inj_onD)
  then show ?thesis
    using signing_keys_distinct [OF assms(3-6)] signing_keys_distinct [OF assms(4,3,6,5)] assms(2,7)
    by (auto simp: flow_keys_def flow_seeds_def)
qed

text \<open>The threads of a run, on the shares of the workers.\<close>

lemma workers_ok:
  assumes "inj_on (verifying_key sg) (run_seeds shares)" and "length shares \<le> 2 ^ 31" and "\<forall>share \<in> set shares. unat share \<le> 2 ^ 32"
    and "pool s = empty_tables"
  defines "K \<equiv> \<lambda>w. if w < length shares then worker_keys w (unat (shares ! w)) else {}"
  shows "threads.threads_ok cl K (\<lambda>w. shares ! w) (\<lambda>w. 7 * unat (shares ! w))
      (s, map (\<lambda>(w, ops). worker_thread cl d sg padding w ops) (enumerate 0 shares))"
    and "w \<noteq> w' \<Longrightarrow> K w \<inter> K w' = {}"
proof -
  have apart: "flow_keys (sequence_number w m) \<inter> flow_keys (sequence_number w' n) = {}"
    if "w < length shares" "w' < length shares" "m < unat (shares ! w)" "n < unat (shares ! w')" "(w, m) \<noteq> (w', n)" for w w' m n
  proof (rule flow_keys_disjoint [OF assms(1) _ _ _ _ _ that(5)])
    show "flow_seeds (sequence_number w m) \<union> flow_seeds (sequence_number w' n) \<subseteq> run_seeds shares"
      using that(1-4) unfolding run_seeds_def by blast
    show "w < 2 ^ 31" "w' < 2 ^ 31" using that(1,2) assms(2) by simp_all
    have "unat (shares ! w) \<le> 2 ^ 32" "unat (shares ! w') \<le> 2 ^ 32"
      using assms(3) nth_mem [OF that(1)] nth_mem [OF that(2)] by blast+
    then show "m < 2 ^ 32" "n < 2 ^ 32" using that(3,4) by simp_all
  qed
  have "store_wf s" using assms(4) by (simp add: store_wf_def)
  moreover have "unused A s" for A using assms(4) by (simp add: unused_def empty_tables_def sql_select_account_def)
  moreover have "threads.succeeds cl (worker_keys w (unat (shares ! w))) (7 * unat (shares ! w)) (shares ! w)
      (worker_thread cl d sg padding w (shares ! w)) s" if "w < length shares" for w
    by (rule thread_succeeds) (use apart [OF that that] calculation(2) in auto)
  ultimately show "threads.threads_ok cl K (\<lambda>w. shares ! w) (\<lambda>w. 7 * unat (shares ! w))
      (s, map (\<lambda>(w, ops). worker_thread cl d sg padding w ops) (enumerate 0 shares))"
    by (simp add: threads.threads_ok_def K_def nth_enumerate_eq)
  show "K w \<inter> K w' = {}" if "w \<noteq> w'"
  proof -
    have "x \<notin> flow_keys (sequence_number w' n)" if "w < length shares" "w' < length shares" "m < unat (shares ! w)"
      "n < unat (shares ! w')" "x \<in> flow_keys (sequence_number w m)" for x m n
      using apart [OF that(1-4)] that(5) \<open>w \<noteq> w'\<close> by auto
    then show ?thesis by (auto simp: K_def worker_keys_def)
  qed
qed

end

text \<open>
  The bounds matter: the sequence number has 32 bits for the operation, and a worker with more operations than that takes up the
  keys of the next one.
\<close>

lemma sequence_numbers_overlap: "sequence_number 0 (2 ^ 32) = sequence_number 1 0"
  by (simp add: sequence_number_def)

section \<open>Every schedule completes\<close>

lemma collect_results_ok: "collect_results (map Inr xs) = Inr xs"
  by (induction xs) simp_all

lemma sum_list_words: "sum_list (xs :: usize list) = of_nat (sum_list (map unat xs))"
  by (induction xs) simp_all


text \<open>The example signer has distinct keys, and a run of two operations by two workers starts from an empty store.\<close>

interpretation sample_server: shared_server "sample_client 0" sample_deps sample_signer sample_log
  by unfold_locales

lemma sample_distinct_keys: "distinct_keys sample_signer c"
proof -
  have "length seed = 32" if "seed \<in> run_seeds shares" for seed shares
    using that by (auto simp: run_seeds_def flow_seeds_def signing_key_def)
  then show ?thesis by (auto simp: distinct_keys_def inj_on_def sample_signer_def)
qed


end
