(* ===== verification/Polling.thy ===== *)
theory Polling
  imports Benchmark
begin

text \<open>
  The two loops of the example clients that ask a server again and again until a time limit:
  \<open>wait_until_ready\<close> of \<open>examples/benchmark.rs\<close> and \<open>poll_until_stored\<close> of
  \<open>examples/delivery_smoke_test.rs\<close>. What each attempt is answered and how long it and the pause after it
  take is given by the environment; the theorems bound the number of attempts and say when the loops
  succeed.
\<close>

section \<open>Attempts\<close>

text \<open>Times are nanoseconds of the monotonic clock; a pause is as long as asked for, or longer.\<close>

record attempt =
  outcome :: "anyhow + response"
  took :: nat
  overslept :: nat

definition from_millis :: "nat \<Rightarrow> nat" where
  "from_millis ms = ms * 1000000"

definition from_seconds :: "nat \<Rightarrow> nat" where
  "from_seconds s = s * 1000000000"

section \<open>Waiting for the server\<close>

definition is_ready :: "anyhow + response \<Rightarrow> bool" where
  "is_ready r \<longleftrightarrow> (case r of Inl _ \<Rightarrow> False | Inr resp \<Rightarrow> resp_status resp = NOT_FOUND)"

text \<open>The loop at attempt \<open>i\<close>, begun at \<open>now\<close>; with its result comes the number of attempts made.\<close>

function ready_loop :: "(nat \<Rightarrow> attempt) \<Rightarrow> nat \<Rightarrow> nat \<Rightarrow> nat \<Rightarrow> (anyhow + unit) \<times> nat" where
  "ready_loop attempts deadline i now =
     (let now = now + took (attempts i) in
      if is_ready (outcome (attempts i)) then (Inr (), Suc i)
      else if deadline \<le> now
      then (Inl (AnyMsg ''local server did not become ready within 5 seconds''), Suc i)
      else ready_loop attempts deadline (Suc i) (now + from_millis 25 + overslept (attempts i)))"
  by pat_completeness auto
termination
  by (relation "measure (\<lambda>(_, deadline, _, now). deadline - now)") (auto simp: from_millis_def)

declare ready_loop.simps [simp del]

definition wait_until_ready :: "(nat \<Rightarrow> attempt) \<Rightarrow> nat \<Rightarrow> (anyhow + unit) \<times> nat" where
  "wait_until_ready attempts now = ready_loop attempts (now + from_seconds 5) 0 now"

section \<open>Waiting for a bundle\<close>

definition POLL_BUDGET :: nat where
  "POLL_BUDGET = from_seconds 90"

text \<open>\<open>StatusCode::is_success\<close>: any code from 200 to 299.\<close>

fun as_u16 :: "status_code \<Rightarrow> nat" where
  "as_u16 OK = 200"
| "as_u16 NO_CONTENT = 204"
| "as_u16 BAD_REQUEST = 400"
| "as_u16 NOT_FOUND = 404"
| "as_u16 CONFLICT = 409"
| "as_u16 INTERNAL_SERVER_ERROR = 500"
| "as_u16 (OtherStatus code) = code"

definition is_success :: "status_code \<Rightarrow> bool" where
  "is_success code \<longleftrightarrow> 200 \<le> as_u16 code \<and> as_u16 code < 300"

text \<open>How a status and a duration are displayed.\<close>

record display =
  show_status :: "status_code \<Rightarrow> string"
  show_duration :: "nat \<Rightarrow> string"

function poll_loop ::
  "display \<Rightarrow> string \<Rightarrow> string \<Rightarrow> (nat \<Rightarrow> attempt) \<Rightarrow> nat \<Rightarrow> nat \<Rightarrow> nat \<Rightarrow> (anyhow + string) \<times> nat" where
  "poll_loop ds url what attempts started i now =
     (let now = now + took (attempts i) in
      case outcome (attempts i) of
        Inl e \<Rightarrow> (Inl (AnyContext (''GET '' @ url) e), Suc i)
      | Inr resp \<Rightarrow>
          if is_success (resp_status resp)
          then (Inr (''GET '' @ url @ '' -> '' @ show_status ds (resp_status resp) @ '' ('' @ what @ '' stored, '' @
                  show_duration ds (now - started) @ '')''), Suc i)
          else if now - started > POLL_BUDGET
          then (Inl (AnyMsg (what @ '' did not appear within '' @ show_duration ds POLL_BUDGET @
                  '' (last status '' @ show_status ds (resp_status resp) @ '')'')), Suc i)
          else poll_loop ds url what attempts started (Suc i) (now + from_seconds 2 + overslept (attempts i)))"
  by pat_completeness auto
termination
  by (relation "measure (\<lambda>(_, _, _, _, started, _, now). started + POLL_BUDGET + 1 - now)")
    (auto simp: from_seconds_def POLL_BUDGET_def)

declare poll_loop.simps [simp del]

text \<open>The line it prints when the bundle was found, or the error it returns.\<close>

definition poll_until_stored ::
  "display \<Rightarrow> string \<Rightarrow> string \<Rightarrow> (nat \<Rightarrow> attempt) \<Rightarrow> nat \<Rightarrow> (anyhow + string) \<times> nat" where
  "poll_until_stored ds url what attempts now = poll_loop ds url what attempts now 0 now"

section \<open>Lemmas\<close>

text \<open>The pauses of length \<open>p\<close> that fit before a limit, the last one cut short; each pause uses one up.\<close>

definition pauses_left :: "nat \<Rightarrow> nat \<Rightarrow> nat \<Rightarrow> nat" where
  "pauses_left p limit now = (limit - now + (p - 1)) div p"

lemma pauses_left_pause:
  assumes "0 < p" and "now < limit" and "now + p \<le> later"
  shows "Suc (pauses_left p limit later) \<le> pauses_left p limit now"
proof (cases "later \<le> limit")
  case True
  have "Suc (pauses_left p limit later) = (limit - later + (p - 1) + p) div p"
    using div_add_self2 [of p "limit - later + (p - 1)"] assms(1) unfolding pauses_left_def by linarith
  also have "\<dots> \<le> pauses_left p limit now"
    unfolding pauses_left_def by (rule div_le_mono) (use True assms(3) in linarith)
  finally show ?thesis .
next
  case False
  then have "pauses_left p limit later = 0" using assms(1) by (simp add: pauses_left_def)
  moreover have "0 < pauses_left p limit now"
    unfolding pauses_left_def using assms(1,2) by (simp add: div_greater_zero_iff)
  ultimately show ?thesis by simp
qed

lemma pauses_left_mono: "now \<le> now' \<Longrightarrow> pauses_left p limit now' \<le> pauses_left p limit now"
  by (simp add: pauses_left_def div_le_mono diff_le_mono2)

lemma ready_loop_bound: "snd (ready_loop attempts deadline i now) \<le> Suc i + pauses_left (from_millis 25) deadline now"
proof (induction attempts deadline i now rule: ready_loop.induct)
  case (1 attempts deadline i now)
  let ?now = "now + took (attempts i)"
  let ?next = "?now + from_millis 25 + overslept (attempts i)"
  show ?case
  proof (cases "is_ready (outcome (attempts i)) \<or> deadline \<le> ?now")
    case False
    then have "snd (ready_loop attempts deadline (Suc i) ?next) \<le> Suc (Suc i) + pauses_left (from_millis 25) deadline ?next"
      using 1 by simp
    moreover have "Suc (pauses_left (from_millis 25) deadline ?next) \<le> pauses_left (from_millis 25) deadline ?now"
      by (rule pauses_left_pause) (use False in \<open>auto simp: from_millis_def\<close>)
    moreover have "\<dots> \<le> pauses_left (from_millis 25) deadline now" by (rule pauses_left_mono) simp
    ultimately show ?thesis using False by (simp add: ready_loop.simps [of attempts deadline i now] Let_def)
  qed (auto simp: ready_loop.simps [of attempts deadline i now] Let_def)
qed

lemma ready_loop_result:
  assumes "ready_loop attempts deadline i now = (r, n)"
  shows "i < n \<and> (\<forall>j. i \<le> j \<and> Suc j < n \<longrightarrow> \<not> is_ready (outcome (attempts j))) \<and>
     (r = Inr () \<longleftrightarrow> is_ready (outcome (attempts (n - 1))))"
  using assms
proof (induction attempts deadline i now rule: ready_loop.induct)
  case (1 attempts deadline i now)
  show ?case
  proof (cases "is_ready (outcome (attempts i)) \<or> deadline \<le> now + took (attempts i)")
    case True
    then show ?thesis using "1.prems" by (auto simp: ready_loop.simps [of attempts deadline i now] Let_def split: if_splits)
  next
    case False
    with "1.prems" have "ready_loop attempts deadline (Suc i)
        (now + took (attempts i) + from_millis 25 + overslept (attempts i)) = (r, n)"
      by (simp add: ready_loop.simps [of attempts deadline i now] Let_def)
    with "1.IH" False have "Suc i < n \<and> (\<forall>j. Suc i \<le> j \<and> Suc j < n \<longrightarrow> \<not> is_ready (outcome (attempts j))) \<and>
        (r = Inr () \<longleftrightarrow> is_ready (outcome (attempts (n - 1))))" by simp
    with False show ?thesis by (metis Suc_lessD le_antisym not_less_eq_eq)
  qed
qed

lemma poll_loop_bound:
  "snd (poll_loop ds url what attempts started i now) \<le> Suc i + pauses_left (from_seconds 2) (started + POLL_BUDGET + 1) now"
proof (induction ds url what attempts started i now rule: poll_loop.induct)
  case (1 ds url what attempts started i now)
  let ?now = "now + took (attempts i)" and ?left = "pauses_left (from_seconds 2) (started + POLL_BUDGET + 1)"
  let ?next = "?now + from_seconds 2 + overslept (attempts i)"
  note step = poll_loop.simps [of ds url what attempts started i now]
  show ?case
  proof (cases "\<exists>resp. outcome (attempts i) = Inr resp \<and> \<not> is_success (resp_status resp) \<and> ?now - started \<le> POLL_BUDGET")
    case True
    then have "snd (poll_loop ds url what attempts started (Suc i) ?next) \<le> Suc (Suc i) + ?left ?next"
      using 1 by (auto simp: not_less)
    moreover have "Suc (?left ?next) \<le> ?left ?now"
      by (rule pauses_left_pause) (use True in \<open>auto simp: from_seconds_def\<close>)
    moreover have "\<dots> \<le> ?left now" by (rule pauses_left_mono) simp
    ultimately show ?thesis using True by (auto simp: step Let_def)
  qed (auto simp: step Let_def not_less split: sum.split)
qed

lemma poll_loop_result:
  assumes "poll_loop ds url what attempts started i now = (r, n)"
  shows "i < n \<and> (\<forall>j. i \<le> j \<and> Suc j < n \<longrightarrow>
       (\<exists>resp. outcome (attempts j) = Inr resp \<and> \<not> is_success (resp_status resp))) \<and>
     ((\<exists>line. r = Inr line) \<longleftrightarrow> (\<exists>resp. outcome (attempts (n - 1)) = Inr resp \<and> is_success (resp_status resp)))"
  using assms
proof (induction ds url what attempts started i now rule: poll_loop.induct)
  case (1 ds url what attempts started i now)
  let ?now = "now + took (attempts i)"
  note step = poll_loop.simps [of ds url what attempts started i now]
  show ?case
  proof (cases "\<exists>resp. outcome (attempts i) = Inr resp \<and> \<not> is_success (resp_status resp) \<and> ?now - started \<le> POLL_BUDGET")
    case True
    with "1.prems" have "poll_loop ds url what attempts started (Suc i)
        (?now + from_seconds 2 + overslept (attempts i)) = (r, n)"
      by (auto simp: step Let_def)
    with "1.IH" True have "Suc i < n \<and> (\<forall>j. Suc i \<le> j \<and> Suc j < n \<longrightarrow>
        (\<exists>resp. outcome (attempts j) = Inr resp \<and> \<not> is_success (resp_status resp))) \<and>
      ((\<exists>line. r = Inr line) \<longleftrightarrow> (\<exists>resp. outcome (attempts (n - 1)) = Inr resp \<and> is_success (resp_status resp)))"
      by (auto simp: not_less)
    with True show ?thesis by (metis Suc_lessD le_antisym not_less_eq_eq)
  next
    case False
    then show ?thesis using "1.prems" by (auto simp: step Let_def split: sum.splits if_splits)
  qed
qed

section \<open>Properties\<close>

text \<open>
  Waiting for the local server always ends: whatever the attempts are answered and however long they take, after
  at most 201 of them. It succeeds exactly when the last one was answered with 404, which is how a server that is up
  answers for an unknown device; no earlier one was.
\<close>

lemma wait_until_ready_ends:
  "\<exists>r n. wait_until_ready attempts now = (r, n) \<and> 0 < n \<and> n \<le> 201 \<and>
     (r = Inr () \<longleftrightarrow> is_ready (outcome (attempts (n - 1)))) \<and>
     (\<forall>j. Suc j < n \<longrightarrow> \<not> is_ready (outcome (attempts j)))"
proof -
  obtain r n where run: "wait_until_ready attempts now = (r, n)" by (meson surj_pair)
  have "snd (wait_until_ready attempts now) \<le> 1 + pauses_left (from_millis 25) (now + from_seconds 5) now"
    unfolding wait_until_ready_def using ready_loop_bound [of attempts _ 0] by simp
  then have "n \<le> 201" using run by (simp add: pauses_left_def from_millis_def from_seconds_def)
  with ready_loop_result [OF run [unfolded wait_until_ready_def]] run show ?thesis by auto
qed

text \<open>A server that answers every attempt with the same status.\<close>

definition steady :: "status_code \<Rightarrow> nat \<Rightarrow> attempt" where
  "steady code i = \<lparr>outcome = Inr (status_only code), took = 1000000, overslept = 0\<rparr>"

definition sample_display :: display where
  "sample_display = \<lparr>show_status = (\<lambda>_. ''status''), show_duration = (\<lambda>_. ''1s'')\<rparr>"

text \<open>
  Polling for a published bundle always ends: after at most 47 requests, whatever they are answered and however
  long they take. It succeeds exactly when the last answer was a success, and every earlier one was an answer that was
  not.
\<close>

lemma poll_until_stored_ends:
  "\<exists>r n. poll_until_stored ds url what attempts now = (r, n) \<and> 0 < n \<and> n \<le> 47 \<and>
     ((\<exists>line. r = Inr line) \<longleftrightarrow> (\<exists>resp. outcome (attempts (n - 1)) = Inr resp \<and> is_success (resp_status resp))) \<and>
     (\<forall>j. Suc j < n \<longrightarrow> (\<exists>resp. outcome (attempts j) = Inr resp \<and> \<not> is_success (resp_status resp)))"
proof -
  obtain r n where run: "poll_until_stored ds url what attempts now = (r, n)" by (meson surj_pair)
  have "snd (poll_until_stored ds url what attempts now) \<le> 1 + pauses_left (from_seconds 2) (now + POLL_BUDGET + 1) now"
    unfolding poll_until_stored_def using poll_loop_bound [of ds url what attempts now 0 now] by simp
  then have "n \<le> 47" using run by (simp add: pauses_left_def POLL_BUDGET_def from_seconds_def)
  with poll_loop_result [OF run [unfolded poll_until_stored_def]] run show ?thesis by auto
qed

text \<open>
  C29. The two polling loops of the clients end, whatever their attempts are answered and however long these take. Waiting
  for the local server ends after at most 201 attempts; it succeeds exactly when the last one was answered with 404,
  which is how a server that is up answers for an unknown device, and no earlier one was. Polling for a published bundle
  ends after at most 47 requests; it succeeds exactly when the last answer was a success, and every earlier one was an
  answer that was not.
\<close>

theorem polling_loops_end:
  "(\<exists>r n. wait_until_ready attempts now = (r, n) \<and> 0 < n \<and> n \<le> 201 \<and>
     (r = Inr () \<longleftrightarrow> is_ready (outcome (attempts (n - 1)))) \<and>
     (\<forall>j. Suc j < n \<longrightarrow> \<not> is_ready (outcome (attempts j)))) \<and>
   (\<exists>r n. poll_until_stored ds url what attempts now = (r, n) \<and> 0 < n \<and> n \<le> 47 \<and>
     ((\<exists>line. r = Inr line) \<longleftrightarrow> (\<exists>resp. outcome (attempts (n - 1)) = Inr resp \<and> is_success (resp_status resp))) \<and>
     (\<forall>j. Suc j < n \<longrightarrow> (\<exists>resp. outcome (attempts j) = Inr resp \<and> \<not> is_success (resp_status resp))))"
  using wait_until_ready_ends poll_until_stored_ends by (rule conjI)

theorem polling_loops_end_witness:
  "wait_until_ready (steady NOT_FOUND) 0 = (Inr (), 1) \<and>
   (\<exists>line. poll_until_stored sample_display ''/v0/account/07'' ''account'' (steady OK) 0 = (Inr line, 1)) \<and>
   (\<exists>e n. poll_until_stored sample_display ''/v0/account/07'' ''account'' (steady NOT_FOUND) 0 = (Inl e, n) \<and> n \<le> 47)"
proof (intro conjI)
  note ends = polling_loops_end [of _ 0 sample_display "''/v0/account/07''" "''account''"]
  from ends [THEN conjunct1, of "steady NOT_FOUND"]
  obtain r n where run: "wait_until_ready (steady NOT_FOUND) 0 = (r, n)" "r = Inr ()" "0 < n" and "\<And>j. \<not> Suc j < n"
    by (auto simp: steady_def is_ready_def status_only_def)
  from this(4) [of 0] run show "wait_until_ready (steady NOT_FOUND) 0 = (Inr (), 1)" by simp
  from ends [THEN conjunct2, of "steady OK"]
  obtain line n where run: "poll_until_stored sample_display ''/v0/account/07'' ''account'' (steady OK) 0 = (Inr line, n)"
    "0 < n" and "\<And>j. \<not> Suc j < n"
    by (auto simp: steady_def is_success_def status_only_def)
  from this(3) [of 0] run show "\<exists>line. poll_until_stored sample_display ''/v0/account/07'' ''account'' (steady OK) 0 = (Inr line, 1)"
    by simp
  from ends [THEN conjunct2, of "steady NOT_FOUND"]
  show "\<exists>e n. poll_until_stored sample_display ''/v0/account/07'' ''account'' (steady NOT_FOUND) 0 = (Inl e, n) \<and> n \<le> 47"
    by (auto simp: steady_def is_success_def status_only_def) (metis sumE)
qed

end
