(* ===== verification/Benchmark_Main.thy ===== *)
theory Benchmark_Main
  imports Benchmark_Run Polling
begin

text \<open>
  The process of \<open>examples/benchmark.rs\<close>: starting the server on a reserved port with a database of its own,
  \<open>main\<close> from the arguments to the report, and what happens to server and database when \<open>main\<close> ends. What is
  asked of the operating system is kept as a trace; its answers are parameters.
\<close>

section \<open>The local server\<close>

datatype os_event =
    BindLoopback
  | CloseListener
  | Spawn string "string list"
  | KillChild
  | WaitChild
  | RemoveFile string

record host =
  is_file :: "string \<Rightarrow> bool"
  bind_loopback :: "anyhow + unit"
  local_addr :: "anyhow + string"
  temp_dir :: string
  spawn_child :: "string \<Rightarrow> string list \<Rightarrow> anyhow + unit"
  build_client :: "anyhow + unit"

record local_server =
  server_db_path :: string
  server_base_url :: string
  server_keep_db :: bool

text \<open>
  \<open>{unique}\<close> of a number, \<open>Path::join\<close> of a directory and a file name, and \<open>Path::with_extension\<close> of a path that ends in
  a file name.
\<close>

fun decimal :: "nat \<Rightarrow> string" where
  "decimal n = (if n < 10 then [char_of (48 + n)] else decimal (n div 10) @ [char_of (48 + n mod 10)])"

declare decimal.simps [simp del]

definition path_join :: "string \<Rightarrow> string \<Rightarrow> string" where
  "path_join dir name = (if dir = [] \<or> last dir = CHR ''/'' then dir @ name else dir @ ''/'' @ name)"

definition with_extension :: "string \<Rightarrow> string \<Rightarrow> string" where
  "with_extension path ext =
     (let back = rev path;
          tail = takeWhile (\<lambda>c. c \<noteq> CHR ''.'' \<and> c \<noteq> CHR ''/'') back;
          stem = drop (length tail) back in
      case stem of
        c # rest \<Rightarrow>
          if c = CHR ''.'' \<and> rest \<noteq> [] \<and> hd rest \<noteq> CHR ''/'' then rev rest @ ''.'' @ ext
          else path @ ''.'' @ ext
      | [] \<Rightarrow> path @ ''.'' @ ext)"

definition os_call :: "os_event \<Rightarrow> anyhow + 'a \<Rightarrow> (os_event list, anyhow, 'a) eff" where
  "os_call ev r = (\<lambda>trace. (r, trace @ [ev]))"

text \<open>
  The listener is closed right after its address was read, or dropped with the error that reading it gave.
\<close>

definition start_local_server :: "host \<Rightarrow> config \<Rightarrow> nat \<Rightarrow> (os_event list, anyhow, local_server) eff" where
  "start_local_server h c unique =
     (if \<not> is_file h (server_bin c)
      then fail (AnyMsg (''server binary not found at '' @ server_bin c @
             ''; run `cargo build --release` or pass --server-bin <path>''))
      else
     try_await (map_err (AnyContext ''reserve loopback port'') (os_call BindLoopback (bind_loopback h))) (\<lambda>_.
     try_await (map_err (AnyContext ''read reserved loopback port'') (os_call CloseListener (local_addr h))) (\<lambda>address.
     let db = path_join (temp_dir h) (''chat-store-benchmark-'' @ decimal unique @ ''.db'');
         args = [''--bind'', address, ''--db'', db] in
     try_await (map_err (AnyContext (''start local server '' @ server_bin c))
       (os_call (Spawn (server_bin c) args) (spawn_child h (server_bin c) args))) (\<lambda>_.
     ok \<lparr>server_db_path = db, server_base_url = ''http://'' @ address, server_keep_db = keep_db c\<rparr>))))"

text \<open>\<open>Drop for LocalServer\<close>; every result is ignored.\<close>

definition drop_server :: "local_server \<Rightarrow> os_event list" where
  "drop_server srv =
     [KillChild, WaitChild] @
     (if server_keep_db srv then []
      else [RemoveFile (server_db_path srv), RemoveFile (with_extension (server_db_path srv) ''db-shm''),
            RemoveFile (with_extension (server_db_path srv) ''db-wal'')])"

section \<open>Main\<close>

text \<open>A thread that was joined: it panicked, or it returned. What the timings come to is given as text.\<close>

datatype joined = Panicked | Joined "anyhow + usize"

record timings =
  elapsed_secs :: string
  flows_per_sec :: string
  requests_per_sec :: string

definition join_thread :: "joined \<Rightarrow> anyhow + usize" where
  "join_thread j = (case j of Panicked \<Rightarrow> Inl (AnyMsg ''benchmark worker panicked'') | Joined r \<Rightarrow> r)"

definition report_lines :: "timings \<Rightarrow> config \<Rightarrow> local_server \<Rightarrow> usize \<Rightarrow> string list" where
  "report_lines tm c srv completed =
     (let requests = completed * 7 in
      [''Local benchmark completed without contacting an external server.'',
       ''operations: '' @ decimal (unat completed),
       ''HTTP requests: '' @ decimal (unat requests),
       ''concurrency: '' @ decimal (unat (workers c)),
       ''elapsed: '' @ elapsed_secs tm @ ''s'',
       ''business flows/s: '' @ flows_per_sec tm,
       ''HTTP requests/s: '' @ requests_per_sec tm] @
      (if keep_db c then [''database retained at '' @ server_db_path srv] else []))"

text \<open>
  \<open>main\<close>: the arguments, the instant that names the database, the attempts of the readiness loop, the outcome of the
  checks of the error paths and of the threads. It yields what it printed, or its error; the server is
  dropped on every way out after it was started.
\<close>

definition benchmark_main ::
  "host \<Rightarrow> timings \<Rightarrow> string list \<Rightarrow> nat \<Rightarrow> (nat \<Rightarrow> attempt) \<Rightarrow> anyhow + unit \<Rightarrow> joined list \<Rightarrow>
   (anyhow + string list) \<times> os_event list" where
  "benchmark_main h tm args unique attempts checked threads =
     (case parse_args args of
        Inl e \<Rightarrow> (Inl e, [])
      | Inr c \<Rightarrow>
     (case start_local_server h c unique [] of
        (Inl e, trace) \<Rightarrow> (Inl e, trace)
      | (Inr server, trace) \<Rightarrow>
          ((case build_client h of
              Inl e \<Rightarrow> Inl (AnyContext ''build HTTP client'' e)
            | Inr _ \<Rightarrow>
           (case fst (wait_until_ready attempts 0) of
              Inl e \<Rightarrow> Inl e
            | Inr _ \<Rightarrow>
           (case checked of
              Inl e \<Rightarrow> Inl e
            | Inr _ \<Rightarrow>
                map_sum id (report_lines tm c server) (completed_operations (map join_thread threads))))),
           trace @ drop_server server)))"

section \<open>Lemmas\<close>

lemma with_extension_db:
  "with_extension (dir @ ''/'' @ stem @ ''.db'') ext = dir @ ''/'' @ stem @ ''.'' @ ext" if "stem \<noteq> []" and "last stem \<noteq> CHR ''/''"
proof -
  have "rev stem \<noteq> []" and "hd (rev stem) \<noteq> CHR ''/''" using that by (auto simp: hd_rev)
  then show ?thesis by (cases "rev stem") (auto simp: with_extension_def Let_def rev_swap)
qed

lemma last_decimal: "decimal n \<noteq> [] \<and> last (decimal n) \<noteq> CHR ''/''"
proof -
  have "char_of (48 + k :: nat) \<noteq> CHR ''/''" if "k < 10" for k
  proof
    assume "char_of (48 + k) = CHR ''/''"
    then have "of_char (char_of (48 + k)) = (of_char (CHR ''/'') :: nat)" by (rule arg_cong)
    with that show False by simp
  qed
  then show ?thesis by (subst (1 2) decimal.simps) auto
qed

text \<open>The trace of a start, for each of its results.\<close>

lemma start_trace:
  assumes "start_local_server h c unique [] = (r, trace)"
  shows "(\<exists>srv addr. r = Inr srv \<and> local_addr h = Inr addr \<and> server_keep_db srv = keep_db c \<and>
        server_db_path srv = path_join (temp_dir h) (''chat-store-benchmark-'' @ decimal unique @ ''.db'') \<and>
        trace = [BindLoopback, CloseListener, Spawn (server_bin c) [''--bind'', addr, ''--db'', server_db_path srv]]) \<or>
     (\<exists>e. r = Inl e)"
  using assms
  by (auto simp: start_local_server_def os_call_def fail_def ok_def Let_def elim!: try_await_cases map_err_cases split: if_splits)

lemma with_extension_benchmark:
  "with_extension (dir @ ''/chat-store-benchmark-'' @ decimal unique @ ''.db'') ext =
     dir @ ''/chat-store-benchmark-'' @ decimal unique @ ''.'' @ ext"
  using with_extension_db [of "''chat-store-benchmark-'' @ decimal unique" dir ext] last_decimal [of unique] by simp

section \<open>Properties\<close>

text \<open>
  C28. The benchmark cleans up. Once its server was started, \<open>main\<close> ends in no other way than by killing the server,
  waiting for it, and removing its database with the two files SQLite keeps beside it, unless it was asked to keep the
  database; whatever the client, the readiness loop, the checks and the workers came to. The one process started is the
  configured server, on the reserved loopback address and with the database named after the instant; no other file
  is removed.
\<close>

theorem benchmark_stops_its_server:
  assumes "parse_args args = Inr c" and "start_local_server h c unique [] = (Inr srv, started)"
    and "local_addr h = Inr addr" and "temp_dir h \<noteq> []" and "last (temp_dir h) \<noteq> CHR ''/''"
  shows "let db = temp_dir h @ ''/chat-store-benchmark-'' @ decimal unique
         in snd (benchmark_main h tm args unique attempts checked threads) =
            [BindLoopback, CloseListener, Spawn (server_bin c) [''--bind'', addr, ''--db'', db @ ''.db''], KillChild, WaitChild] @
            (if keep_db c then [] else [RemoveFile (db @ ''.db''), RemoveFile (db @ ''.db-shm''), RemoveFile (db @ ''.db-wal'')])"
proof -
  have srv: "server_keep_db srv = keep_db c" "started = [BindLoopback, CloseListener,
      Spawn (server_bin c) [''--bind'', addr, ''--db'', server_db_path srv]]"
    "server_db_path srv = path_join (temp_dir h) (''chat-store-benchmark-'' @ decimal unique @ ''.db'')"
    using start_trace [OF assms(2)] assms(3) by auto
  have db: "server_db_path srv = temp_dir h @ ''/chat-store-benchmark-'' @ decimal unique @ ''.db''"
    unfolding srv(3) path_join_def using assms(4,5) by simp
  have main: "snd (benchmark_main h tm args unique attempts checked threads) = started @ drop_server srv"
    by (simp add: benchmark_main_def assms(1,2))
  have "drop_server srv = [KillChild, WaitChild] @ (if keep_db c then [] else
      [RemoveFile (server_db_path srv),
       RemoveFile (temp_dir h @ ''/chat-store-benchmark-'' @ decimal unique @ ''.'' @ ''db-shm''),
       RemoveFile (temp_dir h @ ''/chat-store-benchmark-'' @ decimal unique @ ''.'' @ ''db-wal'')])"
    unfolding drop_server_def srv(1) db with_extension_benchmark by (rule refl)
  then show ?thesis unfolding Let_def main srv(2) db by (simp only: append_assoc append.simps)
qed

definition sample_host :: host where
  "sample_host =
     \<lparr>is_file = (\<lambda>_. True), bind_loopback = Inr (), local_addr = Inr ''127.0.0.1:40000'', temp_dir = ''/tmp'',
      spawn_child = (\<lambda>_ _. Inr ()), build_client = Inl (AnyMsg ''tls'')\<rparr>"

definition sample_timings :: timings where
  "sample_timings = \<lparr>elapsed_secs = ''1.000'', flows_per_sec = ''1000.0'', requests_per_sec = ''7000.0''\<rparr>"

theorem benchmark_stops_its_server_witness:
  "snd (benchmark_main sample_host sample_timings [] 7 (steady NOT_FOUND) (Inr ()) []) =
     [BindLoopback, CloseListener,
      Spawn ''target/release/chat-store'' [''--bind'', ''127.0.0.1:40000'', ''--db'', ''/tmp/chat-store-benchmark-7.db''],
      KillChild, WaitChild, RemoveFile ''/tmp/chat-store-benchmark-7.db'', RemoveFile ''/tmp/chat-store-benchmark-7.db-shm'',
      RemoveFile ''/tmp/chat-store-benchmark-7.db-wal'']"
proof -
  have args: "parse_args [] = Inr default_config" by (simp add: parse_args_def default_config_def)
  obtain srv started where start: "start_local_server sample_host default_config 7 [] = (Inr srv, started)"
    by (simp add: start_local_server_def sample_host_def os_call_def map_err_def try_await_def ok_def Let_def)
  have "decimal 7 = ''7''" by (simp add: decimal.simps char_of_def bit_iff_odd)
  then show ?thesis
    using benchmark_stops_its_server [OF args start, of "''127.0.0.1:40000''"]
    by (simp add: sample_host_def default_config_def)
qed

end
