(* ===== verification/Store_Tests.thy ===== *)
theory Store_Tests
  imports Lock_Progress
begin

text \<open>
  The unit tests of \<open>src/store.rs\<close>, as operations on the store that may panic. Each await happens at an instant of
  its own, and the theorems say that the tests pass at whatever instants these are; the concurrent test is
  run on the interleavings of theory \<open>Write_Lock\<close>, and passes on all of them.
\<close>

section \<open>Tests as operations\<close>

datatype panic = Unwrapped | AssertionFailed

type_synonym 'a test = "(store, panic, 'a) eff"

text \<open>An awaited call, at the instant it is made; \<open>unwrap\<close> of a result and of an option; \<open>assert!\<close>.\<close>

definition awaits :: "system_time \<Rightarrow> (store, 'e, 'a) eff \<Rightarrow> 'a test" where
  "awaits now m = (\<lambda>s. map_err (\<lambda>_. Unwrapped) m (at_instant (now, []) s))"

definition unwrap :: "'a option \<Rightarrow> 'a test" where
  "unwrap x = (case x of None \<Rightarrow> fail Unwrapped | Some y \<Rightarrow> ok y)"

definition assert_that :: "bool \<Rightarrow> unit test" where
  "assert_that b = (if b then ok () else fail AssertionFailed)"

definition passes :: "unit test \<Rightarrow> store \<Rightarrow> bool" where
  "passes t s \<longleftrightarrow> fst (t s) = Inr ()"

section \<open>The tests\<close>

definition test_bundle :: "u64 \<Rightarrow> stored_account_bundle" where
  "test_bundle lamport =
     \<lparr>sab_payload = payload_with_lamport lamport, sab_signature = replicate 64 0, sab_updated_at = 0\<rparr>"

definition test_upsert :: "system_time \<Rightarrow> string \<Rightarrow> u64 \<Rightarrow> bool test" where
  "test_upsert now account lamport = awaits now (upsert_account account lamport (test_bundle lamport))"

definition rejects_replayed_or_stale_lamport :: "(nat \<Rightarrow> system_time) \<Rightarrow> unit test" where
  "rejects_replayed_or_stale_lamport now =
     try_await (test_upsert (now 0) ''acct'' 5) (\<lambda>stored.
     try_await (assert_that stored) (\<lambda>_.
     try_await (test_upsert (now 1) ''acct'' 6) (\<lambda>stored.
     try_await (assert_that stored) (\<lambda>_.
     try_await (test_upsert (now 2) ''acct'' 6) (\<lambda>stored.
     try_await (assert_that (\<not> stored)) (\<lambda>_.
     try_await (test_upsert (now 3) ''acct'' 4) (\<lambda>stored.
     try_await (assert_that (\<not> stored)) (\<lambda>_.
     try_await (awaits (now 4) (get_account ''acct'')) (\<lambda>row.
     try_await (unwrap row) (\<lambda>stored.
     assert_that (payload_lamport (sab_payload stored) = Some 6)))))))))))"

definition stale_publish_does_not_refresh_retention_clock :: "(nat \<Rightarrow> system_time) \<Rightarrow> unit test" where
  "stale_publish_does_not_refresh_retention_clock now =
     try_await (test_upsert (now 0) ''acct'' 9) (\<lambda>stored.
     try_await (assert_that stored) (\<lambda>_.
     try_await (awaits (now 1) (get_account ''acct'')) (\<lambda>row.
     try_await (unwrap row) (\<lambda>after_first.
     try_await (test_upsert (now 2) ''acct'' 9) (\<lambda>stored.
     try_await (assert_that (\<not> stored)) (\<lambda>_.
     try_await (awaits (now 3) (get_account ''acct'')) (\<lambda>row.
     try_await (unwrap row) (\<lambda>after_replay.
     assert_that (sab_updated_at after_first = sab_updated_at after_replay)))))))))"

definition payload_lamport_requires_domain_and_full_header :: "unit test" where
  "payload_lamport_requires_domain_and_full_header =
     try_await (assert_that (payload_lamport (payload_with_lamport 42) = Some 42)) (\<lambda>_.
     try_await (assert_that (payload_lamport [1, 0, 0, 0, 0, 0, 0, 0, 0] = None)) (\<lambda>_.
     assert_that (payload_lamport (BUNDLE_DOMAIN @ [1]) = None)))"

text \<open>
  The concurrent test: sixteen spawned tasks, of which the one with number \<open>index\<close> publishes for the account
  \<open>acct-{index}\<close>.
\<close>

definition index_text :: "nat \<Rightarrow> string" where
  "index_text n = (if n < 10 then [char_of (48 + n)] else [char_of (48 + n div 10), char_of (48 + n mod 10)])"

definition account_name :: "nat \<Rightarrow> string" where
  "account_name index = ''acct-'' @ index_text index"

definition concurrent_publish :: "nat \<Rightarrow> operation" where
  "concurrent_publish index = upsert_account_op (account_name index) 1 (test_bundle 1)"

definition spawned :: conf where
  "spawned =
     (opened_conf empty_tables)\<lparr>tasks := (\<lambda>index. if index < 16 then Some (Waiting (concurrent_publish index)) else None)\<rparr>"

text \<open>
  The steps of the test are those of the lock, call by call. No task is dropped, and the driver fails a call with
  \<open>SQLITE_BUSY\<close> only as SQLite does: when another connection is in the middle of its own operation, so that the two
  could be racing for the right to write. That is what the test is there to find: were two publishes ever under way
  at once, any call of either could fail.
\<close>

definition sqlite_busy :: anyhow where
  "sqlite_busy = AnySqlx (DriverError ''database is locked'')"

definition contended :: "conf \<Rightarrow> nat \<Rightarrow> bool" where
  "contended c i \<longleftrightarrow> (\<exists>j op now fs p. j \<noteq> i \<and> tasks c j = Some (Holding op now fs p))"

text \<open>The task that fails a call in a step does so because it is contended.\<close>

definition fails_when_contended :: "conf \<Rightarrow> conf \<Rightarrow> bool" where
  "fails_when_contended c c' \<longleftrightarrow>
     (\<forall>i op now fs e p p'. tasks c i = Some (Holding op now fs p) \<longrightarrow> tasks c' i = Some (Holding op now (fs @ [Some e]) p') \<longrightarrow>
        contended c i \<and> AnySqlx e = sqlite_busy)"

definition test_step :: "conf \<Rightarrow> conf \<Rightarrow> bool" where
  "test_step c c' \<longleftrightarrow> lock_step c c' \<and> dom (tasks c') = dom (tasks c) \<and> fails_when_contended c c'"

section \<open>Lemmas\<close>

lemma run_awaits_upsert:
  "test_upsert now k l s =
     (if holds_lamport k l (pool s) then (Inr False, at_instant (now, []) s)
      else (Inr True, (at_instant (now, []) s)\<lparr>pool := sql_upsert_account k (stamp_ms now) (payload_with_lamport l)
              (replicate 64 0) (pool s)\<rparr>))"
  by (simp add: test_upsert_def awaits_def map_err_def upsert_account_quiet quiet_def test_bundle_def)

lemma run_awaits_get:
  "awaits now (get_account k) s = (Inr (map_option
     (\<lambda>r. \<lparr>sab_payload = ab_payload r, sab_signature = ab_signature r, sab_updated_at = ab_updated_at r\<rparr>)
     (sql_select_account k (pool s))), at_instant (now, []) s)"
  by (simp add: awaits_def map_err_def get_account_quiet quiet_def)

lemmas run_test = run_awaits_upsert run_awaits_get unwrap_def assert_that_def try_await_def ok_def fail_def passes_def

section \<open>Properties\<close>

text \<open>
  The sequential unit tests of the store pass on a new store, whatever the clock reads at each of their calls, a clock
  that jumps back included: a replayed and an older lamport are refused and leave the newest bundle and its stamp.
\<close>

lemma store_tests_pass:
  "passes (rejects_replayed_or_stale_lamport now) (fresh_store t) \<and>
   passes (stale_publish_does_not_refresh_retention_clock now) (fresh_store t) \<and>
   passes payload_lamport_requires_domain_and_full_header s"
proof (intro conjI)
  have empty: "\<not> holds_lamport k l (pool (fresh_store t))" for k l
    by (simp add: holds_lamport_def sql_select_account_def empty_tables_def)
  show "passes (rejects_replayed_or_stale_lamport now) (fresh_store t)"
    using empty by (simp add: rejects_replayed_or_stale_lamport_def run_test holds_lamport_def word_le_nat_alt)
  show "passes (stale_publish_does_not_refresh_retention_clock now) (fresh_store t)"
    using empty by (simp add: stale_publish_does_not_refresh_retention_clock_def run_test holds_lamport_def)
  show "passes payload_lamport_requires_domain_and_full_header s"
    by (simp add: payload_lamport_requires_domain_and_full_header_def run_test payload_lamport_short)
qed

section \<open>The concurrent test\<close>

text \<open>Where no call fails, a publish is stored unless the account has the lamport already.\<close>

definition clean :: "sqlx_error option list \<Rightarrow> bool" where
  "clean fs \<longleftrightarrow> set fs \<subseteq> {None}"

lemma clean_db_call:
  assumes "clean (faults s)"
  obtains t where "db_call s = (Inr (), t)" and "clean (faults t)" and "pool t = pool s"
proof (cases "faults s")
  case Nil
  with assms show thesis by (intro that [of s]) (simp_all add: db_call_def)
next
  case (Cons f fs)
  with assms show thesis by (intro that [of "s\<lparr>faults := fs\<rparr>"]) (auto simp: db_call_def clean_def)
qed

lemma run_publish_clean:
  assumes "clean fs" and "\<not> holds_lamport k l db"
  shows "fst (run_op (upsert_account_op k l b) \<lparr>pool = db, clock = now, faults = fs\<rparr>) = Inr (Flag True)"
    and "pool (snd (run_op (upsert_account_op k l b) \<lparr>pool = db, clock = now, faults = fs\<rparr>)) =
      sql_upsert_account k (stamp_ms now) (sab_payload b) (sab_signature b) db"
proof -
  let ?s = "\<lparr>pool = db, clock = now, faults = fs\<rparr>"
  obtain s1 where s1: "db_call ?s = (Inr (), s1)" "clean (faults s1)" "pool s1 = db"
    by (rule clean_db_call [of ?s]) (use assms(1) in auto)
  obtain s2 where s2: "db_call s1 = (Inr (), s2)" "clean (faults s2)" "pool s2 = db"
    by (rule clean_db_call [OF s1(2)]) (use s1(3) in auto)
  obtain s3 where s3: "db_call s2 = (Inr (), s3)" "clean (faults s3)" "pool s3 = db"
    by (rule clean_db_call [OF s2(2)]) (use s2(3) in auto)
  obtain s4 where s4: "db_call s3 = (Inr (), s4)" by (rule clean_db_call [OF s3(2)])
  have "run_op (upsert_account_op k l b) ?s =
      (Inr (Flag True), s4\<lparr>pool := sql_upsert_account k (stamp_ms now) (sab_payload b) (sab_signature b) db\<rparr>)"
    using assms(2) unfolding run_op_def upsert_account_op_def holds_lamport_def
    by (simp add: run_calls try_await_def begin_tx_def commit_tx_def lift_result_def s1 s2 s3 s4 Let_def if_distrib [of run_prog]
        del: run_prog.simps cong: if_cong)
  then show "fst (run_op (upsert_account_op k l b) ?s) = Inr (Flag True)"
    and "pool (snd (run_op (upsert_account_op k l b) ?s)) = sql_upsert_account k (stamp_ms now) (sab_payload b) (sab_signature b) db"
    by simp_all
qed

lemma account_name_inject: "i < 16 \<Longrightarrow> j < 16 \<Longrightarrow> account_name i = account_name j \<longleftrightarrow> i = j"
proof -
  assume less: "i < 16" "j < 16"
  have digit: "char_of (48 + a :: nat) = char_of (48 + b) \<longleftrightarrow> a = b" if "a < 10" "b < 10" for a b
  proof
    assume "char_of (48 + a) = char_of (48 + b)"
    then have "of_char (char_of (48 + a)) = (of_char (char_of (48 + b)) :: nat)" by simp
    with that show "a = b" by simp
  qed simp
  have "i = j" if "i div 10 = j div 10" "i mod 10 = j mod 10" using that by (metis div_mult_mod_eq)
  then show ?thesis using less by (auto simp: account_name_def index_text_def digit split: if_splits)
qed

text \<open>The operations of a history of publishes, each of another account, run one after another.\<close>

definition publishes :: "(nat \<times> system_time \<times> sqlx_error option list) list \<Rightarrow>
    (operation \<times> system_time \<times> sqlx_error option list) list" where
  "publishes = map (\<lambda>(i, now, fs). (concurrent_publish i, now, fs))"

lemma serial_publishes:
  assumes "\<forall>(i, now, fs) \<in> set H. i < 16 \<and> clean fs" and "distinct (map fst H)"
    and "\<forall>i \<in> fst ` set H. sql_select_account (account_name i) db = None"
    and "k < 16" and "k \<notin> fst ` set H" and "sql_select_account (account_name k) db = None"
  shows "sql_select_account (account_name k) (serial (publishes H) db) = None"
  using assms
proof (induction H arbitrary: db)
  case (Cons h H)
  obtain i now fs where h: "h = (i, now, fs)" by (metis prod_cases3)
  have "\<not> holds_lamport (account_name i) 1 db" using Cons.prems(3) h by (simp add: holds_lamport_def)
  then have db: "pool (snd (run_op (concurrent_publish i) \<lparr>pool = db, clock = now, faults = fs\<rparr>)) =
      sql_upsert_account (account_name i) (stamp_ms now) (payload_with_lamport 1) (replicate 64 0) db"
    using run_publish_clean(2) [of fs _ 1 db "test_bundle 1" now] Cons.prems(1) h
    by (simp add: concurrent_publish_def test_bundle_def)
  let ?db = "sql_upsert_account (account_name i) (stamp_ms now) (payload_with_lamport 1) (replicate 64 0) db"
  have step: "serial (publishes (h # H)) db = serial (publishes H) ?db" by (simp add: publishes_def h db)
  have other: "sql_select_account (account_name j) ?db = sql_select_account (account_name j) db" if "j < 16" "j \<noteq> i" for j
    using account_name_inject that Cons.prems(1) h by simp
  have rest: "j < 16 \<and> j \<noteq> i" if "j \<in> fst ` set H" for j using that Cons.prems(1,2) h by force
  show ?case unfolding step
  proof (rule Cons.IH)
    show "\<forall>j \<in> fst ` set H. sql_select_account (account_name j) ?db = None"
      using other rest Cons.prems(3) by simp
    show "sql_select_account (account_name k) ?db = None" using other [of k] Cons.prems(4-6) h by simp
  qed (use Cons.prems in auto)
qed (simp add: publishes_def)

text \<open>What every configuration of the test looks like.\<close>

fun test_task :: "nat \<Rightarrow> task \<Rightarrow> bool" where
  "test_task i (Waiting op) \<longleftrightarrow> i < 16 \<and> op = concurrent_publish i"
| "test_task i (Holding op now fs p) \<longleftrightarrow> i < 16 \<and> op = concurrent_publish i \<and> clean fs"
| "test_task i (Finished op r) \<longleftrightarrow> i < 16 \<and> op = concurrent_publish i"

fun is_finished :: "task option \<Rightarrow> bool" where
  "is_finished (Some (Finished op r)) = True"
| "is_finished _ = False"

lemma is_finished_iff: "is_finished t \<longleftrightarrow> (\<exists>op r. t = Some (Finished op r))"
  by (cases t rule: is_finished.cases) simp_all

definition test_history :: "conf \<Rightarrow> (nat \<times> system_time \<times> sqlx_error option list) list \<Rightarrow> bool" where
  "test_history c H \<longleftrightarrow>
     history c = publishes H \<and> distinct (map fst H) \<and> (\<forall>(i, now, fs) \<in> set H. i < 16 \<and> clean fs) \<and>
     (\<forall>i \<in> fst ` set H. is_finished (tasks c i))"

definition test_inv :: "conf \<Rightarrow> bool" where
  "test_inv c \<longleftrightarrow> (\<forall>i t. tasks c i = Some t \<longrightarrow> test_task i t) \<and> (\<forall>i < 16. tasks c i \<noteq> None) \<and> (\<exists>H. test_history c H)"

lemma test_invD: "test_inv c \<Longrightarrow> tasks c i = Some t \<Longrightarrow> test_task i t"
  by (simp add: test_inv_def)

lemma test_task_index: "test_task i t \<Longrightarrow> i < 16"
  by (cases t) simp_all

lemma test_inv_update:
  assumes "test_inv c" and "tasks c i = Some t" and "\<not> is_finished (tasks c i)" and "test_task i t'"
    and "tasks c' = (tasks c)(i \<mapsto> t')"
    and "history c' = history c \<or>
      is_finished (Some t') \<and> (\<exists>now fs. history c' = history c @ [(concurrent_publish i, now, fs)] \<and> clean fs)"
  shows "test_inv c'"
proof -
  obtain H where H: "test_history c H" using assms(1) by (auto simp: test_inv_def)
  have new: "i \<notin> fst ` set H" using H assms(3) by (auto simp: test_history_def)
  have i: "i < 16" by (rule test_task_index [OF assms(4)])
  have kept: "is_finished (tasks c' j)" if "j \<in> fst ` set H" for j
    using that new H assms(5) by (auto simp: test_history_def)
  from assms(6) have "\<exists>H. test_history c' H"
  proof (elim disjE conjE exE)
    assume "history c' = history c"
    with H kept show ?thesis by (auto simp: test_history_def intro!: exI [of _ H])
  next
    fix now fs assume "is_finished (Some t')" "history c' = history c @ [(concurrent_publish i, now, fs)]" "clean fs"
    with H kept new i assms(5) have "test_history c' (H @ [(i, now, fs)])" by (auto simp: test_history_def publishes_def)
    then show ?thesis ..
  qed
  moreover have "\<forall>j t. tasks c' j = Some t \<longrightarrow> test_task j t" using assms(1,4,5) by (simp add: test_inv_def)
  moreover have "\<forall>j < 16. tasks c' j \<noteq> None" using assms(1,5) by (simp add: test_inv_def)
  ultimately show ?thesis by (simp add: test_inv_def)
qed

text \<open>Under the lock no task is contended, so that the steps of the test are those in which no call fails.\<close>

inductive calm_step :: "conf \<Rightarrow> conf \<Rightarrow> bool" where
  lock: "tasks c i = Some (Waiting op) \<Longrightarrow> write_lock c = None \<Longrightarrow>
    calm_step c (c\<lparr>write_lock := Some i, tasks := (tasks c)(i \<mapsto> Holding op now [] (op now))\<rparr>)"
| call: "tasks c i = Some (Holding op now fs (Call f)) \<Longrightarrow> f (committed c) = (db, rest) \<Longrightarrow>
    calm_step c (c\<lparr>committed := db, tasks := (tasks c)(i \<mapsto> Holding op now (fs @ [None]) rest)\<rparr>)"
| unlock: "tasks c i = Some (Holding op now fs (Done r)) \<Longrightarrow>
    calm_step c (c\<lparr>write_lock := None, tasks := (tasks c)(i \<mapsto> Finished op r),
      history := history c @ [(op, now, fs)]\<rparr>)"

lemma not_contended: "lock_inv db c \<Longrightarrow> tasks c i = Some (Holding op now fs p) \<Longrightarrow> \<not> contended c i"
  unfolding contended_def using lock_inv_holding(1) [of db c] by (metis option.inject)

lemma test_step_calm:
  assumes "lock_inv db c" and "test_step c c'"
  shows "calm_step c c'"
proof -
  have lock: "lock_step c c'" and dom: "dom (tasks c') = dom (tasks c)" and fails: "fails_when_contended c c'"
    using assms(2) by (simp_all add: test_step_def)
  from lock show ?thesis
  proof (cases rule: lock_step.cases)
    case (call_fails i op now fs f e)
    then have "contended c i" using fails unfolding fails_when_contended_def by fastforce
    then show ?thesis using not_contended [OF assms(1) call_fails(2)] by blast
  qed (use dom in \<open>auto intro: calm_step.intros\<close>)
qed

lemma calm_step_test: "calm_step c c' \<Longrightarrow> test_step c c'"
  by (induction rule: calm_step.induct)
    (auto simp: test_step_def fails_when_contended_def intro: lock_step.intros split: if_splits)

lemma calm_step_inv: "calm_step c c' \<Longrightarrow> test_inv c \<Longrightarrow> test_inv c'"
proof (induction rule: calm_step.induct)
  case (lock c i op now)
  have "test_task i (Waiting op)" by (rule test_invD [OF lock(3,1)])
  with lock show ?case by (intro test_inv_update [OF lock(3,1)]) (simp_all add: clean_def)
next
  case (call c i op now fs f db rest)
  have "test_task i (Holding op now fs (Call f))" by (rule test_invD [OF call(3,1)])
  with call show ?case by (intro test_inv_update [OF call(3,1)]) (simp_all add: clean_def)
next
  case (unlock c i op now fs r)
  have "test_task i (Holding op now fs (Done r))" by (rule test_invD [OF unlock(2,1)])
  moreover have "is_finished (Some (Finished op r))" by simp
  ultimately show ?case by (intro test_inv_update [OF unlock(2,1), where t' = "Finished op r"]) (use unlock in auto)
qed

lemma test_step_busy: "test_step c c' \<Longrightarrow> busy_step c c'"
  by (simp add: busy_step_def test_step_def)

lemma test_step_lock: "test_step c c' \<Longrightarrow> lock_step c c'"
  by (simp add: test_step_def)

lemma spawned_reachable: "lock_step\<^sup>*\<^sup>* (opened_conf empty_tables) spawned"
proof -
  let ?c = "\<lambda>n. (opened_conf empty_tables)\<lparr>tasks := (\<lambda>i. if i < n then Some (Waiting (concurrent_publish i)) else None)\<rparr>"
  have "lock_step (?c n) (?c (Suc n))" for n
  proof -
    have "?c (Suc n) = (?c n)\<lparr>tasks := (tasks (?c n))(n \<mapsto> Waiting (concurrent_publish n))\<rparr>"
      by (auto simp: fun_eq_iff less_Suc_eq)
    then show ?thesis using lock_step.arrive [of "?c n" n "concurrent_publish n"] by simp
  qed
  then have "lock_step\<^sup>*\<^sup>* (?c 0) (?c n)" for n by (induction n) (auto intro: rtranclp.rtrancl_into_rtrancl)
  from this [of 16] show ?thesis by (simp add: spawned_def opened_conf_def)
qed

lemma test_run:
  assumes "test_step\<^sup>*\<^sup>* spawned c"
  shows "test_inv c" and "lock_step\<^sup>*\<^sup>* (opened_conf empty_tables) c"
proof -
  have "test_history spawned []" by (simp add: test_history_def spawned_def opened_conf_def publishes_def)
  then have "test_inv spawned" by (auto simp: test_inv_def spawned_def split: if_splits)
  with assms have "test_inv c \<and> lock_step\<^sup>*\<^sup>* (opened_conf empty_tables) c"
  proof (induction rule: rtranclp_induct)
    case base
    then show ?case using spawned_reachable by blast
  next
    case (step c c')
    then have "calm_step c c'" using test_step_calm [OF run_inv] by blast
    then show ?case using step calm_step_inv test_step_lock by (meson rtranclp.rtrancl_into_rtrancl)
  qed
  then show "test_inv c" and "lock_step\<^sup>*\<^sup>* (opened_conf empty_tables) c" by blast+
qed

lemma test_finished_ok:
  assumes "test_step\<^sup>*\<^sup>* spawned c" and "tasks c i = Some (Finished op r)"
  shows "r = Inr (Flag True)"
proof -
  obtain H where H: "test_history c H" using test_run(1) [OF assms(1)] by (auto simp: test_inv_def)
  from lock_inv_finished [OF run_inv [OF test_run(2) [OF assms(1)]] assms(2)]
  obtain h now fs h' where split: "publishes H = h @ (op, now, fs) # h'"
    and r: "r = fst (run_op op \<lparr>pool = serial h empty_tables, clock = now, faults = fs\<rparr>)"
    using H unfolding serial_result_def test_history_def by metis
  then obtain H1 j H2 where parts: "H = H1 @ (j, now, fs) # H2" "h = publishes H1" "op = concurrent_publish j"
    unfolding publishes_def by (auto simp: map_eq_append_conv map_eq_Cons_conv)
  have "sql_select_account (account_name j) (serial h empty_tables) = None" unfolding parts(2)
    by (rule serial_publishes) (use H parts(1) in \<open>auto simp: test_history_def sql_select_account_def empty_tables_def\<close>)
  then have "\<not> holds_lamport (account_name j) 1 (serial h empty_tables)" by (simp add: holds_lamport_def)
  moreover have "clean fs" using H parts(1) by (simp add: test_history_def)
  ultimately show ?thesis unfolding r parts(3) concurrent_publish_def by (simp add: run_publish_clean)
qed

lemma test_step_possible:
  assumes "test_step\<^sup>*\<^sup>* spawned c" and "i < 16" and "\<not> is_finished (tasks c i)"
  shows "\<exists>c'. test_step c c'"
proof -
  have holder: "\<exists>c'. test_step c c'" if "tasks c j = Some (Holding op now fs p)" for j op now fs p
    using that calm_step.unlock [of c j op now fs] calm_step.call [of c j op now fs] calm_step_test
    by (cases p) (blast, metis surj_pair)
  show ?thesis
  proof (cases "write_lock c")
    case None
    obtain t where "tasks c i = Some t" using test_run(1) [OF assms(1)] assms(2) by (auto simp: test_inv_def)
    then show ?thesis using assms(3) None holder calm_step_test [OF calm_step.lock [of c i _ 0]] by (cases t) (blast+, simp)
  next
    case (Some j)
    then show ?thesis using lock_inv_owner [OF run_inv [OF test_run(2) [OF assms(1)]]] holder by blast
  qed
qed

text \<open>
  C30. The concurrent unit test passes under every schedule: sixteen tasks publish for sixteen accounts, taking the write
  lock first, and their database calls may interleave in any order, at any instants. No call ever meets
  \<open>SQLITE_BUSY\<close>, though the driver may fail a call whenever another task is in the middle of its own: every task that
  returns has stored its bundle, the test is never stuck before all have returned, and it takes at most ninety-six steps.
\<close>

theorem concurrent_account_publishes_succeed:
  assumes "(test_step ^^ n) spawned c"
  shows "n \<le> 96 \<and>
     (\<forall>index op now fs p. tasks c index = Some (Holding op now fs p) \<longrightarrow> set fs \<subseteq> {None}) \<and>
     (\<forall>index op r. tasks c index = Some (Finished op r) \<longrightarrow> r = Inr (Flag True)) \<and>
     ((\<forall>index < 16. \<exists>op r. tasks c index = Some (Finished op r)) \<or> (\<exists>c'. test_step c c'))"
proof (intro conjI)
  have run: "test_step\<^sup>*\<^sup>* spawned c" using assms by (meson relpowp_imp_rtranclp)
  have writes: "store_writes sample_log spawned"
    by (auto simp: store_writes_def pending_def spawned_def concurrent_publish_def split: if_splits intro: store_write.intros)
  have unfinished: "unfinished spawned = {..<16}"
    by (auto simp: unfinished_def pending_def spawned_def split: if_splits)
  have "(busy_step ^^ n) spawned c" using relpowp_mono [of test_step busy_step] test_step_busy assms by blast
  from busy_steps_bound [OF spawned_reachable writes finite_tasks [OF spawned_reachable] order_refl this]
  show "n \<le> 96" using steps_left_unfinished [OF spawned_reachable writes] unfinished by simp
  show "\<forall>index op now fs p. tasks c index = Some (Holding op now fs p) \<longrightarrow> set fs \<subseteq> {None}"
  proof (intro allI impI)
    fix index op now fs p assume "tasks c index = Some (Holding op now fs p)"
    from test_invD [OF test_run(1) [OF run] this] show "set fs \<subseteq> {None}" by (simp add: clean_def)
  qed
  show "\<forall>index op r. tasks c index = Some (Finished op r) \<longrightarrow> r = Inr (Flag True)" by (intro allI impI) (rule test_finished_ok [OF run])
  show "(\<forall>index < 16. \<exists>op r. tasks c index = Some (Finished op r)) \<or> (\<exists>c'. test_step c c')"
    using test_step_possible [OF run] is_finished_iff by blast
qed

text \<open>A whole run of the test: all sixteen tasks return, with their bundles stored.\<close>

theorem concurrent_account_publishes_succeed_witness:
  "\<exists>n c. n \<le> 96 \<and> (test_step ^^ n) spawned c \<and> (\<forall>index < 16. \<exists>op. tasks c index = Some (Finished op (Inr (Flag True))))"
proof -
  have "\<forall>n c. (test_step ^^ n) spawned c \<longrightarrow> n \<le> 96"
    by (intro allI impI) (erule concurrent_account_publishes_succeed [THEN conjunct1])
  from bounded_runs_end [OF this] obtain n c where c: "(test_step ^^ n) spawned c" and last: "\<not> (\<exists>c'. test_step c c')"
    by blast
  note passed = concurrent_account_publishes_succeed [OF c]
  have "\<exists>op. tasks c index = Some (Finished op (Inr (Flag True)))" if index: "index < 16" for index
  proof -
    obtain op r where fin: "tasks c index = Some (Finished op r)"
      using passed [THEN conjunct2, THEN conjunct2, THEN conjunct2] last index by blast
    from passed [THEN conjunct2, THEN conjunct2, THEN conjunct1, rule_format, OF fin] fin show ?thesis by blast
  qed
  with c passed [THEN conjunct1] show ?thesis by blast
qed

end
