(* ===== verification/Smoke_Test.thy ===== *)
theory Smoke_Test
  imports Benchmark
begin

text \<open>
  The smoke-test client of \<open>examples/smoke_test.rs\<close>: the two tests with what they print, and the keys
  they derive from the time. The theorem is the expected output of \<open>README.md\<close>, line by line,
  against the service. Client and signer are those of theory \<open>Benchmark\<close>.
\<close>

section \<open>Output\<close>

text \<open>The state of a test: the store behind the server, and the lines printed so far.\<close>

type_synonym session = "store \<times> string list"

definition sending :: "client \<Rightarrow> http_call \<Rightarrow> (session, anyhow, response) eff" where
  "sending cl call = (\<lambda>(s, out). case send cl call s of (r, t) \<Rightarrow> (r, (t, out)))"

definition println :: "string \<Rightarrow> (session, anyhow, unit) eff" where
  "println line = (\<lambda>(s, out). (Inr (), (s, out @ [line])))"

definition print_status :: "client \<Rightarrow> string \<Rightarrow> string \<Rightarrow> response \<Rightarrow> string" where
  "print_status cl what expected resp =
     what @ '' -> '' @ status_text cl (resp_status resp) @ '' (expect '' @ expected @ '')''"

section \<open>Keys and tests\<close>

text \<open>The client has its own copy of the domain prefix.\<close>

definition ACCOUNT_BUNDLE_DOMAIN :: bytes where
  "ACCOUNT_BUNDLE_DOMAIN = map of_char ''libchat:account-device-bundle'' @ [0]"

text \<open>
  The seed mixes the nanoseconds since the epoch, a \<open>u128\<close> in sixteen little-endian bytes, with a salt
  and the position.
\<close>

definition smoke_key :: "nat \<Rightarrow> u8 \<Rightarrow> bytes" where
  "smoke_key nanos salt =
     (let bytes = le_digits 16 nanos in
      map (\<lambda>i. xor (xor (bytes ! (i mod 16)) salt) (of_nat i)) [0..<32])"

text \<open>The opaque payload: an empty timestamp and some bytes.\<close>

definition hello_payload :: bytes where
  "hello_payload = to_le_bytes 0 @ map of_char ''hello-keypackage''"

definition test_keypackage :: "client \<Rightarrow> deps \<Rightarrow> signer \<Rightarrow> nat \<Rightarrow> (session, anyhow, unit) eff" where
  "test_keypackage cl d sg nanos =
     (let key = smoke_key nanos 1;
          device_id = pub_hex d sg key;
          payload = hello_payload in
     try_await (sending cl (PostKeyPackage
       \<lparr>kpr_device_id = device_id, kpr_payload = b64_encode d payload,
        kpr_signature = b64_encode d (sign sg key payload)\<rparr>)) (\<lambda>resp.
     try_await (println (print_status cl ''POST /v0/keypackage       '' ''204'' resp)) (\<lambda>_.
     try_await (sending cl (GetKeyPackage device_id)) (\<lambda>resp.
     println (print_status cl ''GET  /v0/keypackage/<id>  '' ''200'' resp @ '' '' @ body_text cl (resp_body resp))))))"

definition test_account :: "client \<Rightarrow> deps \<Rightarrow> signer \<Rightarrow> nat \<Rightarrow> (session, anyhow, unit) eff" where
  "test_account cl d sg nanos =
     (let key = smoke_key nanos 2;
          account_pub = pub_hex d sg key;
          payload = ACCOUNT_BUNDLE_DOMAIN @ [1] @ to_le_bytes 1;
          body = \<lparr>acr_account_pub = account_pub, acr_payload = b64_encode d payload,
                  acr_signature = b64_encode d (sign sg key payload)\<rparr> in
     try_await (sending cl (PostAccount body)) (\<lambda>resp.
     try_await (println (print_status cl ''POST /v0/account          '' ''204'' resp)) (\<lambda>_.
     try_await (sending cl (GetAccount account_pub)) (\<lambda>resp.
     try_await (println (print_status cl ''GET  /v0/account/<id>     '' ''200'' resp @ '' '' @
       body_text cl (resp_body resp))) (\<lambda>_.
     try_await (sending cl (PostAccount body)) (\<lambda>resp.
     println (print_status cl ''POST /v0/account (replay) '' ''409'' resp)))))))"

text \<open>The target: the first argument after the program's name, without trailing slashes.\<close>

definition base_url :: "string list \<Rightarrow> string" where
  "base_url args =
     (let base = (case drop 1 args of [] \<Rightarrow> ''http://127.0.0.1:8080'' | a # _ \<Rightarrow> a) in
      rev (dropWhile (\<lambda>c. c = CHR ''/'') (rev base)))"

text \<open>\<open>main\<close>, at the two instants its tests read for their keys.\<close>

definition smoke_main ::
  "client \<Rightarrow> deps \<Rightarrow> signer \<Rightarrow> string list \<Rightarrow> nat \<Rightarrow> nat \<Rightarrow> (session, anyhow, unit) eff" where
  "smoke_main cl d sg args nanos nanos' =
     (let base = base_url args in
     try_await (println (''Testing chat-store at '' @ base)) (\<lambda>_.
     try_await (test_keypackage cl d sg nanos) (\<lambda>_.
     test_account cl d sg nanos')))"

section \<open>Against the service\<close>

lemma smoke_account_payload: "ACCOUNT_BUNDLE_DOMAIN @ 1 # to_le_bytes 1 = payload_with_lamport 1"
  by (simp add: ACCOUNT_BUNDLE_DOMAIN_def payload_with_lamport_def account_header_def BUNDLE_DOMAIN_def)

lemma run_println: "println line (s, out) = (Inr (), (s, out @ [line]))"
  by (simp add: println_def)

lemma run_sending: "send cl call s = (r, t) \<Longrightarrow> sending cl call (s, out) = (r, (t, out))"
  by (simp add: sending_def)

context loopback
begin

lemma keypackage_test_prints:
  assumes "store_wf s" and "\<forall>r \<in> set (keypackages (pool s)). kp_device_id r \<noteq> pub_hex d sg (smoke_key nanos 1)"
  obtains t shown where "test_keypackage cl d sg nanos (s, out) = (Inr (), (t, out @
      [''POST /v0/keypackage        -> '' @ status_text cl NO_CONTENT @ '' (expect 204)'',
       ''GET  /v0/keypackage/<id>   -> '' @ status_text cl OK @ '' (expect 200) '' @ shown]))"
    and "account_bundles (pool t) = account_bundles (pool s)"
proof -
  let ?key = "smoke_key nanos 1" and ?p = hello_payload
  obtain db r where ins: "sql_insert_keypackage (pub_hex d sg ?key) (stamp_ms (clock s + dt)) ?p (sign sg ?key ?p) (pool s) = Some db"
    and row: "sql_latest_keypackage (pub_hex d sg ?key) db = Some r"
    by (rule insert_latest [OF assms(1), of "pub_hex d sg ?key"]) (use assms(2) in auto)
  have accounts: "account_bundles db = account_bundles (pool s)"
    using ins by (auto simp: sql_insert_keypackage_def split: if_splits)
  note post = run_sending [OF post_keypackage_stored [OF ins]]
  note get = run_sending [OF get_keypackage_found [of _ "(later s)\<lparr>pool := db\<rparr>", simplified, OF row]]
  show thesis
    by (rule that [of "later ((later s)\<lparr>pool := db\<rparr>)" "body_text cl (KeyPackageBody
        \<lparr>fkp_payload = b64_encode d (kp_payload r), fkp_signature = b64_encode d (kp_signature r)\<rparr>)"])
      (simp_all add: test_keypackage_def Let_def try_await_def post get run_println print_status_def
        status_only_def accounts)
qed

lemma account_test_prints:
  assumes "sql_select_account (pub_hex d sg (smoke_key nanos 2)) (pool s) = None"
  obtains t shown where "test_account cl d sg nanos (s, out) = (Inr (), (t, out @
      [''POST /v0/account           -> '' @ status_text cl NO_CONTENT @ '' (expect 204)'',
       ''GET  /v0/account/<id>      -> '' @ status_text cl OK @ '' (expect 200) '' @ shown,
       ''POST /v0/account (replay)  -> '' @ status_text cl CONFLICT @ '' (expect 409)'']))"
proof -
  let ?key = "smoke_key nanos 2" and ?p = "payload_with_lamport 1"
  let ?k = "pub_hex d sg ?key"
  define s1 where "s1 = (later s)\<lparr>pool := sql_upsert_account ?k (stamp_ms (clock s + dt)) ?p (sign sg ?key ?p) (pool s)\<rparr>"
  have fresh: "\<not> holds_lamport ?k 1 (pool s)" using assms by (simp add: holds_lamport_def)
  note post = run_sending [OF post_account_stored [OF payload_lamport_with fresh], folded s1_def, unfolded account_post_def]
  have row: "sql_select_account ?k (pool s1) = Some \<lparr>ab_account_pub = ?k, ab_updated_at = stamp_ms (clock s + dt),
      ab_payload = ?p, ab_signature = sign sg ?key ?p\<rparr>" by (simp add: s1_def)
  have stale: "holds_lamport ?k 1 (pool (later s1))" by (simp add: s1_def)
  note get = run_sending [OF get_account_found [OF row]]
  note replay = run_sending [OF post_account_stale [OF payload_lamport_with stale], unfolded account_post_def]
  show thesis
    by (rule that [of "later (later s1)" "body_text cl (AccountBody \<lparr>fac_payload = b64_encode d ?p,
        fac_signature = b64_encode d (sign sg ?key ?p), fac_updated_at = stamp_ms (clock s + dt)\<rparr>)"])
      (simp add: test_account_def smoke_account_payload Let_def try_await_def post get replay run_println
        print_status_def status_only_def stale_status)
qed

end

text \<open>
  C20. The expected output of the smoke test: against the service, from any store without rows of its two
  keys, the test prints the five lines \<open>README.md\<close> lists, with the statuses 204, 200, 204, 200 and 409.
\<close>

theorem smoke_test_prints_expected:
  assumes "connected cl d api dt" and "hex_laws d" and "base64_laws d" and "signer_laws d sg" and "store_wf s"
    and "\<forall>r \<in> set (keypackages (pool s)). kp_device_id r \<noteq> pub_hex d sg (smoke_key nanos 1)"
    and "sql_select_account (pub_hex d sg (smoke_key nanos' 2)) (pool s) = None"
  shows "\<exists>t kp acct. smoke_main cl d sg args nanos nanos' (s, []) = (Inr (), (t,
     [''Testing chat-store at '' @ base_url args,
      ''POST /v0/keypackage        -> '' @ status_text cl NO_CONTENT @ '' (expect 204)'',
      ''GET  /v0/keypackage/<id>   -> '' @ status_text cl OK @ '' (expect 200) '' @ kp,
      ''POST /v0/account           -> '' @ status_text cl NO_CONTENT @ '' (expect 204)'',
      ''GET  /v0/account/<id>      -> '' @ status_text cl OK @ '' (expect 200) '' @ acct,
      ''POST /v0/account (replay)  -> '' @ status_text cl CONFLICT @ '' (expect 409)'']))"
proof -
  let ?l0 = "''Testing chat-store at '' @ base_url args"
  have loop: "loopback cl d sg api dt" using assms(1-4) by (rule loopback.intro)
  obtain t kp where first: "test_keypackage cl d sg nanos (s, [] @ [?l0]) = (Inr (), (t, ([] @ [?l0]) @
      [''POST /v0/keypackage        -> '' @ status_text cl NO_CONTENT @ '' (expect 204)'',
       ''GET  /v0/keypackage/<id>   -> '' @ status_text cl OK @ '' (expect 200) '' @ kp]))"
      (is "_ = (_, (_, ?out))")
    and "account_bundles (pool t) = account_bundles (pool s)"
    by (rule loopback.keypackage_test_prints [OF loop assms(5,6)])
  then have "sql_select_account (pub_hex d sg (smoke_key nanos' 2)) (pool t) = None"
    using assms(7) by (simp only: sql_select_account_def)
  then obtain t' acct where second: "test_account cl d sg nanos' (t, ?out) = (Inr (), (t', ?out @
      [''POST /v0/account           -> '' @ status_text cl NO_CONTENT @ '' (expect 204)'',
       ''GET  /v0/account/<id>      -> '' @ status_text cl OK @ '' (expect 200) '' @ acct,
       ''POST /v0/account (replay)  -> '' @ status_text cl CONFLICT @ '' (expect 409)'']))"
    by (rule loopback.account_test_prints [OF loop])
  show ?thesis
    unfolding smoke_main_def Let_def try_await_def run_println prod.case sum.case first second
    by (intro exI) (simp only: append.simps)
qed

theorem smoke_test_prints_expected_witness:
  "\<exists>t kp acct. smoke_main (sample_client 1000000) sample_deps sample_signer [] 5 9 (fresh_store 0, []) = (Inr (), (t,
     [''Testing chat-store at http://127.0.0.1:8080'',
      ''POST /v0/keypackage        -> '' @ status_text (sample_client 1000000) NO_CONTENT @ '' (expect 204)'',
      ''GET  /v0/keypackage/<id>   -> '' @ status_text (sample_client 1000000) OK @ '' (expect 200) '' @ kp,
      ''POST /v0/account           -> '' @ status_text (sample_client 1000000) NO_CONTENT @ '' (expect 204)'',
      ''GET  /v0/account/<id>      -> '' @ status_text (sample_client 1000000) OK @ '' (expect 200) '' @ acct,
      ''POST /v0/account (replay)  -> '' @ status_text (sample_client 1000000) CONFLICT @ '' (expect 409)'']))"
proof -
  have base: "''Testing chat-store at '' @ base_url [] = ''Testing chat-store at http://127.0.0.1:8080''"
    by (simp add: base_url_def)
  show ?thesis
    by (rule smoke_test_prints_expected [where args = "[]", unfolded base, OF sample_loopback.connected
          sample_loopback.hex sample_loopback.base64 sample_loopback.signer])
      (simp_all add: store_wf_def empty_tables_def tables_wf_defs sql_select_account_def)
qed

end
