(* ===== verification/Delivery_Smoke.thy ===== *)
theory Delivery_Smoke
  imports Delivery Smoke_Test Polling
begin

text \<open>
  The smoke test of the network write path, \<open>examples/delivery_smoke_test.rs\<close>: it publishes a keypackage and an
  account bundle on the topics the service subscribes to, and polls the HTTP interface until both are stored.
  The publishing node, the protobuf encoders and what the polls meet are parameters. The theorem runs the test
  against the ingestion of theory \<open>Delivery\<close> and the handlers of the service.
\<close>

section \<open>Definitions\<close>

text \<open>The client's own copies of the two topics.\<close>

definition KEYPACKAGE_TOPIC :: string where
  "KEYPACKAGE_TOPIC = ''/logos-chat/1/store-keypackage-v0/proto''"

definition ACCOUNT_TOPIC :: string where
  "ACCOUNT_TOPIC = ''/logos-chat/1/store-account-v0/proto''"

record publisher =
  start_node :: "string + unit"
  publish_on :: "string \<Rightarrow> bytes \<Rightarrow> string + unit"

record encoders =
  encode_kps :: "key_package_submission \<Rightarrow> bytes"
  encode_acs :: "account_submission \<Rightarrow> bytes"

text \<open>The state of the test: the messages published and the lines printed.\<close>

record smoke =
  sent :: "(string \<times> bytes) list"
  printed :: "string list"

definition print_line :: "string \<Rightarrow> (smoke, anyhow, unit) eff" where
  "print_line line = (\<lambda>x. (Inr (), x\<lparr>printed := printed x @ [line]\<rparr>))"

definition derived_key :: "u64 \<Rightarrow> u8 \<Rightarrow> bytes" where
  "derived_key seed_ms salt = to_le_bytes seed_ms @ drop 8 (replicate 32 salt)"

definition publish :: "publisher \<Rightarrow> string \<Rightarrow> bytes \<Rightarrow> (smoke, anyhow, unit) eff" where
  "publish pn topic submission = (\<lambda>x.
     case publish_on pn topic submission of
       Inl e \<Rightarrow> (Inl (AnyMsg (''publish on '' @ topic @ '': '' @ e)), x)
     | Inr _ \<Rightarrow> (Inr (), x\<lparr>sent := sent x @ [(topic, submission)]\<rparr>))"

definition smoke_kp_payload :: "u64 \<Rightarrow> bytes" where
  "smoke_kp_payload seed_ms = to_le_bytes seed_ms @ map of_char ''delivery-smoke-keypackage''"

definition smoke_acct_payload :: bytes where
  "smoke_acct_payload = ACCOUNT_BUNDLE_DOMAIN @ [1] @ to_le_bytes 1 @ map of_char ''delivery-smoke-devices''"

definition smoke_keypackage :: "signer \<Rightarrow> u64 \<Rightarrow> key_package_submission" where
  "smoke_keypackage sg seed_ms =
     (let device_key = derived_key seed_ms 1; payload = smoke_kp_payload seed_ms in
      \<lparr>kps_device_id = verifying_key sg device_key, kps_payload = payload, kps_signature = sign sg device_key payload\<rparr>)"

definition smoke_account :: "signer \<Rightarrow> u64 \<Rightarrow> account_submission" where
  "smoke_account sg seed_ms =
     (let account_key = derived_key seed_ms 2; payload = smoke_acct_payload in
      \<lparr>acs_account_pub = verifying_key sg account_key, acs_payload = payload, acs_signature = sign sg account_key payload\<rparr>)"

text \<open>\<open>main\<close>, with the instant that seeds the keys and the attempts the two polls make.\<close>

definition delivery_smoke_main ::
  "display \<Rightarrow> publisher \<Rightarrow> encoders \<Rightarrow> deps \<Rightarrow> signer \<Rightarrow> string list \<Rightarrow> system_time \<Rightarrow>
   (nat \<Rightarrow> attempt) \<Rightarrow> (nat \<Rightarrow> attempt) \<Rightarrow> (smoke, anyhow, unit) eff" where
  "delivery_smoke_main ds pn w d sg args now kp_attempts acct_attempts =
     (let base = base_url args in
     try_await (print_line ''Starting logos-delivery publisher node (this takes a few seconds)...'') (\<lambda>_.
     try_await (lift_result (case start_node pn of
         Inl e \<Rightarrow> Inl (AnyMsg (''start logos-delivery node: '' @ e)) | Inr _ \<Rightarrow> Inr ())) (\<lambda>_.
     let seed_ms = now_ms now;
         device_id = pub_hex d sg (derived_key seed_ms 1);
         account_pub = pub_hex d sg (derived_key seed_ms 2) in
     try_await (publish pn KEYPACKAGE_TOPIC (encode_kps w (smoke_keypackage sg seed_ms))) (\<lambda>_.
     try_await (print_line (''published keypackage submission on '' @ KEYPACKAGE_TOPIC)) (\<lambda>_.
     try_await (publish pn ACCOUNT_TOPIC (encode_acs w (smoke_account sg seed_ms))) (\<lambda>_.
     try_await (print_line (''published account submission on '' @ ACCOUNT_TOPIC)) (\<lambda>_.
     try_await (lift_result (fst (poll_until_stored ds (base @ ''/v0/keypackage/'' @ device_id) ''keypackage'' kp_attempts 0))) (\<lambda>line.
     try_await (print_line line) (\<lambda>_.
     try_await (lift_result (fst (poll_until_stored ds (base @ ''/v0/account/'' @ account_pub) ''account'' acct_attempts 0))) (\<lambda>line.
     try_await (print_line line) (\<lambda>_.
     print_line ''delivery smoke test passed'')))))))))))"

section \<open>Polls that are answered in time\<close>

text \<open>The earliest an attempt can begin, on the clock of the poll.\<close>

definition begins_at :: "(nat \<Rightarrow> attempt) \<Rightarrow> nat \<Rightarrow> nat" where
  "begins_at attempts n = (\<Sum>i < n. took (attempts i) + from_seconds 2 + overslept (attempts i))"

text \<open>The line a poll prints when an attempt was answered with a success.\<close>

definition found_line :: "display \<Rightarrow> string \<Rightarrow> string \<Rightarrow> string \<Rightarrow> bool" where
  "found_line ds url what line \<longleftrightarrow>
     (\<exists>code elapsed. is_success code \<and> line = ''GET '' @ url @ '' -> '' @ show_status ds code @ '' ('' @ what @ '' stored, '' @
        show_duration ds elapsed @ '')'')"

lemma poll_loop_found:
  assumes "outcome (attempts (i + n)) = Inr resp" and "is_success (resp_status resp)"
    and "\<forall>j < n. \<exists>r. outcome (attempts (i + j)) = Inr r"
    and "now + (\<Sum>j < n. took (attempts (i + j)) + from_seconds 2 + overslept (attempts (i + j))) \<le> started + POLL_BUDGET"
  shows "\<exists>line. fst (poll_loop ds url what attempts started i now) = Inr line \<and> found_line ds url what line"
  using assms
proof (induction n arbitrary: i now)
  case 0
  then show ?case by (auto simp: poll_loop.simps [of ds url what attempts started i now] Let_def found_line_def)
next
  case (Suc n)
  let ?now = "now + took (attempts i)"
  let ?next = "?now + from_seconds 2 + overslept (attempts i)"
  obtain r where r: "outcome (attempts i) = Inr r" using Suc.prems(3) by force
  have "?next + (\<Sum>j < n. took (attempts (Suc i + j)) + from_seconds 2 + overslept (attempts (Suc i + j))) \<le> started + POLL_BUDGET"
    using Suc.prems(4) by (simp add: sum.lessThan_Suc_shift del: sum.lessThan_Suc)
  moreover from this have "\<not> ?now - started > POLL_BUDGET" by linarith
  moreover have "\<forall>j < n. \<exists>r. outcome (attempts (Suc i + j)) = Inr r" using Suc.prems(3) by auto
  ultimately show ?case
    using Suc.IH [of "Suc i" ?next] Suc.prems(1,2) r
    by (auto simp: poll_loop.simps [of ds url what attempts started i now] Let_def found_line_def)
qed

lemma poll_found:
  assumes "outcome (attempts n) = Inr resp" and "is_success (resp_status resp)"
    and "\<forall>j < n. \<exists>r. outcome (attempts j) = Inr r" and "begins_at attempts n \<le> POLL_BUDGET"
  shows "\<exists>line. fst (poll_until_stored ds url what attempts 0) = Inr line \<and> found_line ds url what line"
  using poll_loop_found [of attempts 0 n resp 0 0] assms by (simp add: poll_until_stored_def begins_at_def)

section \<open>What was published is ingested\<close>

text \<open>\<open>prost\<close>: a message decodes to the submission it was encoded from.\<close>

definition proto_laws :: "proto \<Rightarrow> encoders \<Rightarrow> bool" where
  "proto_laws pb w \<longleftrightarrow>
     (\<forall>x. decode_kps pb (encode_kps w x) = Inr x) \<and> (\<forall>x. decode_acs pb (encode_acs w x) = Inr x)"

text \<open>An event of the service's node that carries a published message.\<close>

definition carries :: "('ev, 'msg) node_api \<Rightarrow> 'ev \<Rightarrow> string \<times> bytes \<Rightarrow> bool" where
  "carries nd ev m \<longleftrightarrow>
     (\<exists>msg. into_received nd ev = Some msg \<and> content_topic nd msg = fst m \<and> into_payload nd msg = Some (snd m))"

definition smoke_messages :: "encoders \<Rightarrow> signer \<Rightarrow> u64 \<Rightarrow> (string \<times> bytes) list" where
  "smoke_messages w sg seed_ms =
     [(KEYPACKAGE_TOPIC, encode_kps w (smoke_keypackage sg seed_ms)), (ACCOUNT_TOPIC, encode_acs w (smoke_account sg seed_ms))]"

lemma topics_agree: "KEYPACKAGE_TOPIC = KEYPACKAGE_SUBMIT_TOPIC" "ACCOUNT_TOPIC = ACCOUNT_SUBMIT_TOPIC"
  by (simp_all add: KEYPACKAGE_TOPIC_def KEYPACKAGE_SUBMIT_TOPIC_def ACCOUNT_TOPIC_def ACCOUNT_SUBMIT_TOPIC_def)

lemma wrap_smoke:
  "carries nd ev (KEYPACKAGE_TOPIC, b) \<Longrightarrow> wrap_event nd ev = Some (KeyPackage b)"
  "carries nd ev (ACCOUNT_TOPIC, b) \<Longrightarrow> wrap_event nd ev = Some (Account b)"
  by (auto simp: carries_def wrap_event_Some_iff topics_agree)

lemma smoke_acct_lamport [simp]: "payload_lamport smoke_acct_payload = Some 1"
proof -
  have "smoke_acct_payload = account_header 1 1 @ map of_char ''delivery-smoke-devices''"
    by (simp only: smoke_acct_payload_def ACCOUNT_BUNDLE_DOMAIN_def account_header_def BUNDLE_DOMAIN_def append_assoc)
  then show ?thesis by (metis payload_lamport_header)
qed

context loopback
begin

lemma smoke_ingested:
  fixes now1 now2 :: system_time
  assumes "proto_laws pb w" and "store_wf s"
    and "\<forall>r \<in> set (keypackages (pool s)). kp_device_id r \<noteq> pub_hex d sg (derived_key seed 1)"
    and "sql_select_account (pub_hex d sg (derived_key seed 2)) (pool s) = None"
  defines "queue \<equiv> [((now1, []), KeyPackage (encode_kps w (smoke_keypackage sg seed))),
      ((now2, []), Account (encode_acs w (smoke_account sg seed)))]"
  shows "\<exists>r. sql_latest_keypackage (pub_hex d sg (derived_key seed 1)) (pool (snd (ingest_loop pb d api queue s))) = Some r \<and>
      kp_payload r = smoke_kp_payload seed"
    and "\<exists>r. sql_select_account (pub_hex d sg (derived_key seed 2)) (pool (snd (ingest_loop pb d api queue s))) = Some r \<and>
      ab_payload r = smoke_acct_payload"
proof -
  let ?dev = "derived_key seed 1" and ?acc = "derived_key seed 2" and ?p = "smoke_kp_payload seed" and ?q = smoke_acct_payload
  obtain db r where ins: "sql_insert_keypackage (pub_hex d sg ?dev) (stamp_ms now1) ?p (sign sg ?dev ?p) (pool s) = Some db"
    and row: "sql_latest_keypackage (pub_hex d sg ?dev) db = Some r" "kp_payload r = ?p"
    using insert_latest [OF assms(2)] assms(3) by metis
  have wire: "decode_kps pb (encode_kps w x) = Inr x" "decode_acs pb (encode_acs w y) = Inr y" for x y
    using assms(1) by (simp_all add: proto_laws_def)
  have q1: "quiet (at_instant (now, []) t)" for now t by (simp add: quiet_def)
  have first: "ingest_keypackage pb d api (encode_kps w (smoke_keypackage sg seed)) (at_instant (now1, []) s) =
      (Debug [(''device_id'', pub_hex d sg ?dev)] ''stored keypackage from delivery'', (at_instant (now1, []) s)\<lparr>pool := db\<rparr>)"
    using ins by (simp add: ingest_keypackage_def wire smoke_keypackage_def Let_def from_bytes_def apply_keypackage_quiet [OF q1]
        key_hex_def pub_hex_def)
  have none: "sql_select_account (pub_hex d sg ?acc) db = None"
    using ins assms(4) by (auto simp: sql_insert_keypackage_def sql_select_account_def split: if_splits)
  then have "\<not> holds_lamport (pub_hex d sg ?acc) 1 db" by (simp add: holds_lamport_def)
  then have second: "pool (snd (ingest_account pb d api (encode_acs w (smoke_account sg seed)) (at_instant (now2, []) t))) =
      sql_upsert_account (pub_hex d sg ?acc) (stamp_ms now2) ?q (sign sg ?acc ?q) db" if "pool t = db" for t
    using that by (simp add: ingest_account_def wire smoke_account_def Let_def from_bytes_def apply_account_quiet [OF q1]
        key_hex_def pub_hex_def)
  have final: "pool (snd (ingest_loop pb d api queue s)) = sql_upsert_account (pub_hex d sg ?acc) (stamp_ms now2) ?q (sign sg ?acc ?q) db"
    using second [of "(at_instant (now1, []) s)\<lparr>pool := db\<rparr>"]
    by (simp add: queue_def ingest_def first Let_def case_prod_beta)
  have same: "sql_latest_keypackage k (sql_upsert_account k' n q g db) = sql_latest_keypackage k db" for k k' n q g
    by (simp add: sql_latest_keypackage_def sql_upsert_account_def)
  show "\<exists>r. sql_latest_keypackage (pub_hex d sg ?dev) (pool (snd (ingest_loop pb d api queue s))) = Some r \<and> kp_payload r = ?p"
    unfolding final same using row by blast
  show "\<exists>r. sql_select_account (pub_hex d sg ?acc) (pool (snd (ingest_loop pb d api queue s))) = Some r \<and> ab_payload r = ?q"
    unfolding final by simp
qed

end

section \<open>The test passes\<close>

text \<open>A poll of the service after the bundle was stored, in time; before that it was answered somehow.\<close>

definition polls_service :: "('a, 's, 'r) account_log_api \<Rightarrow> deps \<Rightarrow> store \<Rightarrow> http_call \<Rightarrow> (nat \<Rightarrow> attempt) \<Rightarrow> bool" where
  "polls_service api d t call attempts \<longleftrightarrow>
     (\<exists>n. outcome (attempts n) = fst (loopback_send d api 0 call t) \<and> begins_at attempts n \<le> POLL_BUDGET \<and>
        (\<forall>j < n. \<exists>r. outcome (attempts j) = Inr r))"

lemma polls_service_found:
  assumes "polls_service api d t call attempts" and "fst (loopback_send d api 0 call t) = Inr resp" and "resp_status resp = OK"
  shows "\<exists>line. fst (poll_until_stored ds url what attempts 0) = Inr line \<and> found_line ds url what line"
proof -
  obtain n where "outcome (attempts n) = Inr resp" "begins_at attempts n \<le> POLL_BUDGET" "\<forall>j < n. \<exists>r. outcome (attempts j) = Inr r"
    using assms(1,2) by (auto simp: polls_service_def)
  then show ?thesis using poll_found assms(3) by (simp add: is_success_def)
qed

lemma smoke_main_run:
  assumes "start_node pn = Inr ()" and "\<And>topic b. publish_on pn topic b = Inr ()"
    and "fst (poll_until_stored ds (base_url args @ ''/v0/keypackage/'' @ pub_hex d sg (derived_key (now_ms now) 1)) ''keypackage'' kp 0) = Inr l1"
    and "fst (poll_until_stored ds (base_url args @ ''/v0/account/'' @ pub_hex d sg (derived_key (now_ms now) 2)) ''account'' acct 0) = Inr l2"
  shows "delivery_smoke_main ds pn w d sg args now kp acct \<lparr>sent = [], printed = []\<rparr> =
     (Inr (), \<lparr>sent = smoke_messages w sg (now_ms now), printed =
       [''Starting logos-delivery publisher node (this takes a few seconds)...'',
        ''published keypackage submission on '' @ KEYPACKAGE_TOPIC, ''published account submission on '' @ ACCOUNT_TOPIC,
        l1, l2, ''delivery smoke test passed'']\<rparr>)"
  unfolding delivery_smoke_main_def Let_def assms(1,3,4)
  by (simp add: try_await_def lift_result_def print_line_def publish_def assms(2) smoke_messages_def)

text \<open>
  C19. The network smoke test passes against the service. Where the publisher works, the messages published are
  ones the service's node picks up by topic and its ingest loop stores, so that when both polls ask the service
  within their budget after that, both are answered with a success and the test prints, in this order, that it starts its
  node, the topics it published on, for each poll the address asked, the success status and the time it took, and that it
  passed. The keys of the test must be new to the store; nothing is assumed of the clocks.
\<close>

theorem delivery_smoke_test_passes:
  assumes "hex_laws d" and "base64_laws d" and "signer_laws d sg" and "proto_laws pb w"
    and "start_node pn = Inr ()" and "\<forall>topic b. publish_on pn topic b = Inr ()"
    and "store_wf s" and "\<forall>r \<in> set (keypackages (pool s)). kp_device_id r \<noteq> pub_hex d sg (derived_key (now_ms now) 1)"
    and "sql_select_account (pub_hex d sg (derived_key (now_ms now) 2)) (pool s) = None"
    and "list_all2 (carries nd) [ev1, ev2] (smoke_messages w sg (now_ms now))"
    and "t = snd (ingest_loop pb d api (zip [(now1, []), (now2, [])] (List.map_filter (wrap_event nd) [ev1, ev2])) s)"
    and "polls_service api d t (GetKeyPackage (pub_hex d sg (derived_key (now_ms now) 1))) kp_attempts"
    and "polls_service api d t (GetAccount (pub_hex d sg (derived_key (now_ms now) 2))) acct_attempts"
  shows "\<exists>final. delivery_smoke_main ds pn w d sg args now kp_attempts acct_attempts \<lparr>sent = [], printed = []\<rparr> = (Inr (), final) \<and>
     sent final = smoke_messages w sg (now_ms now) \<and>
     (\<exists>kp_line acct_line.
        printed final = [''Starting logos-delivery publisher node (this takes a few seconds)...'',
          ''published keypackage submission on /logos-chat/1/store-keypackage-v0/proto'',
          ''published account submission on /logos-chat/1/store-account-v0/proto'', kp_line, acct_line, ''delivery smoke test passed''] \<and>
        found_line ds (base_url args @ ''/v0/keypackage/'' @ pub_hex d sg (derived_key (now_ms now) 1)) ''keypackage'' kp_line \<and>
        found_line ds (base_url args @ ''/v0/account/'' @ pub_hex d sg (derived_key (now_ms now) 2)) ''account'' acct_line)"
proof -
  let ?seed = "now_ms now"
  define cl where "cl = \<lparr>send = loopback_send d api 0, status_text = (\<lambda>_. []), body_text = (\<lambda>_. []),
      json_error = AnyMsg [], base64_error = AnyMsg [], signature_error = AnyMsg []\<rparr>"
  have loop: "loopback cl d sg api 0" using assms(1-3) by (intro loopback.intro) (simp_all add: connected_def cl_def)
  have send: "send cl = loopback_send d api 0" by (simp add: cl_def)
  have "wrap_event nd ev1 = Some (KeyPackage (encode_kps w (smoke_keypackage sg ?seed)))"
    and "wrap_event nd ev2 = Some (Account (encode_acs w (smoke_account sg ?seed)))"
    using assms(10) by (auto simp: smoke_messages_def dest: wrap_smoke)
  then have t: "t = snd (ingest_loop pb d api [((now1, []), KeyPackage (encode_kps w (smoke_keypackage sg ?seed))),
      ((now2, []), Account (encode_acs w (smoke_account sg ?seed)))] s)"
    using assms(11) by (simp add: List.map_filter_simps)
  note stored = loopback.smoke_ingested [OF loop assms(4,7-9), of now1 now2, folded t]
  from stored obtain r a where rows: "sql_latest_keypackage (pub_hex d sg (derived_key ?seed 1)) (pool t) = Some r"
    "sql_select_account (pub_hex d sg (derived_key ?seed 2)) (pool t) = Some a" by blast
  obtain l1 l2 where
    "fst (poll_until_stored ds (base_url args @ ''/v0/keypackage/'' @ pub_hex d sg (derived_key ?seed 1)) ''keypackage'' kp_attempts 0) = Inr l1"
    "fst (poll_until_stored ds (base_url args @ ''/v0/account/'' @ pub_hex d sg (derived_key ?seed 2)) ''account'' acct_attempts 0) = Inr l2"
    "found_line ds (base_url args @ ''/v0/keypackage/'' @ pub_hex d sg (derived_key ?seed 1)) ''keypackage'' l1"
    "found_line ds (base_url args @ ''/v0/account/'' @ pub_hex d sg (derived_key ?seed 2)) ''account'' l2"
    using polls_service_found [OF assms(12)] polls_service_found [OF assms(13)]
      loopback.get_keypackage_found [OF loop rows(1), unfolded send] loopback.get_account_found [OF loop rows(2), unfolded send]
    by (metis fst_conv response.select_convs(1))
  from smoke_main_run [OF assms(5) assms(6) [rule_format] this(1,2)] this(3,4) show ?thesis
    by (simp add: KEYPACKAGE_TOPIC_def ACCOUNT_TOPIC_def)
qed

text \<open>
  For the closed example: messages that put the lengths of key and payload before them, a node whose events are the
  messages themselves, and attempts that the service answers.
\<close>

definition join_fields :: "bytes \<Rightarrow> bytes \<Rightarrow> bytes \<Rightarrow> bytes" where
  "join_fields a b c = replicate (length a) 1 @ 0 # replicate (length b) 1 @ 0 # a @ b @ c"

definition split_fields :: "bytes \<Rightarrow> bytes \<times> bytes \<times> bytes" where
  "split_fields x =
     (let n = length (takeWhile (\<lambda>v. v = 1) x); y = drop (Suc n) x;
          m = length (takeWhile (\<lambda>v. v = 1) y); z = drop (Suc m) y
      in (take n z, take m (drop n z), drop (n + m) z))"

lemma split_join_fields: "split_fields (join_fields a b c) = (a, b, c)"
proof -
  have run: "takeWhile (\<lambda>v. v = 1) (replicate n 1 @ 0 # xs) = replicate n 1" for n and xs :: bytes
    by (induction n) simp_all
  show ?thesis by (simp add: split_fields_def join_fields_def run)
qed

definition field_encoders :: encoders where
  "field_encoders =
     \<lparr>encode_kps = (\<lambda>x. join_fields (kps_device_id x) (kps_payload x) (kps_signature x)),
      encode_acs = (\<lambda>x. join_fields (acs_account_pub x) (acs_payload x) (acs_signature x))\<rparr>"

definition field_proto :: proto where
  "field_proto =
     \<lparr>decode_kps = (\<lambda>x. case split_fields x of (a, b, c) \<Rightarrow> Inr \<lparr>kps_device_id = a, kps_payload = b, kps_signature = c\<rparr>),
      decode_acs = (\<lambda>x. case split_fields x of (a, b, c) \<Rightarrow> Inr \<lparr>acs_account_pub = a, acs_payload = b, acs_signature = c\<rparr>)\<rparr>"

lemma field_proto_laws: "proto_laws field_proto field_encoders"
  by (simp add: proto_laws_def field_proto_def field_encoders_def split_join_fields)

definition message_node :: "(string \<times> bytes, string \<times> bytes) node_api" where
  "message_node =
     \<lparr>into_received = Some, content_topic = fst, into_payload = (\<lambda>m. Some (snd m)), node_start = (\<lambda>_. Inr ()),
      node_subscribe = (\<lambda>_. Inr ()), spawn_ingest = Inr ()\<rparr>"

definition sample_publisher :: publisher where
  "sample_publisher = \<lparr>start_node = Inr (), publish_on = (\<lambda>_ _. Inr ())\<rparr>"

definition answered :: "store \<Rightarrow> http_call \<Rightarrow> nat \<Rightarrow> attempt" where
  "answered t call i = \<lparr>outcome = fst (loopback_send sample_deps sample_log 0 call t), took = 0, overslept = 0\<rparr>"

lemma polls_answered: "polls_service sample_log sample_deps t call (answered t call)"
  unfolding polls_service_def by (rule exI [of _ 0]) (simp add: answered_def begins_at_def)

definition smoke_stored :: store where
  "smoke_stored = snd (ingest_loop field_proto sample_deps sample_log (zip [(5000000, []), (6000000, [])]
     (List.map_filter (wrap_event message_node) (smoke_messages field_encoders sample_signer (now_ms 0)))) (fresh_store 0))"

theorem delivery_smoke_test_passes_witness:
  "\<exists>final. delivery_smoke_main sample_display sample_publisher field_encoders sample_deps sample_signer [] 0
       (answered smoke_stored (GetKeyPackage (pub_hex sample_deps sample_signer (derived_key (now_ms 0) 1))))
       (answered smoke_stored (GetAccount (pub_hex sample_deps sample_signer (derived_key (now_ms 0) 2))))
       \<lparr>sent = [], printed = []\<rparr> = (Inr (), final) \<and>
     sent final = smoke_messages field_encoders sample_signer (now_ms 0) \<and> length (printed final) = 6 \<and>
     last (printed final) = ''delivery smoke test passed''"
proof -
  note passes = delivery_smoke_test_passes [OF sample_hex_laws sample_base64_laws sample_signer_laws field_proto_laws,
      where s = "fresh_store 0" and nd = message_node and t = smoke_stored and pn = sample_publisher and ds = sample_display
        and args = "[]" and now = 0 and ?ev1.0 = "smoke_messages field_encoders sample_signer (now_ms 0) ! 0"
        and ?ev2.0 = "smoke_messages field_encoders sample_signer (now_ms 0) ! 1" and ?now1.0 = 5000000 and ?now2.0 = 6000000,
      OF _ _ _ _ _ _ _ polls_answered polls_answered]
  have "list_all2 (carries message_node) [smoke_messages field_encoders sample_signer (now_ms 0) ! 0,
      smoke_messages field_encoders sample_signer (now_ms 0) ! 1] (smoke_messages field_encoders sample_signer (now_ms 0))"
    by (simp add: smoke_messages_def carries_def message_node_def)
  moreover have "smoke_stored = snd (ingest_loop field_proto sample_deps sample_log (zip [(5000000, []), (6000000, [])]
      (List.map_filter (wrap_event message_node) [smoke_messages field_encoders sample_signer (now_ms 0) ! 0,
        smoke_messages field_encoders sample_signer (now_ms 0) ! 1])) (fresh_store 0))"
    by (simp add: smoke_stored_def smoke_messages_def)
  moreover have "start_node sample_publisher = Inr ()" "\<forall>topic b. publish_on sample_publisher topic b = Inr ()"
    "store_wf (fresh_store 0)" "pool (fresh_store 0) = empty_tables" "keypackages empty_tables = []" "account_bundles empty_tables = []"
    by (simp_all add: sample_publisher_def store_wf_def empty_tables_def tables_wf_defs)
  ultimately show ?thesis using passes by (fastforce simp: sql_select_account_def)
qed

end
