(* ===== verification/Protobuf_Wire.thy ===== *)
theory Protobuf_Wire
  imports Delivery_Smoke
begin

text \<open>
  The wire format of protobuf messages, as far as the service relies on it: the decoders of the generated message types
  are parameters of the model, and what is documented of them is that they accept only bytes that are a sequence of
  tagged fields. \<open>wire_ok\<close> is that reference, group fields included, and \<open>wire_laws\<close> the assumption on the
  decoders; \<open>wire_proto\<close> has concrete ones for messages of three byte fields, for the closed examples.
\<close>

section \<open>Well-formed messages\<close>

fun varint :: "bytes \<Rightarrow> (nat \<times> bytes) option" where
  "varint [] = None"
| "varint (b # bs) =
     (if unat b < 128 then Some (unat b, bs)
      else map_option (\<lambda>(v, rest). (unat b - 128 + 128 * v, rest)) (varint bs))"

lemma varint_length: "varint bs = Some (n, rest) \<Longrightarrow> length rest < length bs"
  by (induction bs arbitrary: n rest rule: varint.induct) (auto split: if_splits)

text \<open>A field is a tag (number and type) and a value; the first argument lists the groups that are open.\<close>

function wire_ok :: "nat list \<Rightarrow> bytes \<Rightarrow> bool" where
  "wire_ok groups bs =
     (if bs = [] then groups = []
      else case varint bs of
        None \<Rightarrow> False
      | Some (tag, rest) \<Rightarrow>
          let field = tag div 8; kind = tag mod 8 in
          field \<noteq> 0 \<and>
          (if kind = 0 then (case varint rest of None \<Rightarrow> False | Some (_, rest') \<Rightarrow> wire_ok groups rest')
           else if kind = 1 then 8 \<le> length rest \<and> wire_ok groups (drop 8 rest)
           else if kind = 2 then
             (case varint rest of None \<Rightarrow> False
              | Some (n, rest') \<Rightarrow> n \<le> length rest' \<and> wire_ok groups (drop n rest'))
           else if kind = 3 then wire_ok (field # groups) rest
           else if kind = 4 then
             (case groups of [] \<Rightarrow> False | g # groups' \<Rightarrow> g = field \<and> wire_ok groups' rest)
           else if kind = 5 then 4 \<le> length rest \<and> wire_ok groups (drop 4 rest)
           else False))"
  by pat_completeness auto

termination
  by (relation "measure (\<lambda>(groups, bs). length bs)") (auto dest!: varint_length)

declare wire_ok.simps [simp del]

definition wire_laws :: "proto \<Rightarrow> bool" where
  "wire_laws pb \<longleftrightarrow>
     (\<forall>b m. decode_kps pb b = Inr m \<longrightarrow> wire_ok [] b) \<and> (\<forall>b m. decode_acs pb b = Inr m \<longrightarrow> wire_ok [] b)"

lemma wire_laws_foreign:
  assumes "wire_laws pb" and "\<not> wire_ok [] b"
  obtains e e' where "decode_kps pb b = Inl e" and "decode_acs pb b = Inl e'"
  using assms by (cases "decode_kps pb b"; cases "decode_acs pb b") (auto simp: wire_laws_def)

section \<open>Messages of three byte fields\<close>

fun encode_varint :: "nat \<Rightarrow> bytes" where
  "encode_varint n = (if n < 128 then [of_nat n] else of_nat (128 + n mod 128) # encode_varint (n div 128))"

declare encode_varint.simps [simp del]

definition put_field :: "nat \<Rightarrow> bytes \<Rightarrow> bytes" where
  "put_field i x = of_nat (8 * i + 2) # encode_varint (length x) @ x"

definition take_field :: "nat \<Rightarrow> bytes \<Rightarrow> (bytes \<times> bytes) option" where
  "take_field i bs =
     (case bs of
        [] \<Rightarrow> None
      | b # rest \<Rightarrow>
          if unat b \<noteq> 8 * i + 2 then None
          else (case varint rest of
             None \<Rightarrow> None
           | Some (n, rest') \<Rightarrow> if n \<le> length rest' then Some (take n rest', drop n rest') else None))"

lemma unat_byte: "n < 256 \<Longrightarrow> unat (of_nat n :: u8) = n"
  by (simp add: unat_of_nat take_bit_nat_eq_self)

lemma varint_encode: "varint (encode_varint n @ rest) = Some (n, rest)"
proof (induction n rule: encode_varint.induct)
  case (1 n)
  show ?case
  proof (cases "n < 128")
    case True
    then have "encode_varint n = [of_nat n]" by (subst encode_varint.simps) simp
    then show ?thesis using True by (simp add: unat_byte)
  next
    case False
    let ?b = "of_nat (128 + n mod 128) :: u8"
    have enc: "encode_varint n = ?b # encode_varint (n div 128)" using False by (subst encode_varint.simps) (simp only: if_False)
    have b: "unat ?b = 128 + n mod 128" by (rule unat_byte) (use mod_less_divisor [of 128 n] in linarith)
    have "varint (?b # encode_varint (n div 128) @ rest) = Some (unat ?b - 128 + 128 * (n div 128), rest)"
      using 1 [OF False] b by (simp del: of_nat_add)
    then show ?thesis unfolding enc b by simp
  qed
qed

lemma take_put_field: "i < 16 \<Longrightarrow> take_field i (put_field i x @ rest) = Some (x, rest)"
  using unat_byte [of "8 * i + 2"] by (simp add: take_field_def put_field_def varint_encode del: of_nat_add)

lemma take_field_ok:
  assumes "take_field i bs = Some (x, rest)" and "0 < i" and "i < 15"
  shows "wire_ok groups bs = wire_ok groups rest"
proof -
  from assms(1) obtain b r n r' where bs: "bs = b # r" "unat b = 8 * i + 2" "varint r = Some (n, r')" "n \<le> length r'" "rest = drop n r'"
    by (auto simp: take_field_def split: list.splits if_splits option.splits)
  then have "varint bs = Some (8 * i + 2, r)" using assms(3) by simp
  moreover have "(8 * i + 2) div 8 = i" "(8 * i + 2) mod 8 = 2" by presburger+
  ultimately show ?thesis using bs assms(2) by (subst wire_ok.simps) simp
qed

definition put_fields :: "bytes \<Rightarrow> bytes \<Rightarrow> bytes \<Rightarrow> bytes" where
  "put_fields a b c = put_field 1 a @ put_field 2 b @ put_field 3 c"

definition take_fields :: "bytes \<Rightarrow> string + bytes \<times> bytes \<times> bytes" where
  "take_fields bs =
     (case take_field 1 bs of
        Some (a, r1) \<Rightarrow>
          (case take_field 2 r1 of
             Some (b, r2) \<Rightarrow>
               (case take_field 3 r2 of
                  Some (c, []) \<Rightarrow> Inr (a, b, c)
                | _ \<Rightarrow> Inl ''failed to decode Protobuf message'')
           | None \<Rightarrow> Inl ''failed to decode Protobuf message'')
      | None \<Rightarrow> Inl ''failed to decode Protobuf message'')"

lemma take_put_fields: "take_fields (put_fields a b c) = Inr (a, b, c)"
  using take_put_field [of 3 c "[]"] by (simp add: take_fields_def put_fields_def take_put_field)

lemma take_fields_ok: "take_fields bs = Inr m \<Longrightarrow> wire_ok [] bs"
  by (auto simp: take_fields_def take_field_ok wire_ok.simps [of "[]" "[]"] split: option.splits prod.splits list.splits)

definition wire_encoders :: encoders where
  "wire_encoders =
     \<lparr>encode_kps = (\<lambda>m. put_fields (kps_device_id m) (kps_payload m) (kps_signature m)),
      encode_acs = (\<lambda>m. put_fields (acs_account_pub m) (acs_payload m) (acs_signature m))\<rparr>"

definition wire_proto :: proto where
  "wire_proto =
     \<lparr>decode_kps = (\<lambda>b. map_sum id (\<lambda>(k, p, g). \<lparr>kps_device_id = k, kps_payload = p, kps_signature = g\<rparr>) (take_fields b)),
      decode_acs = (\<lambda>b. map_sum id (\<lambda>(k, p, g). \<lparr>acs_account_pub = k, acs_payload = p, acs_signature = g\<rparr>) (take_fields b))\<rparr>"

lemma wire_proto_laws: "proto_laws wire_proto wire_encoders" "wire_laws wire_proto"
  using take_fields_ok by (auto simp: proto_laws_def wire_laws_def wire_proto_def wire_encoders_def take_put_fields map_sum_def
      split: sum.splits)

end
