(* ===== verification/Bundle_Tests.thy ===== *)
theory Bundle_Tests
  imports Store_Tests Protobuf_Wire
begin

text \<open>
  The unit tests of \<open>src/bundle.rs\<close>, over the crates as parameters: the signer and the codecs of the other
  theories, the JSON and protobuf encoders, and the drafts of the account-log crate with which the tests build
  logs. What the tests rely on of these is stated as named predicates; the theorems say that the tests
  pass for all of them, at whatever instants their calls are made. That foreign bytes are no protobuf message is
  shown of every decoder that keeps to the wire format of theory \<open>Protobuf_Wire\<close>. The tests of account logs are
  shown to pass from what they presuppose of the drafts of the crate, which this repository does not document: these are
  lemmas, with an instance of the crate at which they hold.
\<close>

section \<open>Helpers of the tests\<close>

definition TEST_BUNDLE_DOMAIN :: bytes where
  "TEST_BUNDLE_DOMAIN = map of_char ''libchat:account-device-bundle'' @ [0]"

definition test_key :: "u8 \<Rightarrow> bytes" where
  "test_key seed = replicate 32 seed"

definition keypackage_submission_proto :: "encoders \<Rightarrow> signer \<Rightarrow> bytes \<Rightarrow> bytes \<Rightarrow> bytes" where
  "keypackage_submission_proto w sg key payload =
     encode_kps w \<lparr>kps_device_id = verifying_key sg key, kps_payload = payload, kps_signature = sign sg key payload\<rparr>"

text \<open>The JSON body as \<open>serde_json\<close> writes and reads it.\<close>

record json_codec =
  json_text :: "submit_key_package_request \<Rightarrow> bytes"
  json_parse :: "bytes \<Rightarrow> submit_key_package_request option"

definition keypackage_submission_json :: "json_codec \<Rightarrow> deps \<Rightarrow> signer \<Rightarrow> bytes \<Rightarrow> bytes \<Rightarrow> bytes" where
  "keypackage_submission_json js d sg key payload =
     json_text js \<lparr>kpr_device_id = hex_encode d (verifying_key sg key), kpr_payload = b64_encode d payload,
       kpr_signature = b64_encode d (sign sg key payload)\<rparr>"

definition test_account_payload :: "u64 \<Rightarrow> bytes" where
  "test_account_payload lamport = TEST_BUNDLE_DOMAIN @ [1] @ to_le_bytes lamport"

text \<open>
  The drafts of the account-log crate: an empty draft, adding an endorsed key, and the encoded log; and the
  address of a verifying key.
\<close>

record ('dr, 'a) draft_api =
  new_draft :: 'dr
  add_key :: "bytes \<Rightarrow> 'dr \<Rightarrow> 'dr option"
  encode_log :: "'dr \<Rightarrow> bytes option"
  addr_from_bytes :: "bytes \<Rightarrow> 'a option"

definition account_log_draft :: "('dr, 'a) draft_api \<Rightarrow> signer \<Rightarrow> u8 list \<Rightarrow> bytes option" where
  "account_log_draft dr sg device_seeds =
     Option.bind
       (fold (\<lambda>seed draft. Option.bind draft (add_key dr (verifying_key sg (test_key seed)))) device_seeds
         (Some (new_draft dr)))
       (encode_log dr)"

definition test_signed_log :: "('a, 's, 'r) account_log_api \<Rightarrow> signer \<Rightarrow> bytes \<Rightarrow> bytes \<Rightarrow> 's option" where
  "test_signed_log api sg key payload =
     (case signed_from_bytes api (sign sg key payload @ payload) of Inl _ \<Rightarrow> None | Inr slog \<Rightarrow> Some slog)"

definition addr_of :: "('dr, 'a) draft_api \<Rightarrow> signer \<Rightarrow> bytes \<Rightarrow> 'a option" where
  "addr_of dr sg key = addr_from_bytes dr (verifying_key sg key)"

definition test_submission :: "signer \<Rightarrow> bytes \<Rightarrow> bytes \<Rightarrow> bundle_error + Bundle" where
  "test_submission sg key payload = from_bytes (verifying_key sg key) payload (sign sg key payload)"

definition unwrap_ok :: "'e + 'a \<Rightarrow> 'a test" where
  "unwrap_ok r = (case r of Inl _ \<Rightarrow> fail Unwrapped | Inr x \<Rightarrow> ok x)"

text \<open>An awaited call whose error is unwrapped.\<close>

definition awaits_err :: "system_time \<Rightarrow> (store, 'e, 'a) eff \<Rightarrow> 'e test" where
  "awaits_err now m = (\<lambda>s.
     case m (at_instant (now, []) s) of (Inl e, t) \<Rightarrow> (Inr e, t) | (Inr _, t) \<Rightarrow> (Inl Unwrapped, t))"

section \<open>Tests of bundles\<close>

text \<open>The payloads of the tests.\<close>

definition sample_text :: bytes where
  "sample_text = map of_char ''ts-and-keypackage-bytes''"

definition original_text :: bytes where
  "original_text = map of_char ''original''"

definition tampered_text :: bytes where
  "tampered_text = map of_char ''tampered''"

definition proto_and_json_keypackage_wires_agree ::
  "proto \<Rightarrow> encoders \<Rightarrow> json_codec \<Rightarrow> deps \<Rightarrow> signer \<Rightarrow> unit test" where
  "proto_and_json_keypackage_wires_agree pb w js d sg =
     (let key = test_key 1; payload = sample_text in
     try_await (unwrap_ok (decode_kps pb (keypackage_submission_proto w sg key payload))) (\<lambda>wire.
     try_await (unwrap_ok (from_bytes (kps_device_id wire) (kps_payload wire) (kps_signature wire))) (\<lambda>from_proto.
     try_await (unwrap (json_parse js (keypackage_submission_json js d sg key payload))) (\<lambda>body.
     try_await (unwrap_ok (decode_key_package d body)) (\<lambda>from_json.
     try_await (assert_that (key_hex d from_proto = key_hex d from_json)) (\<lambda>_.
     try_await (assert_that (bpayload from_proto = bpayload from_json)) (\<lambda>_.
     assert_that (bsignature from_proto = bsignature from_json))))))))"

definition wire_proto_keypackage_is_parsed_verified_and_stored ::
  "proto \<Rightarrow> encoders \<Rightarrow> deps \<Rightarrow> signer \<Rightarrow> (nat \<Rightarrow> system_time) \<Rightarrow> unit test" where
  "wire_proto_keypackage_is_parsed_verified_and_stored pb w d sg now =
     (let key = test_key 1; payload = sample_text in
     try_await (unwrap_ok (decode_kps pb (keypackage_submission_proto w sg key payload))) (\<lambda>wire.
     try_await (unwrap_ok (from_bytes (kps_device_id wire) (kps_payload wire) (kps_signature wire))) (\<lambda>bundle.
     try_await (awaits (now 0) (apply_keypackage d bundle)) (\<lambda>_.
     try_await (awaits (now 1) (latest (key_hex d bundle))) (\<lambda>row.
     try_await (unwrap row) (\<lambda>stored.
     assert_that (skp_payload stored = payload)))))))"

definition tampered_keypackage_bundle_is_rejected ::
  "proto \<Rightarrow> encoders \<Rightarrow> deps \<Rightarrow> signer \<Rightarrow> (nat \<Rightarrow> system_time) \<Rightarrow> unit test" where
  "tampered_keypackage_bundle_is_rejected pb w d sg now =
     (let key = test_key 2 in
     try_await (unwrap_ok (decode_kps pb (keypackage_submission_proto w sg key original_text))) (\<lambda>wire.
     let wire = wire\<lparr>kps_payload := tampered_text\<rparr> in
     try_await (unwrap_ok (from_bytes (kps_device_id wire) (kps_payload wire) (kps_signature wire))) (\<lambda>bundle.
     try_await (awaits_err (now 0) (apply_keypackage d bundle)) (\<lambda>err.
     try_await (assert_that (err = Invalid ''signature: verification failed'')) (\<lambda>_.
     try_await (awaits (now 1) (latest (key_hex d bundle))) (\<lambda>row.
     assert_that (row = None)))))))"

text \<open>The bytes of a JSON body, and bytes that no varint ends.\<close>

definition json_bytes :: bytes where
  "json_bytes = map of_char (''{'' @ [CHR 0x22] @ ''device_id'' @ [CHR 0x22] @ '':'' @ [CHR 0x22] @ ''xx'' @ [CHR 0x22] @ ''}'')"

definition non_protobuf_bytes_are_rejected :: "proto \<Rightarrow> unit test" where
  "non_protobuf_bytes_are_rejected pb =
     try_await (assert_that (\<not> is_ok (decode_kps pb json_bytes))) (\<lambda>_.
     assert_that (\<not> is_ok (decode_acs pb [0xff, 0xff, 0xff])))"

definition short_key_is_rejected :: "unit test" where
  "short_key_is_rejected =
     (case from_bytes (replicate 31 1) (map of_char ''payload'') (replicate 64 0) of
        Inl err \<Rightarrow> assert_that (err = Invalid ''key: must be 32 bytes'')
      | Inr _ \<Rightarrow> fail Unwrapped)"

definition account_bundle_upserts_and_rejects_stale_replay ::
  "deps \<Rightarrow> signer \<Rightarrow> (nat \<Rightarrow> system_time) \<Rightarrow> unit test" where
  "account_bundle_upserts_and_rejects_stale_replay d sg now =
     (let key = test_key 3 in
     try_await (unwrap_ok (test_submission sg key (test_account_payload 1))) (\<lambda>bundle.
     try_await (awaits (now 0) (apply_account d bundle)) (\<lambda>_.
     try_await (unwrap_ok (test_submission sg key (test_account_payload 2))) (\<lambda>bundle.
     try_await (awaits (now 1) (apply_account d bundle)) (\<lambda>_.
     try_await (unwrap_ok (test_submission sg key (test_account_payload 2))) (\<lambda>bundle.
     try_await (awaits_err (now 2) (apply_account d bundle)) (\<lambda>err.
     assert_that (err = Stale))))))))"

section \<open>Tests of account logs\<close>

text \<open>The closure \<open>log\<close> of the test, and one submission of it.\<close>

definition log_of :: "('a, 's, 'r) account_log_api \<Rightarrow> ('dr, 'a) draft_api \<Rightarrow> signer \<Rightarrow> bytes \<Rightarrow> u8 list \<Rightarrow> 's test" where
  "log_of api dr sg key devices =
     try_await (unwrap (account_log_draft dr sg devices)) (\<lambda>payload. unwrap (test_signed_log api sg key payload))"

definition account_log_must_extend_the_stored_one ::
  "('a, 's, 'r) account_log_api \<Rightarrow> ('dr, 'a) draft_api \<Rightarrow> signer \<Rightarrow> (nat \<Rightarrow> system_time) \<Rightarrow> unit test" where
  "account_log_must_extend_the_stored_one api dr sg now =
     (let key = test_key 4 in
     try_await (unwrap (addr_of dr sg key)) (\<lambda>addr.
     try_await (log_of api dr sg key []) (\<lambda>log.
     try_await (awaits (now 0) (apply_account_log api addr log)) (\<lambda>_.
     try_await (log_of api dr sg key [1]) (\<lambda>log.
     try_await (awaits (now 1) (apply_account_log api addr log)) (\<lambda>_.
     try_await (log_of api dr sg key [1]) (\<lambda>log.
     try_await (awaits (now 2) (apply_account_log api addr log)) (\<lambda>_.
     try_await (log_of api dr sg key [1, 2]) (\<lambda>log.
     try_await (awaits (now 3) (apply_account_log api addr log)) (\<lambda>_.
     try_await (log_of api dr sg key [1]) (\<lambda>log.
     try_await (awaits_err (now 4) (apply_account_log api addr log)) (\<lambda>err.
     try_await (assert_that (err = Stale)) (\<lambda>_.
     try_await (log_of api dr sg key [3, 2, 1]) (\<lambda>log.
     try_await (awaits_err (now 5) (apply_account_log api addr log)) (\<lambda>err.
     try_await (assert_that (err = Forked)) (\<lambda>_.
     try_await (awaits (now 6) (get_account_log api addr)) (\<lambda>row.
     try_await (unwrap row) (\<lambda>stored.
     try_await (log_of api dr sg key [1, 2]) (\<lambda>log.
     try_await (assert_that (stored = signed_to_bytes api log)) (\<lambda>_.
     try_await (unwrap (addr_of dr sg (test_key 7))) (\<lambda>never_published.
     try_await (awaits (now 7) (get_account_log api never_published)) (\<lambda>row.
     assert_that (row = None)))))))))))))))))))))))"

definition account_log_must_be_authentic_and_well_formed ::
  "('a, 's, 'r) account_log_api \<Rightarrow> ('dr, 'a) draft_api \<Rightarrow> signer \<Rightarrow> (nat \<Rightarrow> system_time) \<Rightarrow> unit test" where
  "account_log_must_be_authentic_and_well_formed api dr sg now =
     (let key = test_key 5 in
     try_await (log_of api dr sg (test_key 6) [1]) (\<lambda>forged.
     try_await (unwrap (addr_of dr sg key)) (\<lambda>addr.
     try_await (awaits_err (now 0) (apply_account_log api addr forged)) (\<lambda>err.
     try_await (assert_that (err = Invalid ''signature: verification failed'')) (\<lambda>_.
     try_await (unwrap (test_signed_log api sg key (test_account_payload 1))) (\<lambda>v0_bundle.
     try_await (awaits_err (now 1) (apply_account_log api addr v0_bundle)) (\<lambda>err.
     assert_that (case err of MalformedLog (Malformed _) \<Rightarrow> True | _ \<Rightarrow> False))))))))"

section \<open>The bundle tests pass\<close>

definition json_laws :: "json_codec \<Rightarrow> bool" where
  "json_laws js \<longleftrightarrow> (\<forall>r. json_parse js (json_text js r) = Some r)"

lemmas run_bundle_test = unwrap_ok_def unwrap_def assert_that_def awaits_def awaits_err_def try_await_def map_err_def
  ok_def fail_def passes_def Let_def

lemma test_account_payload: "test_account_payload l = payload_with_lamport l"
  by (simp add: test_account_payload_def TEST_BUNDLE_DOMAIN_def payload_with_lamport_def account_header_def BUNDLE_DOMAIN_def)

lemma quiet_at [simp]: "quiet (at_instant (now, []) s)"
  by (simp add: quiet_def)

text \<open>
  The unit tests of bundles pass, for crates that behave as documented, at whatever instants their calls are
  made: both encodings of a submission give the same bundle, a signed keypackage from the wire is stored, a short key is
  refused, and an account bundle replaces an older one but is refused as stale when it comes again. The test of a tampered
  keypackage passes exactly when the signature check fails on it, since nothing else keeps it from being stored.
\<close>

lemma bundle_tests_pass:
  assumes "hex_laws d" and "base64_laws d" and "signer_laws d sg" and "proto_laws pb w" and "json_laws js"
  shows "passes (proto_and_json_keypackage_wires_agree pb w js d sg) s \<and>
     passes (wire_proto_keypackage_is_parsed_verified_and_stored pb w d sg now) (fresh_store t) \<and>
     (passes (tampered_keypackage_bundle_is_rejected pb w d sg now) (fresh_store t) \<longleftrightarrow>
        \<not> verify_strict d (verifying_key sg (test_key 2)) tampered_text (sign sg (test_key 2) original_text)) \<and>
     passes short_key_is_rejected s \<and>
     passes (account_bundle_upserts_and_rejects_stale_replay d sg now) (fresh_store t)"
proof (intro conjI)
  have sg: "length (verifying_key sg k) = 32" "length (sign sg k m) = 64"
    "authentic d (verifying_key sg k) m (sign sg k m)" for k m
    using assms(3) by (simp_all add: signer_laws_def)
  then have verified: "verify d \<lparr>bkey = verifying_key sg k, bpayload = m, bsignature = sign sg k m\<rparr> = Inr ()" for k m
    by (simp add: verify_Inr_iff)
  have wire: "decode_kps pb (encode_kps w x) = Inr x" for x using assms(4) by (simp add: proto_laws_def)
  show "passes (proto_and_json_keypackage_wires_agree pb w js d sg) s"
    using assms(5) decode_bundle_encoded [OF assms(1,2)]
    by (simp add: proto_and_json_keypackage_wires_agree_def run_bundle_test keypackage_submission_proto_def wire from_bytes_def
        sg keypackage_submission_json_def json_laws_def decode_key_package_def)
  show "passes short_key_is_rejected s" by (simp add: short_key_is_rejected_def from_bytes_def run_bundle_test)
  obtain db r where ins: "sql_insert_keypackage (hex_encode d (verifying_key sg (test_key 1))) (stamp_ms (now 0)) sample_text
      (sign sg (test_key 1) sample_text) (pool (fresh_store t)) = Some db"
    "sql_latest_keypackage (hex_encode d (verifying_key sg (test_key 1))) db = Some r" "kp_payload r = sample_text"
    by (rule insert_latest [of "fresh_store t" "hex_encode d (verifying_key sg (test_key 1))" "stamp_ms (now 0)"])
      (simp_all add: store_wf_def empty_tables_def tables_wf_defs)
  show "passes (wire_proto_keypackage_is_parsed_verified_and_stored pb w d sg now) (fresh_store t)"
    using ins by (simp add: wire_proto_keypackage_is_parsed_verified_and_stored_def run_bundle_test
        keypackage_submission_proto_def wire from_bytes_def sg apply_keypackage_quiet verified key_hex_def latest_quiet)
  let ?tampered = "\<lparr>bkey = verifying_key sg (test_key 2), bpayload = tampered_text, bsignature = sign sg (test_key 2) original_text\<rparr>"
  have "verify d ?tampered = (if verify_strict d (verifying_key sg (test_key 2)) tampered_text (sign sg (test_key 2) original_text)
      then Inr () else Inl (Invalid ''signature: verification failed''))"
    using sg(3) [of "test_key 2" original_text] by (simp add: verify_def authentic_def)
  then show "passes (tampered_keypackage_bundle_is_rejected pb w d sg now) (fresh_store t) \<longleftrightarrow>
      \<not> verify_strict d (verifying_key sg (test_key 2)) tampered_text (sign sg (test_key 2) original_text)"
    by (simp add: tampered_keypackage_bundle_is_rejected_def run_bundle_test keypackage_submission_proto_def wire from_bytes_def sg
        apply_keypackage_quiet key_hex_def latest_quiet latest_keypackage_None empty_tables_def sql_insert_keypackage_def)
  have none: "sql_select_account k empty_tables = None" for k by (simp add: sql_select_account_def empty_tables_def)
  show "passes (account_bundle_upserts_and_rejects_stale_replay d sg now) (fresh_store t)"
    by (simp add: account_bundle_upserts_and_rejects_stale_replay_def run_bundle_test test_submission_def from_bytes_def sg
        test_account_payload apply_account_quiet verified key_hex_def holds_lamport_def none word_le_nat_alt)
qed

definition text_bytes :: "string \<Rightarrow> bytes" where
  "text_bytes cs = map (\<lambda>c. of_nat (of_char c)) cs"

definition bytes_text :: "bytes \<Rightarrow> string" where
  "bytes_text bs = map (\<lambda>b. char_of (unat b)) bs"

lemma bytes_text_of_text [simp]: "bytes_text (text_bytes cs) = cs"
proof -
  have "unat (of_nat (of_char c) :: u8) = of_char c" for c
    using range_nat_of_char [THEN equalityD1, THEN subsetD, of "of_char c"] by (simp add: unat_of_nat take_bit_eq_mod)
  then show ?thesis by (simp add: bytes_text_def text_bytes_def comp_def)
qed

definition sample_json :: json_codec where
  "sample_json =
     \<lparr>json_text = (\<lambda>r. join_fields (text_bytes (kpr_device_id r)) (text_bytes (kpr_payload r)) (text_bytes (kpr_signature r))),
      json_parse = (\<lambda>b. case split_fields b of (i, p, g) \<Rightarrow>
        Some \<lparr>kpr_device_id = bytes_text i, kpr_payload = bytes_text p, kpr_signature = bytes_text g\<rparr>)\<rparr>"

lemma sample_json_laws: "json_laws sample_json"
  by (simp add: json_laws_def sample_json_def split_join_fields)

lemma take_test_key [simp]: "take 32 (test_key seed @ xs) = test_key seed"
  by (simp add: test_key_def)

section \<open>The account log tests pass\<close>

text \<open>
  What the tests rely on. Every draft encodes, and one log's bytes are a prefix of another's exactly when its
  endorsements are; every verifying key has an address of its own; every signed artifact parses; a log verifies
  under the address of the key that signed it, a signature of another key does not, and a signed v0 bundle is
  malformed as a log.
\<close>

definition draft_laws :: "('dr, 'a) draft_api \<Rightarrow> signer \<Rightarrow> bool" where
  "draft_laws dr sg \<longleftrightarrow>
     (\<forall>ks. account_log_draft dr sg ks \<noteq> None) \<and>
     (\<forall>ks ks' b b'. account_log_draft dr sg ks = Some b \<and> account_log_draft dr sg ks' = Some b' \<longrightarrow>
        (prefix b b' \<longleftrightarrow> prefix ks ks')) \<and>
     (\<forall>seed. addr_of dr sg (test_key seed) \<noteq> None) \<and>
     (\<forall>seed seed'. addr_of dr sg (test_key seed) = addr_of dr sg (test_key seed') \<longrightarrow> seed = seed')"

definition log_signature_laws :: "('a, 's, 'r) account_log_api \<Rightarrow> ('dr, 'a) draft_api \<Rightarrow> signer \<Rightarrow> bool" where
  "log_signature_laws api dr sg \<longleftrightarrow>
     (\<forall>seed payload. test_signed_log api sg (test_key seed) payload \<noteq> None) \<and>
     (\<forall>seed seed' a payload slog. addr_of dr sg (test_key seed) = Some a \<and>
        test_signed_log api sg (test_key seed') payload = Some slog \<longrightarrow>
        (seed \<noteq> seed' \<longrightarrow> record_new api a slog = Inl SignatureInvalid) \<and>
        (seed = seed' \<and> (\<exists>ks. account_log_draft dr sg ks = Some payload) \<longrightarrow> (\<exists>r. record_new api a slog = Inr r)) \<and>
        (seed = seed' \<and> (\<exists>l. payload = test_account_payload l) \<longrightarrow> (\<exists>m. record_new api a slog = Inl (Malformed m))))"

lemma draft_lawsD:
  assumes "draft_laws dr sg"
  shows "\<exists>b. account_log_draft dr sg ks = Some b" and "\<exists>a. addr_of dr sg (test_key seed) = Some a"
    and "account_log_draft dr sg ks = Some b \<Longrightarrow> account_log_draft dr sg ks' = Some b' \<Longrightarrow> prefix b b' \<longleftrightarrow> prefix ks ks'"
    and "addr_of dr sg (test_key seed) = Some a \<Longrightarrow> addr_of dr sg (test_key seed') = Some a \<Longrightarrow> seed = seed'"
  using assms unfolding draft_laws_def by (blast, blast, blast, metis)

lemma log_signature_lawsD:
  assumes "log_signature_laws api dr sg"
  shows "\<exists>slog. test_signed_log api sg (test_key seed) payload = Some slog"
    and "addr_of dr sg (test_key seed) = Some a \<Longrightarrow> test_signed_log api sg (test_key seed') payload = Some slog \<Longrightarrow>
      seed \<noteq> seed' \<Longrightarrow> record_new api a slog = Inl SignatureInvalid"
    and "addr_of dr sg (test_key seed) = Some a \<Longrightarrow> test_signed_log api sg (test_key seed) payload = Some slog \<Longrightarrow>
      account_log_draft dr sg ks = Some payload \<Longrightarrow> \<exists>r. record_new api a slog = Inr r"
    and "addr_of dr sg (test_key seed) = Some a \<Longrightarrow>
      test_signed_log api sg (test_key seed) (test_account_payload l) = Some slog \<Longrightarrow>
      \<exists>m. record_new api a slog = Inl (Malformed m)"
  using assms unfolding log_signature_laws_def by (blast, blast, blast, blast)

context account_log_crate
begin

lemma log_accepted:
  assumes "logs_verified api s" and "record_new api a slog = Inr c"
    and "\<And>old. log_cell s (addr_to_string api a) = Some old \<Longrightarrow> extends old (signed_to_bytes api slog)"
  obtains t where "awaits now (apply_account_log api a slog) s = (Inr (), t)" and "logs_verified api t"
    and "log_cell t = (log_cell s)(addr_to_string api a \<mapsto> signed_to_bytes api slog)"
proof -
  let ?s = "at_instant (now, []) s"
  let ?t = "?s\<lparr>pool := sql_upsert_log (addr_to_string api a) (stamp_ms (clock ?s)) (signed_to_bytes api slog) (pool ?s)\<rparr>"
  have inv: "logs_verified api ?s" using assms(1) by simp
  have run: "apply_account_log api a slog ?s = (Inr (), ?t)"
    using verdict(1,2) [OF quiet_at inv assms(2)] assms(3)
    by (cases "log_cell s (addr_to_string api a)") auto
  show thesis
  proof (rule that)
    show "awaits now (apply_account_log api a slog) s = (Inr (), ?t)" by (simp add: awaits_def map_err_def run)
    show "logs_verified api ?t" by (rule apply_log_cell(1) [OF inv run])
    show "log_cell ?t = (log_cell s)(addr_to_string api a \<mapsto> signed_to_bytes api slog)"
      by (rule ext) (simp add: log_cell_def)
  qed
qed

lemma log_answered:
  assumes "logs_verified api s" and "record_new api a slog = Inr c" and "log_cell s (addr_to_string api a) = Some old"
  shows "old = signed_to_bytes api slog \<Longrightarrow>
      awaits now (apply_account_log api a slog) s = (Inr (), at_instant (now, []) s)"
    and "extends (signed_to_bytes api slog) old \<Longrightarrow>
      awaits_err now (apply_account_log api a slog) s = (Inr Stale, at_instant (now, []) s)"
    and "\<not> prefix (drop 64 old) (drop 64 (signed_to_bytes api slog)) \<Longrightarrow>
      \<not> prefix (drop 64 (signed_to_bytes api slog)) (drop 64 old) \<Longrightarrow>
      awaits_err now (apply_account_log api a slog) s = (Inr Forked, at_instant (now, []) s)"
proof -
  have inv: "logs_verified api (at_instant (now, []) s)" using assms(1) by simp
  note v = verdict(3-5) [OF quiet_at inv assms(2)]
  show "old = signed_to_bytes api slog \<Longrightarrow>
      awaits now (apply_account_log api a slog) s = (Inr (), at_instant (now, []) s)"
    using v(1) assms(3) by (simp add: awaits_def map_err_def)
  show "extends (signed_to_bytes api slog) old \<Longrightarrow>
      awaits_err now (apply_account_log api a slog) s = (Inr Stale, at_instant (now, []) s)"
    using v(2) assms(3) by (simp add: awaits_err_def)
  show "\<not> prefix (drop 64 old) (drop 64 (signed_to_bytes api slog)) \<Longrightarrow>
      \<not> prefix (drop 64 (signed_to_bytes api slog)) (drop 64 old) \<Longrightarrow>
      awaits_err now (apply_account_log api a slog) s = (Inr Forked, at_instant (now, []) s)"
    using v(3) assms(3) by (simp add: awaits_err_def)
qed

lemma log_read: "awaits now (get_account_log api a) s = (Inr (log_cell s (addr_to_string api a)), at_instant (now, []) s)"
  by (simp add: awaits_def map_err_def get_account_log_quiet log_cell_def)

end

text \<open>The logs of one key: they parse, verify, and extend one another as their endorsements do.\<close>

locale log_tests = account_log_crate api for api :: "('a, 's, 'r) account_log_api" +
  fixes dr :: "('dr, 'a) draft_api" and sg :: signer and d :: deps
  assumes signer: "signer_laws d sg" and drafts: "draft_laws dr sg" and signatures: "log_signature_laws api dr sg"
begin

lemma made_log:
  assumes "addr_of dr sg (test_key seed) = Some a"
  obtains B L where "\<And>ks. log_of api dr sg (test_key seed) ks = ok (L ks)"
    and "\<And>ks. \<exists>c. record_new api a (L ks) = Inr c" and "\<And>ks. signed_to_bytes api (L ks) = B ks"
    and "\<And>ks ks'. prefix (drop 64 (B ks)) (drop 64 (B ks')) \<longleftrightarrow> prefix ks ks'"
    and "\<And>ks ks'. extends (B ks) (B ks') \<longleftrightarrow> strict_prefix ks ks'"
proof -
  obtain P where P: "\<And>ks. account_log_draft dr sg ks = Some (P ks)"
    using draft_lawsD(1) [OF drafts] by metis
  define L where "L ks = the (test_signed_log api sg (test_key seed) (P ks))" for ks
  have L: "test_signed_log api sg (test_key seed) (P ks) = Some (L ks)" for ks
    using log_signature_lawsD(1) [OF signatures, of seed "P ks"] by (auto simp: L_def)
  let ?B = "\<lambda>ks. sign sg (test_key seed) (P ks) @ P ks"
  have "signed_from_bytes api (?B ks) = Inr (L ks)" for ks
    using L [of ks] by (simp add: test_signed_log_def split: sum.splits)
  then have B: "signed_to_bytes api (L ks) = ?B ks" for ks by (rule artifact(2))
  have len: "length (sign sg k m) = 64" for k m using signer by (simp add: signer_laws_def)
  have payload: "drop 64 (?B ks) = P ks" for ks by (simp add: len)
  have pre: "prefix (P ks) (P ks') \<longleftrightarrow> prefix ks ks'" for ks ks' by (rule draft_lawsD(3) [OF drafts P P])
  have ok: "\<exists>c. record_new api a (L ks) = Inr c" for ks
    by (rule log_signature_lawsD(3) [OF signatures assms L P])
  show thesis
  proof (rule that [OF _ ok B])
    show "log_of api dr sg (test_key seed) ks = ok (L ks)" for ks
      by (simp add: log_of_def P L unwrap_def try_await_def ok_def)
    show "prefix (drop 64 (?B ks)) (drop 64 (?B ks')) \<longleftrightarrow> prefix ks ks'" for ks ks'
      by (simp only: payload pre)
    show "extends (?B ks) (?B ks') \<longleftrightarrow> strict_prefix ks ks'" for ks ks'
      by (simp only: extends_def payload prefix_order.less_le_not_le pre)
  qed
qed

text \<open>What the service answers to a log of the key, when it has none or one of the key's logs on file.\<close>

lemma submitted_log:
  assumes "addr_of dr sg (test_key seed) = Some a"
  defines "k \<equiv> addr_to_string api a"
  obtains B L where "\<And>ks. log_of api dr sg (test_key seed) ks = ok (L ks)" and "\<And>ks. signed_to_bytes api (L ks) = B ks"
    and "\<And>i s ks ks'. logs_verified api s \<Longrightarrow> log_cell s = Map.empty \<or> log_cell s = [k \<mapsto> B ks] \<and> strict_prefix ks ks' \<Longrightarrow>
      \<exists>t. awaits i (apply_account_log api a (L ks')) s = (Inr (), t) \<and> logs_verified api t \<and> log_cell t = [k \<mapsto> B ks']"
    and "\<And>i s ks. logs_verified api s \<Longrightarrow> log_cell s k = Some (B ks) \<Longrightarrow>
      awaits i (apply_account_log api a (L ks)) s = (Inr (), at_instant (i, []) s)"
    and "\<And>i s ks ks'. logs_verified api s \<Longrightarrow> log_cell s k = Some (B ks) \<Longrightarrow> strict_prefix ks' ks \<Longrightarrow>
      awaits_err i (apply_account_log api a (L ks')) s = (Inr Stale, at_instant (i, []) s)"
    and "\<And>i s ks ks'. logs_verified api s \<Longrightarrow> log_cell s k = Some (B ks) \<Longrightarrow> \<not> prefix ks' ks \<Longrightarrow> \<not> prefix ks ks' \<Longrightarrow>
      awaits_err i (apply_account_log api a (L ks')) s = (Inr Forked, at_instant (i, []) s)"
proof -
  obtain B L where L: "\<And>ks. log_of api dr sg (test_key seed) ks = ok (L ks)"
    and ok: "\<And>ks. \<exists>c. record_new api a (L ks) = Inr c" and B: "\<And>ks. signed_to_bytes api (L ks) = B ks"
    and pre: "\<And>ks ks'. prefix (drop 64 (B ks)) (drop 64 (B ks')) \<longleftrightarrow> prefix ks ks'"
    and grow: "\<And>ks ks'. extends (B ks) (B ks') \<longleftrightarrow> strict_prefix ks ks'"
    by (rule made_log [OF assms(1)]) blast
  have accepted: "\<exists>t. awaits i (apply_account_log api a (L ks')) s = (Inr (), t) \<and> logs_verified api t \<and>
      log_cell t = [k \<mapsto> B ks']"
    if "logs_verified api s" and "log_cell s = Map.empty \<or> log_cell s = [k \<mapsto> B ks] \<and> strict_prefix ks ks'" for i s ks ks'
  proof -
    obtain c where c: "record_new api a (L ks') = Inr c" using ok by blast
    have old: "extends old (signed_to_bytes api (L ks'))" if "log_cell s (addr_to_string api a) = Some old" for old
      using that \<open>log_cell s = Map.empty \<or> _\<close> by (auto simp: B grow k_def)
    from log_accepted [OF \<open>logs_verified api s\<close> c old, of i] show ?thesis
      using that(2) unfolding k_def by (metis B fun_upd_upd)
  qed
  have answered: "awaits i (apply_account_log api a (L ks)) s = (Inr (), at_instant (i, []) s)"
    "strict_prefix ks' ks \<Longrightarrow> awaits_err i (apply_account_log api a (L ks')) s = (Inr Stale, at_instant (i, []) s)"
    "\<not> prefix ks' ks \<Longrightarrow> \<not> prefix ks ks' \<Longrightarrow>
       awaits_err i (apply_account_log api a (L ks')) s = (Inr Forked, at_instant (i, []) s)"
    if "logs_verified api s" and "log_cell s k = Some (B ks)" for i s ks ks'
    using ok log_answered [OF that(1) _ that(2) [unfolded k_def]] by (metis B grow pre)+
  show thesis by (rule that [OF L B accepted answered])
qed

lemma extension_test: "passes (account_log_must_extend_the_stored_one api dr sg now) (fresh_store t0)"
proof -
  obtain a where a: "addr_of dr sg (test_key 4) = Some a" using draft_lawsD(2) [OF drafts] by blast
  obtain a' where a': "addr_of dr sg (test_key 7) = Some a'" using draft_lawsD(2) [OF drafts] by blast
  let ?k = "addr_to_string api a"
  have other: "addr_to_string api a' \<noteq> ?k"
    using addr_to_string_inject [OF addr, of a' a] draft_lawsD(4) [OF drafts, of 4 a 7] a a' by auto
  obtain B L where L: "\<And>ks. log_of api dr sg (test_key 4) ks = ok (L ks)"
    and B: "\<And>ks. signed_to_bytes api (L ks) = B ks"
    and accepted: "\<And>i s ks ks'. logs_verified api s \<Longrightarrow>
      log_cell s = Map.empty \<or> log_cell s = [?k \<mapsto> B ks] \<and> strict_prefix ks ks' \<Longrightarrow>
      \<exists>t. awaits i (apply_account_log api a (L ks')) s = (Inr (), t) \<and> logs_verified api t \<and> log_cell t = [?k \<mapsto> B ks']"
    and same: "\<And>i s ks. logs_verified api s \<Longrightarrow> log_cell s ?k = Some (B ks) \<Longrightarrow>
      awaits i (apply_account_log api a (L ks)) s = (Inr (), at_instant (i, []) s)"
    and stale: "\<And>i s ks ks'. logs_verified api s \<Longrightarrow> log_cell s ?k = Some (B ks) \<Longrightarrow> strict_prefix ks' ks \<Longrightarrow>
      awaits_err i (apply_account_log api a (L ks')) s = (Inr Stale, at_instant (i, []) s)"
    and forked: "\<And>i s ks ks'. logs_verified api s \<Longrightarrow> log_cell s ?k = Some (B ks) \<Longrightarrow> \<not> prefix ks' ks \<Longrightarrow> \<not> prefix ks ks' \<Longrightarrow>
      awaits_err i (apply_account_log api a (L ks')) s = (Inr Forked, at_instant (i, []) s)"
    by (rule submitted_log [OF a]) (rule that)
  have fresh: "log_cell (fresh_store t0) = Map.empty" by (rule ext) simp
  obtain s0 where s0: "awaits (now 0) (apply_account_log api a (L [])) (fresh_store t0) = (Inr (), s0)"
    "logs_verified api s0" "log_cell s0 = [?k \<mapsto> B []]"
    using accepted [of "fresh_store t0" _ "[]" "now 0"] fresh by auto
  obtain s1 where s1: "awaits (now 1) (apply_account_log api a (L [1])) s0 = (Inr (), s1)"
    "logs_verified api s1" "log_cell s1 = [?k \<mapsto> B [1]]"
    using accepted [OF s0(2), of "[]" "[1]" "now 1"] s0(3) by auto
  let ?s2 = "at_instant (now 2, []) s1"
  have s2: "awaits (now 2) (apply_account_log api a (L [1])) s1 = (Inr (), ?s2)"
    using same [OF s1(2), of "[1]"] s1(3) by simp
  obtain s3 where s3: "awaits (now 3) (apply_account_log api a (L [1, 2])) ?s2 = (Inr (), s3)"
    "logs_verified api s3" "log_cell s3 = [?k \<mapsto> B [1, 2]]"
    using accepted [of ?s2 "[1]" "[1, 2]" "now 3"] s1(2,3) by (auto simp: strict_prefix_def)
  let ?s4 = "at_instant (now 4, []) s3"
  have s4: "awaits_err (now 4) (apply_account_log api a (L [1])) s3 = (Inr Stale, ?s4)"
    using stale [OF s3(2), of "[1, 2]" "[1]"] s3(3) by (simp add: strict_prefix_def)
  let ?s5 = "at_instant (now 5, []) ?s4"
  have s5: "awaits_err (now 5) (apply_account_log api a (L [3, 2, 1])) ?s4 = (Inr Forked, ?s5)"
    using forked [of ?s4 "[1, 2]" "[3, 2, 1]"] s3(2,3) by simp
  show ?thesis
    using other by (simp add: account_log_must_extend_the_stored_one_def passes_def a a' L try_await_def unwrap_def ok_def
        Let_def s0(1) s1(1) s2 s3(1) s4 s5 log_read s3(3) assert_that_def B del: One_nat_def)
qed

lemma authenticity_test: "passes (account_log_must_be_authentic_and_well_formed api dr sg now) s"
proof -
  obtain a where a: "addr_of dr sg (test_key 5) = Some a" using draft_lawsD(2) [OF drafts] by blast
  obtain p where p: "account_log_draft dr sg [1] = Some p" using draft_lawsD(1) [OF drafts] by blast
  obtain f where f: "test_signed_log api sg (test_key 6) p = Some f"
    using log_signature_lawsD(1) [OF signatures] by blast
  obtain v where v: "test_signed_log api sg (test_key 5) (test_account_payload 1) = Some v"
    using log_signature_lawsD(1) [OF signatures] by blast
  have forged: "record_new api a f = Inl SignatureInvalid"
    by (rule log_signature_lawsD(2) [OF signatures a f]) simp
  obtain m where bad: "record_new api a v = Inl (Malformed m)"
    using log_signature_lawsD(4) [OF signatures a v] by blast
  show ?thesis
    by (simp add: account_log_must_be_authentic_and_well_formed_def log_of_def run_bundle_test p f v a forged bad
        apply_account_log_quiet log_rejection_def)
qed

end

text \<open>
  The unit tests of account logs pass, for an account-log crate and a signer that behave as documented, on a
  freshly opened store and at whatever instants their calls are made: an empty log, its extensions and a resubmission
  are accepted in turn, a shortened log is refused as stale and a rewritten one as forked, the log served afterwards is
  the last one accepted and another account has none; a log under another key's signature is refused, and so is a
  signed v0 bundle.
\<close>

lemma account_log_tests_pass:
  assumes "account_log_laws api" and "signer_laws d sg" and "draft_laws dr sg" and "log_signature_laws api dr sg"
  shows "passes (account_log_must_extend_the_stored_one api dr sg now) (fresh_store t) \<and>
     passes (account_log_must_be_authentic_and_well_formed api dr sg now) (fresh_store t)"
proof -
  have tests: "log_tests api dr sg d"
    by (intro log_tests.intro account_log_crate.intro log_tests_axioms.intro) (rule assms)+
  show ?thesis using log_tests.extension_test [OF tests] log_tests.authenticity_test [OF tests] by blast
qed

section \<open>An instance of the log crate with drafts\<close>

definition sample_draft :: "(bytes, sample_addr) draft_api" where
  "sample_draft =
     \<lparr>new_draft = [], add_key = (\<lambda>key draft. Some (draft @ key)), encode_log = (\<lambda>draft. Some (1 # draft)),
      addr_from_bytes = Some\<rparr>"

lemma verifying_test_key [simp]: "verifying_key sample_signer (test_key seed) = test_key seed"
  by (simp add: sample_signer_def test_key_def)

lemma account_log_sample_draft: "account_log_draft sample_draft sample_signer ks = Some (1 # concat (map test_key ks))"
proof -
  have "fold (\<lambda>seed draft. Option.bind draft (add_key sample_draft (verifying_key sample_signer (test_key seed)))) ks (Some b)
      = Some (b @ concat (map test_key ks))" for b
    by (induction ks arbitrary: b) (simp_all add: sample_draft_def)
  from this [of "new_draft sample_draft"] show ?thesis by (simp add: account_log_draft_def sample_draft_def)
qed

lemma prefix_test_keys: "prefix (concat (map test_key ks)) (concat (map test_key ks')) \<longleftrightarrow> prefix ks ks'"
proof (induction ks arbitrary: ks')
  case (Cons k ks)
  have "prefix (test_key a @ xs) (test_key b @ ys) \<longleftrightarrow> a = b \<and> prefix xs ys" for a b xs ys
    by (auto simp: prefix_def test_key_def append_eq_append_conv)
  then show ?case using Cons by (cases ks') (auto simp: test_key_def)
qed simp

lemma addr_of_sample: "addr_of sample_draft sample_signer (test_key seed) = Some (test_key seed)"
  by (simp add: addr_of_def sample_draft_def)

lemma test_key_inject [simp]: "test_key a = test_key b \<longleftrightarrow> a = b"
  by (simp add: test_key_def)

lemma sample_draft_laws: "draft_laws sample_draft sample_signer"
  by (auto simp: draft_laws_def account_log_sample_draft prefix_test_keys addr_of_sample)

text \<open>A signature of the sample signer, as a number, is the one the sample log crate expects.\<close>

lemma le_value_append: "le_value (a @ b) = le_value a + 256 ^ length a * le_value b"
  by (induction a) (simp_all add: algebra_simps)

lemma le_value_zeros [simp]: "le_value (replicate n 0) = 0"
  by (induction n) simp_all

lemma sample_signature: "(of_nat (le_value (sample_sign key m)) :: 512 word) = sample_log_signature key m"
proof -
  let ?x = "key @ m @ replicate 64 0"
  have len: "length (take 64 ?x) = 64" by simp
  have "le_value ?x = le_value (take 64 ?x) + 256 ^ 64 * le_value (drop 64 ?x)"
    using le_value_append [of "take 64 ?x" "drop 64 ?x"] len by (simp only: append_take_drop_id)
  moreover have "(of_nat (256 ^ 64) :: 512 word) = 0" by simp
  ultimately have "(of_nat (le_value ?x) :: 512 word) = of_nat (le_value (take 64 ?x))"
    by (simp only: of_nat_add of_nat_mult) simp
  then show ?thesis by (simp add: sample_sign_def sample_log_signature_def le_value_append)
qed

lemma signature_of_key: "sample_log_signature (test_key a) p = sample_log_signature (test_key b) p' \<Longrightarrow> a = b"
proof -
  have low: "unat (of_nat n :: 512 word) mod 256 = n mod 256" for n
    by (simp add: unat_of_nat mod_mod_cancel)
  have key: "test_key x = x # replicate 31 x" for x using replicate_Suc [of 31 x] by (simp add: test_key_def)
  have "le_value (test_key x @ q) mod 256 = unat x" for x q
    using unsigned_less [of x, where 'a = nat] by (simp add: key)
  then have "unat (sample_log_signature (test_key x) q) mod 256 = unat x" for x q
    by (simp only: sample_log_signature_def low)
  then show "sample_log_signature (test_key a) p = sample_log_signature (test_key b) p' \<Longrightarrow> a = b"
    by (metis unsigned_word_eqI)
qed

lemma sign_test_key: "sign sample_signer (test_key seed) m = sample_sign (test_key seed) m"
  by (simp add: sample_signer_def test_key_def)

lemma sample_record: "record_new sample_log = sample_record_new"
  by (simp add: sample_log_def)

lemma test_signed_sample:
  "test_signed_log sample_log sample_signer (test_key seed) p = Some (sample_log_signature (test_key seed) p, p)"
  by (simp add: test_signed_log_def sample_log_def sample_from_bytes_def sign_test_key sample_signature)

lemma sample_log_signature_laws: "log_signature_laws sample_log sample_draft sample_signer"
proof -
  have "take 1 (test_account_payload l) \<noteq> [1]" for l
    by (simp add: test_account_payload_def TEST_BUNDLE_DOMAIN_def)
  moreover have "sample_log_signature (test_key seed') p \<noteq> sample_log_signature (test_key seed) p" if "seed \<noteq> seed'" for seed seed' p
    using that signature_of_key by blast
  ultimately show ?thesis
    unfolding log_signature_laws_def test_signed_sample addr_of_sample account_log_sample_draft sample_record sample_record_new_def
    by auto
qed

interpretation sample_tests: log_tests sample_log sample_draft sample_signer sample_deps
  by unfold_locales (rule sample_signer_laws sample_draft_laws sample_log_signature_laws)+

section \<open>The unit tests pass\<close>

lemma foreign_bytes: "\<not> wire_ok [] json_bytes" "\<not> wire_ok [] [0xff, 0xff, 0xff]"
  by (simp_all add: wire_ok.simps json_bytes_def of_char_def)

lemma foreign_bytes_test:
  assumes "wire_laws pb"
  shows "passes (non_protobuf_bytes_are_rejected pb) s"
proof -
  obtain e where "decode_kps pb json_bytes = Inl e" by (rule wire_laws_foreign [OF assms foreign_bytes(1)])
  moreover obtain e' where "decode_acs pb [0xff, 0xff, 0xff] = Inl e'" by (rule wire_laws_foreign [OF assms foreign_bytes(2)])
  ultimately show ?thesis by (simp add: non_protobuf_bytes_are_rejected_def run_bundle_test is_ok_def)
qed

text \<open>
  C31. The unit tests of the store and those of the v0 bundles pass on a freshly opened store, for codecs that invert
  their encoders and a signer whose signatures verify, at whatever instants their calls are made, a clock that jumps
  back included. Store: a replayed and an older lamport are refused and leave the newest bundle and its stamp; a lamport
  needs the whole header. Bundles: both encodings of a submission give the same bundle, a signed keypackage from the
  wire is stored, a short key is refused, an account bundle replaces an older one but is stale when it comes again; and the test
  of a tampered keypackage passes if and only if the strict signature check refuses the tampered payload, so that the
  service stores nothing but what that check accepts.
\<close>

theorem unit_tests_pass:
  assumes "hex_laws d" and "base64_laws d" and "signer_laws d sg" and "proto_laws pb w" and "json_laws js"
  shows "list_all (\<lambda>test. passes test (fresh_store t))
      [rejects_replayed_or_stale_lamport now,
       stale_publish_does_not_refresh_retention_clock now,
       payload_lamport_requires_domain_and_full_header,
       proto_and_json_keypackage_wires_agree pb w js d sg,
       wire_proto_keypackage_is_parsed_verified_and_stored pb w d sg now,
       short_key_is_rejected,
       account_bundle_upserts_and_rejects_stale_replay d sg now] \<and>
     (passes (tampered_keypackage_bundle_is_rejected pb w d sg now) (fresh_store t) \<longleftrightarrow>
        \<not> verify_strict d (verifying_key sg (test_key 2)) tampered_text (sign sg (test_key 2) original_text))"
  using store_tests_pass [of now t "fresh_store t"] bundle_tests_pass [OF assms, of "fresh_store t" now t]
  by simp

theorem unit_tests_pass_witness:
  "list_all (\<lambda>test. passes test (fresh_store 0))
    [rejects_replayed_or_stale_lamport (\<lambda>i. - int i),
     stale_publish_does_not_refresh_retention_clock (\<lambda>i. - int i),
     account_bundle_upserts_and_rejects_stale_replay sample_deps sample_signer (\<lambda>i. - int i),
     tampered_keypackage_bundle_is_rejected wire_proto wire_encoders sample_deps sample_signer (\<lambda>i. - int i)]"
proof -
  have "\<not> verify_strict sample_deps (verifying_key sample_signer (test_key 2)) tampered_text (sign sample_signer (test_key 2) original_text)"
    by (simp add: sample_deps_def sample_signer_def sample_sign_def tampered_text_def original_text_def test_key_def)
  with unit_tests_pass [OF sample_hex_laws sample_base64_laws sample_signer_laws wire_proto_laws(1) sample_json_laws,
      of 0 "\<lambda>i. - int i"]
  show ?thesis by simp
qed

end
