(* ===== verification/Spec2Isabelle.thy ===== *)
theory Spec2Isabelle
  imports Sample_Service Benchmark_Main Bundle_Tests
begin

text \<open>
  The chat-store: an HTTP service that keeps signed keypackages, signed account bundles and signed
  account logs in an SQLite database, and hands them out to whoever asks. Submissions come in over
  HTTP and over the logos-delivery network; a background task prunes. This development models the
  service in \<open>src/src\<close>, its unit tests, and its three client programs in \<open>src/examples\<close>, operation by
  operation, and proves what makes them correct.

  \<^bold>\<open>Parts and theories.\<close> In the order of the imports:

  \<^item> \<open>Prelude\<close>: Rust's integer types as words, \<open>as i64\<close>, \<open>saturating_sub\<close>, little-endian bytes, and the
    combinators for \<open>?\<close>, \<open>map_err\<close> and \<open>Ok\<close> on operations that read and update a state.
  \<^item> \<open>Timekeeping\<close> (\<open>store.rs\<close>: \<open>now_ms\<close> and the casts around it): durations, the stamp of a row, the
    cutoff of a prune, and for which clocks and windows they are what they should be.
  \<^item> \<open>Lamport\<close> (\<open>store.rs\<close>: \<open>payload_lamport\<close>, \<open>BUNDLE_DOMAIN\<close>): the header of an account payload.
  \<^item> \<open>External\<close>: the crates the service calls, as two records of functions (\<open>deps\<close>: hex, base64, ed25519;
    \<open>account_log_api\<close>: the account-log crate), and the documented behaviour it relies on as named
    predicates (\<open>hex_laws\<close>, \<open>base64_laws\<close>, \<open>account_log_laws\<close>). \<open>Sample_Crates\<close> has concrete functions that
    satisfy them, with RFC 4648 hex and base64, for the closed examples.
  \<^item> \<open>Sql_Tables\<close> (the migrations and the SQL text of \<open>store.rs\<close>): tables as lists of rows, one definition
    per statement, the window function of the keypackage prune included.
  \<^item> \<open>Store\<close> (\<open>impl Store\<close>): every operation but \<open>open\<close>. The state is the committed tables, the clock, and the
    failures of the coming database calls, so that every \<open>?\<close> of the source is a branch. \<open>Store_Open\<close>
    is \<open>Store::open\<close>, as the trace of what it asks of the file system and the driver.
  \<^item> \<open>Versioned\<close>: the contract of a table whose rows are replaced only by newer ones, as locales
    (\<open>versions\<close>, \<open>cells\<close>, \<open>cas_table\<close>).
  \<^item> \<open>Bundle\<close> (\<open>bundle.rs\<close>): decoding, proof of possession, the three \<open>apply_*\<close> operations; the account bundles
    interpret \<open>cas_table\<close> with the order of lamports. \<open>Account_Log\<close> does so for the logs with strict
    extension as the order, over any crate that satisfies its laws (locale \<open>account_log_crate\<close>).
  \<^item> \<open>Retention\<close>: what the two prunes keep and delete.
  \<^item> \<open>Write_Lock\<close>: the write lock. Each writing operation as the sequence of its database calls, tasks that
    interleave call by call and may be dropped at any of them. \<open>Lock_Progress\<close>: that they all end.
  \<^item> \<open>Handlers\<close> (\<open>handlers.rs\<close>, \<open>handlers/*\<close>): the JSON encoding of bundles, \<open>ApiError\<close>, the six handlers, the
    route table; axum's routing and extractors are a record of functions. \<open>Endpoints\<close> has what a
    client sees of them.
  \<^item> \<open>Delivery\<close> (\<open>delivery.rs\<close>): topic filter, start of the node, ingest loop; the node library and the
    protobuf decoders are parameters.
  \<^item> \<open>Server\<close> (\<open>main.rs\<close>): the command line, the prune task, the order of startup.
  \<^item> \<open>System\<close>: the running service as a step relation on the store (requests, messages, prunes, in any order,
    at any instant, with any failures), and locale \<open>store_invariant\<close>, what a predicate must satisfy to hold in
    every reachable state, interpreted for authenticity, primary keys and validity of logs.
  \<^item> \<open>Traces\<close>: machines, the traces observed of their runs, and locale \<open>forward_simulation\<close>. \<open>Plans\<close>: every handler,
    message and prune as the one query or the one locked operation it makes of the store and the answer it gives
    from the result, and that a plan run alone is the handler. \<open>Linearization\<close>: all of them at once, as jobs that are
    invoked, interleave at every await, are answered or given up; the specification in which each takes effect in one
    step of \<open>System\<close>; and the simulation between the two. \<open>Service_Progress\<close>: that every job ends.
  \<^item> \<open>Acknowledged\<close>: what an answer is worth afterwards, as locale \<open>kept_value\<close>, interpreted for the account logs and the
    account bundles. \<open>Lifecycle\<close> (\<open>main.rs\<close>): the program from startup to exit and over many lives on one database file, as
    a machine on top of the concurrent service: the prune task and the ingest thread as loops (locale
    \<open>sequential_loop\<close>) that are at one await at a time, the queue of the node between the network and the ingest thread,
    requests while it serves, the shutdown signal, the exit, kills at any moment, restarts. It interprets
    \<open>forward_simulation\<close> again, so that what is shown of concurrent runs holds over lives. \<open>Sample_Service\<close> has a
    concrete service and runs of it for the closed examples.
  \<^item> \<open>Interference\<close>: clients as programs of requests, threads that interleave request by request on a shared
    state, and locale \<open>shared_state\<close>, a rely-guarantee rule: threads that each succeed under the interference of the
    others all succeed, on every schedule.
  \<^item> \<open>Benchmark\<close> (\<open>examples/benchmark.rs\<close>): options, split of the work, keys, and the business flow, run against
    the handlers of the service (locale \<open>loopback\<close>). \<open>Benchmark_Run\<close>: the flow as a program of requests, the
    worker threads and their schedules, an interpretation of \<open>shared_state\<close>. \<open>Polling\<close>: the two loops that
    wait for a server (\<open>wait_until_ready\<close>, and \<open>poll_until_stored\<close> of the delivery smoke test).
    \<open>Benchmark_Main\<close>: \<open>main\<close>, the server process and its clean-up, as a trace of calls to the operating system.
  \<^item> \<open>Smoke_Test\<close> (\<open>examples/smoke_test.rs\<close>) and \<open>Delivery_Smoke\<close> (\<open>examples/delivery_smoke_test.rs\<close>): the
    two smoke-test clients, with every line they print.
  \<^item> \<open>Protobuf_Wire\<close>: the wire format, as the reference that the protobuf decoders are assumed to keep to.
  \<^item> \<open>Store_Tests\<close> and \<open>Bundle_Tests\<close>: the unit tests of \<open>store.rs\<close> and \<open>bundle.rs\<close> as operations that may panic;
    locale \<open>log_tests\<close> has the logs the tests build with the drafts of the account-log crate.
  \<^item> This theory: the properties that span the components.

  \<^bold>\<open>What is shown.\<close> Concurrency: the service is linearizable, that is, every trace of invocations and answers of jobs
  that run at once, with any failures, is one of the service that does one thing at a time, and the tables at every moment
  are those of a reachable store of \<open>System\<close>; the one exception is the keypackage prune, which may take effect in two
  steps, one for each of its statements. So what is shown of one step after another holds of the concurrent
  service, and of the program over any number of crashes and restarts. Durability: once a post was answered with 204, every
  later fetch gives the posted log or an extension of it, and, while no account prune intervenes, the posted bundle or one
  with a higher lamport. Authenticity: in every concurrent run a fetch is answered only with what verifies under the key
  or address asked for. Anti-replay: the bundles accepted for an account carry strictly increasing lamports,
  over whole histories, and between account prunes over every run; a log only ever grows, between any two moments of a
  concurrent run. Types: at every moment the primary keys hold and every row is well formed.
  Atomicity: a submission is accepted or changes no table, whatever database call fails; under the write
  lock every interleaving equals a serial run, and the operations of \<open>Store\<close> are the call sequences that
  interleave. Round trips: what was posted is what is fetched, for all three kinds of object. Two write
  paths, one pipeline: a network message has the effect of the post of the same bytes, and a rejected one
  affects no other. Answers: the status, message and effect of every request, and that internal errors
  show nothing of their cause. Retention: exactly which rows a prune keeps, that the newest keypackage in the
  window stays, that the bounds hold after each turn of the task, and that one failing prune does not stop the
  other. Startup: the service never listens half started. Progress: no schedule of the write lock is stuck, and each
  operation ends within six steps of its own; no mix of jobs is stuck, and without new ones all end within nine steps each;
  and after the shutdown signal every schedule brings the program to its end, within nine steps for each job under way and
  three more, with every request answered. Order: network messages are handled in the order they arrived, each once and one
  at a time, and the prunes come in turns. Clients: under every schedule of the benchmark's workers each
  operation takes its seven requests and none fails; the requests of a flow are the flow; the polling loops end within
  201 and 47 attempts; the benchmark always stops its server and removes its files; the smoke tests print every line
  they should, in order. Tests: the unit tests of the store and of the v0 bundles pass at whatever instants their calls are made, the
  concurrent one under every schedule, though the database may answer that it is busy whenever two tasks are in it; the
  tests of the account logs pass from what they presuppose of the drafts of the account-log crate.

  Some theorems state what the code does where its documentation says otherwise, or where a flag has an extreme
  value: a replay is accepted after the row was pruned, a second keypackage of a device in one millisecond
  is answered with 500, keys in upper case are accepted but not found, a \<open>max_per_identity\<close> of \<open>2 ^ 63\<close> or
  more deletes everything, a \<open>retention_days\<close> above 213503982334 stands for a window modulo \<open>2 ^ 64\<close> milliseconds, the benchmark starts its server with the delivery network enabled.

  \<^bold>\<open>Bounds.\<close> Integers have the width of the source. No definition uses fuel: loops are over lists (the queue,
  the ticks, the arguments) or structural, and the polling loops end by a measure, the time left until their
  deadline, since every pause is at least as long as asked for. The benchmark's theorem is for at most \<open>2 ^ 31\<close> workers
  and \<open>2 ^ 32\<close> operations, where the sequence numbers of its operations are distinct, and supposes of the signer that the keys
  of the run are. Clocks are unbounded integers
  of nanoseconds and may jump; lemmas that need a clock between the epoch and \<open>2 ^ 63\<close> milliseconds after it say so (\<open>clock_sane\<close>).

  \<^bold>\<open>Not modelled.\<close> Log output other than the lines of the ingest loop and the prune task; how axum
  notices the signal and closes connections (the model lets requests come in to the end, and only has the process wait for those
  under way, as \<open>with_graceful_shutdown\<close> documents); a database call whose future is dropped and that the driver's own thread
  completes after the write lock was given back (in the model it took effect before, or never does); the SQL engine beyond the statements the source uses (a failing call has no effect, a
  committed one is durable); a restart with other options or on a database in memory; of the benchmark, the text of
  the three figures that are floating-point numbers and the HTTP client's timeout; build files, images and CI.
\<close>

section \<open>What the service hands out\<close>

text \<open>
  What the service hands out when it does one thing at a time: from a store with authentic rows and verified logs, as
  every reachable one is, under any database failures, a v0 fetch that succeeds returns a payload and a signature that verify under the key asked for, and a v1
  fetch a log that verifies under the address asked for.
\<close>

lemma fetched_bundles_verify:
  assumes rows: "rows_authentic (codecs srv) s"
  shows "(\<forall>dev resp t. fetch_key_package (codecs srv) dev s = (Inr resp, t) \<longrightarrow>
       (\<exists>p g. resp = \<lparr>fkp_payload = b64_encode (codecs srv) p, fkp_signature = b64_encode (codecs srv) g\<rparr> \<and>
              signed_by (codecs srv) dev p g)) \<and>
     (\<forall>acct resp t. fetch_account_v0 (codecs srv) acct s = (Inr resp, t) \<longrightarrow>
       (\<exists>p g. fac_payload resp = b64_encode (codecs srv) p \<and> fac_signature resp = b64_encode (codecs srv) g \<and>
              signed_by (codecs srv) acct p g \<and> payload_lamport p \<noteq> None))"
proof (intro conjI allI impI)
    fix dev resp t
    assume "fetch_key_package (codecs srv) dev s = (Inr resp, t)"
    then obtain r where "sql_latest_keypackage dev (pool s) = Some r"
      and "resp = \<lparr>fkp_payload = b64_encode (codecs srv) (kp_payload r),
                    fkp_signature = b64_encode (codecs srv) (kp_signature r)\<rparr>"
      unfolding fetch_key_package_def latest_def
      by (auto elim!: try_await_cases fetch_pool_cases simp: map_err_Inr_iff eff_simps
          Some_eq_map_option split: option.splits)
    then show "\<exists>p g. resp = \<lparr>fkp_payload = b64_encode (codecs srv) p, fkp_signature = b64_encode (codecs srv) g\<rparr> \<and>
              signed_by (codecs srv) dev p g"
      using rows latest_keypackage_Some(1,2) by (fastforce simp: rows_authentic_def)
  next
    fix acct resp t
    assume "fetch_account_v0 (codecs srv) acct s = (Inr resp, t)"
    then obtain r where "sql_select_account acct (pool s) = Some r"
      and "fac_payload resp = b64_encode (codecs srv) (ab_payload r)"
      and "fac_signature resp = b64_encode (codecs srv) (ab_signature r)"
      unfolding fetch_account_v0_def get_account_def
      by (auto elim!: try_await_cases fetch_pool_cases simp: map_err_Inr_iff eff_simps
          Some_eq_map_option split: option.splits)
    then show "\<exists>p g. fac_payload resp = b64_encode (codecs srv) p \<and> fac_signature resp = b64_encode (codecs srv) g \<and>
              signed_by (codecs srv) acct p g \<and> payload_lamport p \<noteq> None"
      using rows select_account_Some by (fastforce simp: rows_authentic_def)
qed

lemma fetched_logs_verify:
  assumes "account_log_laws (account_log srv)" and "logs_verified (account_log srv) s"
    and "addr_parse (account_log srv) path = Some a"
    and "fetch_account_v1 (codecs srv) (account_log srv) path s = (Inr (headers, body), t)"
  shows "\<exists>slog rec. signed_from_bytes (account_log srv) body = Inr slog \<and> record_new (account_log srv) a slog = Inr rec"
proof -
  let ?api = "account_log srv"
  have crate: "account_log_crate ?api" using assms(1) by (rule account_log_crate.intro)
  obtain row where "sql_select_log (addr_to_string ?api a) (pool s) = Some row" and "body = al_signed_log row"
    using assms(3,4) unfolding fetch_account_v1_def try_await_lift get_account_log_def parse_addr_def
    by (auto elim!: try_await_cases fetch_pool_cases simp: map_err_Inr_iff eff_simps Some_eq_map_option
        split: option.splits)
  then show ?thesis using account_log_crate.stored_log [OF crate assms(2)] by metis
qed

section \<open>The concurrent service\<close>

text \<open>
  C2. The service is linearizable, but for one job. Whatever requests, messages and prunes run at once, however their database
  calls interleave, whichever calls fail and whichever jobs are given up: the answers could have been given by a
  service that handles each job in one step, at some moment between its invocation and its answer, and the
  committed tables are at every moment those of that service. The exception is the keypackage prune, which deletes in two
  statements outside a transaction: it may take effect in two steps, what is too old first and, at the instant read then, what is
  too many, and a fetch can see the tables between the two. No other job is ever split.
\<close>

theorem service_is_linearizable:
  assumes "run (concurrent_step srv) (opened_world db) tr w"
  shows "\<exists>u. run (atomic_step srv) (opened_atomic db) tr u \<and> pool (data u) = committed (locked w) \<and>
     (\<forall>i. halved u i \<noteq> None \<longrightarrow> Invoked i PruneKeyPackages \<in> set tr)"
proof -
  obtain u where u: "run (atomic_step srv) (opened_atomic db) tr u" "simulates srv db w u"
    by (rule linearized.simulated [OF assms opened_simulated])
  with only_prunes_split [OF u(1)] simulatesD(2) [OF u(2)] show ?thesis by blast
qed

theorem service_is_linearizable_witness:
  "\<exists>w u. run (concurrent_step sample_service) (opened_world empty_tables) sample_trace w \<and>
     run (atomic_step sample_service) (opened_atomic empty_tables) sample_trace u \<and> pool (data u) = committed (locked w) \<and>
     halved u = (\<lambda>_. None)"
proof -
  obtain w where w: "run (concurrent_step sample_service) (opened_world empty_tables) sample_trace w"
    by (rule sample_concurrent_run)
  from service_is_linearizable [OF this] obtain u where
    "run (atomic_step sample_service) (opened_atomic empty_tables) sample_trace u" "pool (data u) = committed (locked w)"
    "\<forall>i. halved u i \<noteq> None \<longrightarrow> Invoked i PruneKeyPackages \<in> set sample_trace" by blast
  moreover from this(3) have "halved u = (\<lambda>_. None)" by (auto simp: sample_trace_def)
  ultimately show ?thesis using w by blast
qed

text \<open>
  C8. The service never hangs, and it drains. At every moment of a concurrent run some unanswered request, message or
  prune can go on without any being given up; without new arrivals all of them together make at most nine steps
  each, in whatever order they run, whichever of their database calls fail and whichever clients go away; and when no
  step is left every one of them is answered or given up and the write lock is free.
\<close>

theorem service_drains:
  assumes "run (concurrent_step srv) (opened_world db) tr w"
  shows "(outstanding w \<noteq> {} \<longrightarrow>
       (\<exists>w'. drain_step srv w w' \<and> (\<forall>i. jobs w' i = Some Abandoned \<longrightarrow> jobs w i = Some Abandoned))) \<and>
     (\<forall>n w'. (drain_step srv ^^ n) w w' \<longrightarrow> n \<le> 9 * card (outstanding w)) \<and>
     (\<forall>w'. (drain_step srv)\<^sup>*\<^sup>* w w' \<and> \<not> (\<exists>w''. drain_step srv w' w'') \<longrightarrow> outstanding w' = {} \<and> write_lock (locked w') = None)"
proof (intro conjI allI impI)
  note serv = in_service_run [OF assms]
  show "\<exists>w'. drain_step srv w w' \<and> (\<forall>i. jobs w' i = Some Abandoned \<longrightarrow> jobs w i = Some Abandoned)" if "outstanding w \<noteq> {}"
    using that drain_step_possible [OF serv] by blast
  show "n \<le> 9 * card (outstanding w)" if "(drain_step srv ^^ n) w w'" for n w'
    using drain_steps_bound [OF serv _ order_refl that] work_left_outstanding [OF serv] serv
    by (simp add: in_service_def)
  fix w' assume run: "(drain_step srv)\<^sup>*\<^sup>* w w' \<and> \<not> (\<exists>w''. drain_step srv w' w'')"
  then have serv': "in_service srv db w'" by (blast intro: drain_steps_in_service [OF _ serv])
  show none: "outstanding w' = {}" using drain_step_possible [OF serv'] run by blast
  have "lock_inv db (locked w')" using serv' by (auto simp: in_service_def dest: simulatesD(1))
  note owner = lock_inv_owner [OF this]
  show "write_lock (locked w') = None"
  proof (rule ccontr)
    assume "write_lock (locked w') \<noteq> None"
    then obtain i where "engaged (tasks (locked w') i)" using owner unfolding engaged_def by blast
    then show False by (rule in_service_engaged [OF serv']) (use none in \<open>auto simp: outstanding_def\<close>)
  qed
qed

theorem service_drains_witness:
  "let w = (opened_world empty_tables)\<lparr>jobs := [0 \<mapsto> Running (Http (post_log [5, 6])), 1 \<mapsto> Running PruneAccounts]\<rparr>
   in outstanding w = {0, 1} \<and> (\<exists>w'. drain_step sample_service w w') \<and>
      (\<forall>n w'. (drain_step sample_service ^^ n) w w' \<longrightarrow> n \<le> 18)"
proof -
  let ?start = "opened_world empty_tables"
  define w1 where "w1 = ?start\<lparr>jobs := (jobs ?start)(0 \<mapsto> Running (Http (post_log [5, 6])))\<rparr>"
  define w where "w = w1\<lparr>jobs := (jobs w1)(1 \<mapsto> Running PruneAccounts)\<rparr>"
  have "concurrent_step sample_service ?start (Some (Invoked 0 (Http (post_log [5, 6])))) w1"
    unfolding w1_def by (rule concurrent_step.invoke) (simp add: opened_world_def)
  note first = run.observed [where M = "concurrent_step sample_service", OF run.start this]
  have "concurrent_step sample_service w1 (Some (Invoked 1 PruneAccounts)) w"
    unfolding w_def by (rule concurrent_step.invoke) (simp add: w1_def opened_world_def)
  note drains = service_drains [OF run.observed [where M = "concurrent_step sample_service", OF first this]]
  have "outstanding w = {0, 1}" by (auto simp: outstanding_def w_def w1_def opened_world_def)
  moreover have "w = ?start\<lparr>jobs := [0 \<mapsto> Running (Http (post_log [5, 6])), 1 \<mapsto> Running PruneAccounts]\<rparr>"
    by (simp add: w_def w1_def opened_world_def)
  ultimately show ?thesis using drains unfolding Let_def by auto
qed

text \<open>What the answers and the tables of a concurrent run are.\<close>

lemma concurrent_run:
  assumes "run (concurrent_step srv) (opened_world empty_tables) tr w"
  obtains u where "simulates srv empty_tables w u" and "reachable srv (data u)" and "pool (data u) = committed (locked w)"
    and "\<And>i a out. Invoked i a \<in> set tr \<Longrightarrow> Returned i out \<in> set tr \<Longrightarrow> answers_alone srv a out"
proof -
  obtain u where u: "run (atomic_step srv) (opened_atomic empty_tables) tr u" "simulates srv empty_tables w u"
    by (rule linearized.simulated [OF assms opened_simulated])
  note acc = atomic_accounted [OF u(1)]
  show thesis by (rule that [OF u(2) accountedD(1) [OF acc] simulatesD(2) [OF u(2)] accountedD(5) [OF acc]])
qed

lemma answered_fetch:
  assumes "answers_alone srv (Http req) (Responded resp)" and "select_route (web srv) router req = Inr (ep, param)"
  obtains s where "fst (call_endpoint (web srv) (codecs srv) (account_log srv) ep param req s) = resp"
    and "rows_authentic (codecs srv) s" and "account_log_laws (account_log srv) \<Longrightarrow> logs_verified (account_log srv) s"
proof -
  obtain s x where s: "reachable srv s" and out: "fst (perform srv (Http req) (at_instant x s)) = Responded resp"
    using assms(1) by (auto simp: answers_alone_def)
  have "rows_authentic (codecs srv) s" by (rule authentic.reachable_keep [OF s refl refl])
  moreover have "logs_verified (account_log srv) s" if "account_log_laws (account_log srv)"
    by (rule store_invariant.reachable_keep [OF account_log_crate.logs_invariant [OF account_log_crate.intro [OF that]] s refl refl])
  ultimately show thesis
    using out assms(2) by (intro that [of "at_instant x s"]) (auto simp: perform_def serve_def rows_authentic_def)
qed

lemma respond_OK:
  assumes "resp_status (fst (respond f h s)) = OK" and "\<And>e t. h s = (Inl e, t) \<Longrightarrow> err_status e \<noteq> OK"
  obtains x t where "h s = (Inr x, t)" and "fst (respond f h s) = f x"
  using assms by (cases "h s"; cases "fst (h s)") (auto simp: respond_def into_response_def)

lemma fetch_errors:
  "fetch_key_package d dev s = (Inl e, t) \<Longrightarrow> err_status e \<noteq> OK"
  "fetch_account_v0 d acct s = (Inl e, t) \<Longrightarrow> err_status e \<noteq> OK"
  "fetch_account_v1 d api path s = (Inl e, t) \<Longrightarrow> err_status e \<noteq> OK"
  by (auto simp: fetch_key_package_def fetch_account_v0_def fetch_account_v1_def parse_addr_def try_await_def map_err_def
      lift_result_def fail_def ok_def not_found_def internal_def api_error_from_def
      split: prod.splits sum.splits option.splits)

text \<open>
  C6. A consumer never meets a bundle or a log that its own check must reject. However requests, messages and prunes
  run at once, and whatever database calls fail, what a fetch is answered with 200 verifies: a keypackage
  or an account bundle is the encoding of a payload and a 64-byte signature over it under the 32-byte key whose hex was
  asked for, an account bundle also carries a lamport, and a log decodes to a signed log that verifies under
  the address asked for.
\<close>

theorem concurrent_fetches_verify:
  assumes "run (concurrent_step srv) (opened_world empty_tables) tr w"
    and "Invoked i (Http req) \<in> set tr" and "Returned i (Responded resp) \<in> set tr"
    and "select_route (web srv) router req = Inr (ep, param)" and "resp_status resp = OK"
  shows "case ep of
      FetchKeyPackage \<Rightarrow> \<exists>p g. resp_body resp = KeyPackageBody
          \<lparr>fkp_payload = b64_encode (codecs srv) p, fkp_signature = b64_encode (codecs srv) g\<rparr> \<and>
        signed_by (codecs srv) param p g
    | FetchAccountV0 \<Rightarrow> \<exists>p g time. resp_body resp = AccountBody
          \<lparr>fac_payload = b64_encode (codecs srv) p, fac_signature = b64_encode (codecs srv) g, fac_updated_at = time\<rparr> \<and>
        signed_by (codecs srv) param p g \<and> payload_lamport p \<noteq> None
    | FetchAccountV1 \<Rightarrow> account_log_laws (account_log srv) \<longrightarrow> (\<exists>a body slog rec. resp_body resp = RawBody body \<and>
        addr_parse (account_log srv) param = Some a \<and> signed_from_bytes (account_log srv) body = Inr slog \<and>
        record_new (account_log srv) a slog = Inr rec)
    | _ \<Rightarrow> True"
proof -
  let ?d = "codecs srv" and ?api = "account_log srv"
  have "answers_alone srv (Http req) (Responded resp)"
    by (rule concurrent_run [OF assms(1)]) (use assms(2,3) in blast)
  from answered_fetch [OF this assms(4)] obtain s where
    s: "fst (call_endpoint (web srv) ?d ?api ep param req s) = resp" "rows_authentic ?d s"
      "account_log_laws ?api \<Longrightarrow> logs_verified ?api s" by blast
  note verified = fetched_bundles_verify [OF s(2)]
  show ?thesis
  proof (cases ep)
    case FetchKeyPackage
    obtain b t where "fetch_key_package ?d param s = (Inr b, t)" "resp_body resp = KeyPackageBody b"
      by (rule respond_OK [OF _ fetch_errors(1), of "\<lambda>b. \<lparr>resp_status = OK, resp_headers = [], resp_body = KeyPackageBody b\<rparr>"])
        (use s(1) assms(5) FetchKeyPackage in \<open>auto simp: call_endpoint_def\<close>)
    then show ?thesis using verified FetchKeyPackage by fastforce
  next
    case FetchAccountV0
    obtain b t where "fetch_account_v0 ?d param s = (Inr b, t)" "resp_body resp = AccountBody b"
      by (rule respond_OK [OF _ fetch_errors(2), of "\<lambda>b. \<lparr>resp_status = OK, resp_headers = [], resp_body = AccountBody b\<rparr>"])
        (use s(1) assms(5) FetchAccountV0 in \<open>auto simp: call_endpoint_def\<close>)
    then show ?thesis using verified FetchAccountV0 by (cases b) fastforce
  next
    case FetchAccountV1
    obtain hs b t where fetch: "fetch_account_v1 ?d ?api param s = (Inr (hs, b), t)" "resp_body resp = RawBody b"
      by (rule respond_OK [OF _ fetch_errors(3), of "\<lambda>(hs, b). \<lparr>resp_status = OK, resp_headers = hs, resp_body = RawBody b\<rparr>"])
        (use s(1) assms(5) FetchAccountV1 in \<open>auto simp: call_endpoint_def\<close>)
    then obtain a where "addr_parse ?api param = Some a"
      by (auto simp: fetch_account_v1_def parse_addr_def try_await_def map_err_def lift_result_def split: option.splits)
    then show ?thesis using fetched_logs_verify [OF _ s(3) _ fetch(1)] fetch(2) FetchAccountV1 by auto
  qed simp_all
qed

theorem concurrent_fetches_verify_witness:
  "select_route sample_axum router get_log = Inr (FetchAccountV1, base16_encode [7]) \<and>
   (\<exists>a body slog rec. resp_body log_response = RawBody body \<and> addr_parse sample_log (base16_encode [7]) = Some a \<and>
      signed_from_bytes sample_log body = Inr slog \<and> record_new sample_log a slog = Inr rec)"
proof -
  obtain w where w: "run (concurrent_step sample_service) (opened_world empty_tables) sample_trace w"
    by (rule sample_concurrent_run)
  have route: "select_route (web sample_service) router get_log = Inr (FetchAccountV1, base16_encode [7])"
    by (simp add: sample_axum_def get_log_def del: base16_encode.simps)
  from concurrent_fetches_verify [OF w, of 1 get_log log_response, OF _ _ route] route show ?thesis
    by (simp add: sample_trace_def log_response_def sample_account_log_laws del: base16_encode.simps)
qed

text \<open>
  C7. An account's published log stays and only grows, while everything else goes on. Between any two moments of a
  concurrent run, prunes, failures and given-up jobs included: a log that was stored for an account is still stored
  at the later moment, or one that strictly extends it.
\<close>

theorem logs_never_shrink:
  assumes "account_log_laws (account_log srv)" and "run (concurrent_step srv) (opened_world empty_tables) tr w"
    and "run (concurrent_step srv) w tr' w'" and "log_cell (store_of (committed (locked w))) k = Some v"
  shows "\<exists>v'. log_cell (store_of (committed (locked w'))) k = Some v' \<and> (v' = v \<or> extends v v')"
proof -
  have crate: "account_log_crate (account_log srv)" using assms(1) by (rule account_log_crate.intro)
  obtain u where u: "simulates srv empty_tables w u" "reachable srv (data u)" "pool (data u) = committed (locked w)"
    by (rule concurrent_run [OF assms(2)])
  obtain u' where u': "run (atomic_step srv) u tr' u'" "simulates srv empty_tables w' u'"
    by (rule linearized.simulated [OF assms(3) u(1)])
  have cell: "log_cell (store_of (pool s)) k = log_cell s k" for s by (simp add: log_cell_def store_of_def)
  have "log_cell (data u) k = Some v" using assms(4) u(3) cell by metis
  from account_log_crate.run_log_cell [OF crate u(2) atomic_data_steps [OF u'(1)] refl this]
  show ?thesis using cell [of "data u'"] simulatesD(2) [OF u'(2)] by simp
qed

theorem logs_never_shrink_witness:
  "\<exists>w w' v'. run (concurrent_step sample_service) w [Invoked 2 (Http (post_log [5])), Returned 2 (Responded
       (into_response (api_error_from sample_deps sample_log Stale)))] w' \<and>
     log_cell (store_of (committed (locked w'))) (base16_encode [7]) = Some v' \<and>
     (v' = sample_artifact [5, 6] \<or> extends (sample_artifact [5, 6]) v')"
proof -
  obtain w where w: "run (concurrent_step sample_service) (opened_world empty_tables) sample_trace w"
    "log_cell (store_of (committed (locked w))) (base16_encode [7]) = Some (sample_artifact [5, 6])"
    "write_lock (locked w) = None" "jobs w 2 = None" "tasks (locked w) 2 = None"
    by (rule sample_concurrent_run)
  let ?s = "\<lparr>pool = committed (locked w), clock = 7000000, faults = []\<rparr>"
  obtain u :: atomic where u: "reachable sample_service (data u)" "pool (data u) = committed (locked w)"
    by (rule concurrent_run [OF w(1)]) (rule that)
  have "logs_verified sample_log (data u)"
    using store_invariant.reachable_keep [OF account_log_crate.logs_invariant [OF account_log_crate.intro
        [OF sample_account_log_laws]] u(1)] by simp
  then have inv: "logs_verified sample_log ?s" by (simp add: logs_verified_def u(2))
  have cell: "log_cell ?s (base16_encode [7]) = Some (sample_artifact [5, 6])"
    using w(2) by (simp add: log_cell_def store_of_def)
  have quiet: "quiet ?s" by (simp add: quiet_def)
  have "apply_account_log sample_log [7] (sample_signed_log [7] [5]) ?s = (Inl Stale, ?s)"
    using sample_logs.verdict(4) [OF quiet inv sample_log_simps(1), of "[7]" "sample_artifact [5, 6]" "[5]"] cell
    by (simp add: extends_def sample_artifact_def strict_prefix_def del: base16_encode.simps)
  then have "perform sample_service (Http (post_log [5])) ?s =
      (Responded (into_response (api_error_from sample_deps sample_log Stale)), ?s)"
    by (simp add: perform_def serve_def sample_axum_def post_log_def call_endpoint_def respond_def submit_account_v1_run
        parse_sample_addr decode_sample_artifact del: base16_encode.simps)
  from does_alone [OF w(4,5,3) this] obtain w' where
    "run (concurrent_step sample_service) w [Invoked 2 (Http (post_log [5])), Returned 2 (Responded
       (into_response (api_error_from sample_deps sample_log Stale)))] w'" by blast
  with logs_never_shrink [OF _ w(1) this w(2)] show ?thesis by (simp add: sample_account_log_laws) blast
qed

text \<open>
  C38. The refusal of replays lasts only as long as the row: once an account prune has deleted an
  account's bundle, any authentic bundle the account ever signed is accepted again, also one whose
  lamport was below the deleted one's and that would have been refused before the prune.
\<close>

theorem pruned_account_accepts_replay:
  assumes "quiet s" and "store_wf s" and "authentic d (bkey b) (bpayload b) (bsignature b)"
    and "payload_lamport (bpayload b) = Some lamport"
    and "sql_select_account (key_hex d b) (pool s) = Some row" and "ab_updated_at row < cutoff_ms (clock s) window"
    and "payload_lamport (ab_payload row) = Some stored" and "lamport \<le> stored"
  shows "apply_account d b s = (Inl Stale, s) \<and>
     (\<exists>t. apply_account d b (snd (prune_accounts window s)) = (Inr (), t) \<and>
          account_cell t (key_hex d b) = Some (bpayload b, bsignature b))"
proof -
  have ver: "verify d b = Inr ()" using assms(3) by (simp add: verify_Inr_iff)
  have "holds_lamport (key_hex d b) lamport (pool s)" using assms(5,7,8) by (auto simp: holds_lamport_iff)
  then have before: "apply_account d b s = (Inl Stale, s)"
    using assms(1,4) ver by (simp add: apply_account_quiet)
  let ?db = "sql_delete_old_accounts (cutoff_ms (clock s) window) (pool s)"
  have "sql_select_account (key_hex d b) ?db = None"
    using assms(2,5,6) by (simp add: select_account_delete_old store_wf_def tables_wf_def)
  then have "\<not> holds_lamport (key_hex d b) lamport ?db" by (simp add: holds_lamport_def)
  then have "apply_account d b (snd (prune_accounts window s)) =
      (Inr (), s\<lparr>pool := sql_upsert_account (key_hex d b) (stamp_ms (clock s)) (bpayload b) (bsignature b) ?db\<rparr>)"
    using assms(1,4) ver by (simp add: prune_accounts_quiet apply_account_quiet)
  then show ?thesis using before by (simp add: account_cell_def)
qed

theorem pruned_account_accepts_replay_witness:
  "let old = sample_bundle 7 (payload_with_lamport 5); new = sample_bundle 7 (payload_with_lamport 6);
       s = at_instant (9000000000, []) (snd (apply_account sample_deps new (fresh_store 0)))
   in apply_account sample_deps old s = (Inl Stale, s) \<and>
      (\<exists>t. apply_account sample_deps old (snd (prune_accounts (from_secs 1) s)) = (Inr (), t) \<and>
           account_cell t (key_hex sample_deps old) = Some (bpayload old, bsignature old))"
proof -
  let ?old = "sample_bundle 7 (payload_with_lamport 5)" and ?new = "sample_bundle 7 (payload_with_lamport 6)"
  let ?s = "at_instant (9000000000, []) (snd (apply_account sample_deps ?new (fresh_store 0)))"
  let ?row = "\<lparr>ab_account_pub = key_hex sample_deps ?new, ab_updated_at = 0, ab_payload = payload_with_lamport 6,
      ab_signature = bsignature ?new\<rparr>"
  have zero: "stamp_ms 0 = 0" by (simp add: stamp_ms_sane clock_sane_def)
  have pool: "pool ?s = sql_upsert_account (key_hex sample_deps ?new) 0 (payload_with_lamport 6) (bsignature ?new) empty_tables"
    by (simp add: apply_account_quiet zero)
  have cutoff: "cutoff_ms 9000000000 (from_secs 1) = 8000"
    by (subst cutoff_ms_sane) (simp_all add: clock_sane_def as_millis_def from_secs_def)
  have auth: "authentic sample_deps (bkey ?old) (bpayload ?old) (bsignature ?old)"
    using authentic_sample [of 7 "payload_with_lamport 5"] by simp
  have row: "sql_select_account (key_hex sample_deps ?old) (pool ?s) = Some ?row"
    unfolding pool by simp
  have wf: "store_wf ?s" unfolding store_wf_def pool by (simp add: upsert_account_wf)
  have "apply_account sample_deps ?old ?s = (Inl Stale, ?s) \<and>
     (\<exists>t. apply_account sample_deps ?old (snd (prune_accounts (from_secs 1) ?s)) = (Inr (), t) \<and>
          account_cell t (key_hex sample_deps ?old) = Some (bpayload ?old, bsignature ?old))"
    by (rule pruned_account_accepts_replay [OF _ wf auth _ row, of 5 "from_secs 1" 6]) (simp_all add: cutoff)
  then show ?thesis by (simp only: Let_def)
qed

section \<open>The program over its lives\<close>

text \<open>
  C3. Crashes and restarts are covered. Over any number of lives of the program on one database, each with its startup, its
  prune task, its ingest thread, its requests and its end, be it a graceful one or a kill at any moment, what is
  observed is a trace of the service that does one thing at a time and never stops, and the tables are that service's. A
  running program can be killed at any moment, and neither that nor a graceful exit changes the tables.
\<close>

theorem program_refines_service:
  assumes "run (program_step srv) (installed db) tr p"
  shows "(\<exists>u. run (atomic_step srv) (opened_atomic db) tr u \<and> pool (data u) = committed (locked (service_world p))) \<and>
     (alive p \<longrightarrow> (\<exists>p'. program_step srv p None p' \<and> phase p' = Stopped)) \<and>
     (\<forall>p' l. program_step srv p l p' \<and> \<not> alive p' \<longrightarrow>
        committed (locked (service_world p')) = committed (locked (service_world p)))"
proof (intro conjI allI impI)
  note run = program_run [OF assms]
  obtain u where "run (atomic_step srv) (opened_atomic db) tr u" and "simulates srv db (service_world p) u"
    by (rule linearized.simulated [OF run opened_simulated])
  then show "\<exists>u. run (atomic_step srv) (opened_atomic db) tr u \<and> pool (data u) = committed (locked (service_world p))"
    using simulatesD(2) by blast
  show "\<exists>p'. program_step srv p None p' \<and> phase p' = Stopped" if "alive p"
    using cut_off_possible [OF in_service_run [OF run]] program_step.crash [OF that] by fastforce
  fix p' l assume "program_step srv p l p' \<and> \<not> alive p'"
  then have step: "program_step srv p l p'" and dead: "\<not> alive p'" by auto
  from step show "committed (locked (service_world p')) = committed (locked (service_world p))"
    by (cases rule: program_step.cases)
      (use dead give_ups_committed in \<open>auto simp: alive_def cut_off_def connected_node_def started_def\<close>)
qed

theorem program_refines_service_witness:
  "\<exists>p u. lives p = 2 \<and> run (program_step sample_service) (installed empty_tables) sample_trace p \<and>
     run (atomic_step sample_service) (opened_atomic empty_tables) sample_trace u \<and>
     pool (data u) = committed (locked (service_world p))"
proof -
  obtain p where p: "run (program_step sample_service) (installed empty_tables) (take 2 sample_trace @ drop 2 sample_trace) p"
    "lives p = 2" by (rule sample_program_run)
  from program_refines_service [OF p(1)] p show ?thesis by (simp only: append_take_drop_id) blast
qed

text \<open>
  C4. A log that was acknowledged is never lost. When the post of a log was answered with 204, every request for that account's log
  that comes in afterwards is answered with a log that starts with the whole posted one, or with an internal error when the
  database fails; never with another log, and never with 404. This holds however many requests, messages and
  prunes run at once, and over crashes and restarts of the program between the two.
\<close>

theorem acknowledged_logs_are_served:
  assumes "account_log_laws (account_log srv)"
    and "run (program_step srv) (installed empty_tables) (ys @ zs) p"
    and "Invoked i post \<in> set ys" and "log_posts srv addr post body"
    and "Returned i (Responded (status_only NO_CONTENT)) \<in> set ys"
    and "Invoked j get \<in> set zs" and "log_gets srv addr get" and "Returned j out \<in> set zs"
  shows "\<exists>resp. out = Responded resp \<and>
     (resp_status resp = INTERNAL_SERVER_ERROR \<or>
      resp_status resp = OK \<and> (\<exists>log. resp_body resp = RawBody log \<and> prefix (drop 64 body) (drop 64 log)))"
proof -
  have run: "run (concurrent_step srv) (opened_world empty_tables) ([] @ ys @ zs) (service_world p)"
    using program_run [OF assms(2)] by simp
  obtain log where "prefix (drop 64 body) (drop 64 log)" and "log_served log out"
    by (rule served_logs.concurrent_serves [OF run, where addr = addr and v = body])
      (use assms in \<open>simp_all add: stored_answer_def logs_verified_def store_of_def empty_tables_def\<close>)
  then show ?thesis by (auto simp: log_served_def)
qed

theorem acknowledged_logs_are_served_witness:
  "log_posts sample_service [7] (Http (post_log [5, 6])) (sample_artifact [5, 6]) \<and> log_gets sample_service [7] (Http get_log) \<and>
   (\<exists>log. resp_body log_response = RawBody log \<and> prefix (drop 64 (sample_artifact [5, 6])) (drop 64 log))"
proof -
  obtain p where p: "run (program_step sample_service) (installed empty_tables) (take 2 sample_trace @ drop 2 sample_trace) p"
    by (rule sample_program_run)
  have post: "log_posts sample_service [7] (Http (post_log [5, 6])) (sample_artifact [5, 6])"
    and get: "log_gets sample_service [7] (Http get_log)"
    using parse_sample_addr by (simp_all add: log_posts_def log_gets_def sample_axum_def post_log_def get_log_def del: base16_encode.simps)
  show ?thesis
    using acknowledged_logs_are_served [OF _ p, of 0 "Http (post_log [5, 6])" "[7]" "sample_artifact [5, 6]" 1 "Http get_log"
        "Responded log_response"] post get
    by (simp add: sample_trace_def sample_account_log_laws log_response_def)
qed

text \<open>
  C5. The same holds for an account's bundle as long as no account prune intervenes. Let the account prunes that were begun before be
  over and none begin: when the post of a bundle was answered with 204, every later request for the account's bundle
  is answered with that bundle or with one of a higher lamport, or with an internal error; so a reader that comes
  later is never shown an older device list, over crashes and restarts too.
\<close>

theorem acknowledged_accounts_are_served:
  assumes "run (program_step srv) (installed db) (xs @ ys @ zs) p"
    and "\<forall>k. Invoked k PruneAccounts \<in> set xs \<longrightarrow> (\<exists>out. Returned k out \<in> set xs)"
    and "\<forall>k. Invoked k PruneAccounts \<notin> set (ys @ zs)"
    and "Invoked i post \<in> set ys" and "account_posts srv key post (payload, signature)"
    and "Returned i (Responded (status_only NO_CONTENT)) \<in> set ys"
    and "Invoked j get \<in> set zs" and "account_gets srv key get" and "Returned j out \<in> set zs"
  shows "\<exists>resp. out = Responded resp \<and>
     (resp_status resp = INTERNAL_SERVER_ERROR \<or>
      resp_status resp = OK \<and> (\<exists>p g time. resp_body resp = AccountBody
         \<lparr>fac_payload = b64_encode (codecs srv) p, fac_signature = b64_encode (codecs srv) g, fac_updated_at = time\<rparr> \<and>
         ((p, g) = (payload, signature) \<or> lamport_newer (payload, signature) (p, g))))"
proof -
  note run = program_run [OF assms(1)]
  obtain v where "v = (payload, signature) \<or> lamport_newer (payload, signature) v" and "account_served (codecs srv) v out"
    by (rule served_accounts.concurrent_serves [OF run, where k = key and v = "(payload, signature)"])
      (use assms(2-) in \<open>auto simp: stored_answer_def\<close>)
  then show ?thesis by (cases v) (auto simp: account_served_def)
qed

theorem acknowledged_accounts_are_served_witness:
  "\<exists>p g time. resp_body (account_response 5) = AccountBody
       \<lparr>fac_payload = b64_encode sample_deps p, fac_signature = b64_encode sample_deps g, fac_updated_at = time\<rparr> \<and>
     (let v = bundle_value (sample_bundle 7 (payload_with_lamport 5)) in (p, g) = v \<or> lamport_newer v (p, g))"
proof -
  let ?b = "sample_bundle 7 (payload_with_lamport 5)"
  let ?ys = "[Invoked 0 (Http (post_account 5)), Returned 0 (Responded (status_only NO_CONTENT))]"
  let ?zs = "[Invoked 1 (Http ask_account), Returned 1 (Responded (account_response 5))]"
  obtain q where "run (program_step sample_service) (installed empty_tables) (?ys @ ?zs) q" by (rule sample_account_run)
  then have q: "run (program_step sample_service) (installed empty_tables) ([] @ ?ys @ ?zs) q" by simp
  have post: "account_posts sample_service (base16_encode (replicate 32 7)) (Http (post_account 5)) (bpayload ?b, bsignature ?b)"
    unfolding account_posts_def using post_account_bundle [of 5]
    by (auto simp: route_account bundle_value_def simp del: base16_encode.simps)
  have get: "account_gets sample_service (base16_encode (replicate 32 7)) (Http ask_account)"
    by (simp add: account_gets_def route_account del: base16_encode.simps)
  have "\<exists>resp. Responded (account_response 5) = Responded resp \<and> (resp_status resp = INTERNAL_SERVER_ERROR \<or>
      resp_status resp = OK \<and> (\<exists>p g time. resp_body resp = AccountBody
         \<lparr>fac_payload = b64_encode (codecs sample_service) p, fac_signature = b64_encode (codecs sample_service) g, fac_updated_at = time\<rparr> \<and>
         ((p, g) = (bpayload ?b, bsignature ?b) \<or> lamport_newer (bpayload ?b, bsignature ?b) (p, g))))"
    by (rule acknowledged_accounts_are_served [OF q _ _ _ post _ _ get, of 0 1]) simp_all
  then show ?thesis by (simp add: account_response_def bundle_value_def Let_def)
qed

text \<open>
  C9. The two loops of the program do their work in order, while requests run beside them. In one life of the program the messages
  the ingest thread has taken, followed by those that wait in the queue, are the messages that arrived, in the order of
  arrival: each is handled once and none is overtaken or lost. The prunes come in turns, first the keypackages, then
  the accounts. And between the begin of one message and the next, as between one prune and the next, the trace has the return
  of the first.
\<close>

theorem loops_work_in_order:
  assumes "run (program_step srv) (started p) tr q" and "lives q = lives (started p)"
  shows "messages_taken tr @ inbound q = arrived q \<and>
     (\<exists>n. prunes_begun tr = turns_of n \<or> prunes_begun tr = turns_of n @ [PruneKeyPackages]) \<and>
     (\<forall>xs i a ys j b zs. tr = xs @ [Invoked i a] @ ys @ [Invoked j b] @ zs \<longrightarrow>
        (\<exists>m m'. a = Deliver m \<and> b = Deliver m') \<or> {a, b} \<subseteq> {PruneKeyPackages, PruneAccounts} \<longrightarrow>
        (\<exists>out. Returned i out \<in> set ys))"
proof -
  have life: "lives q = Suc (lives p)" using assms(2) by (simp add: started_def)
  obtain n where "messages_taken tr @ inbound q = arrived q" and "prunes_begun tr = prunes_so_far (pruner q) n"
    using life_order [OF assms(1)] life by blast
  moreover from this(2) have "prunes_begun tr = turns_of n \<or> prunes_begun tr = turns_of n @ [PruneKeyPackages]"
    by (cases "pruner q") (simp_all add: prunes_so_far_def)
  moreover have "\<exists>out. Returned i out \<in> set ys"
    if tr: "tr = xs @ [Invoked i a] @ ys @ [Invoked j b] @ zs"
      and "(\<exists>m m'. a = Deliver m \<and> b = Deliver m') \<or> {a, b} \<subseteq> {PruneKeyPackages, PruneAccounts}" for xs i a ys j b zs
    using that(2) ingest_thread.in_turn [OF assms(1) [unfolded tr] assms(2)] prune_loop.in_turn [OF assms(1) [unfolded tr] assms(2)]
    by auto
  ultimately show ?thesis by blast
qed

text \<open>Two messages arrive, and the prune task ticks; the first message has been taken.\<close>

theorem loops_work_in_order_witness:
  "\<exists>q. run (program_step sample_service) (started (installed empty_tables)) [Invoked 0 PruneKeyPackages, Invoked 1 (Deliver (Account [1]))] q \<and>
     inbound q = [KeyPackage [2]] \<and> arrived q = [Account [1], KeyPackage [2]]"
proof -
  let ?srv = sample_service and ?w = "opened_world empty_tables" and ?p = "started (installed empty_tables)"
  let ?m = "Account [1]" and ?m' = "KeyPackage [2]"
  define w1 where "w1 = ?w\<lparr>jobs := (jobs ?w)(0 \<mapsto> Running PruneKeyPackages)\<rparr>"
  define w2 where "w2 = w1\<lparr>jobs := (jobs w1)(1 \<mapsto> Running (Deliver ?m))\<rparr>"
  define p1 where "p1 = ?p\<lparr>service_world := w1, pruner := PruningKeyPackages 0\<rparr>"
  define p2 where "p2 = p1\<lparr>phase := Subscribed\<rparr>"
  define p3 where "p3 = p2\<lparr>inbound := inbound p2 @ [?m], arrived := arrived p2 @ [?m]\<rparr>"
  define p4 where "p4 = p3\<lparr>inbound := inbound p3 @ [?m'], arrived := arrived p3 @ [?m']\<rparr>"
  define p5 where "p5 = p4\<lparr>service_world := w2, inbound := [?m'], receiver := Some 1\<rparr>"
  have on: "\<not> no_delivery (config ?srv)" "prune_interval (config ?srv) \<noteq> from_secs 0"
    by (simp_all add: default_cli_def prune_interval_def from_secs_def)
  have s1: "concurrent_step ?srv ?w (Some (Invoked 0 PruneKeyPackages)) w1"
    unfolding w1_def by (rule concurrent_step.invoke) (simp add: opened_world_def)
  have s2: "concurrent_step ?srv w1 (Some (Invoked 1 (Deliver ?m))) w2"
    unfolding w2_def by (rule concurrent_step.invoke) (simp add: w1_def opened_world_def)
  note defs = p1_def p2_def p3_def p4_def p5_def started_def installed_def
  have "program_step ?srv ?p (Some (Invoked 0 PruneKeyPackages)) p1"
    unfolding p1_def by (rule program_step.tick) (use s1 on in \<open>simp_all add: started_def installed_def alive_def\<close>)
  moreover have "program_step ?srv p1 None p2" unfolding p2_def by (rule program_step.ingestion) (simp add: defs)
  moreover have "program_step ?srv p2 None p3" unfolding p3_def by (rule program_step.arrive) (use on in \<open>simp add: defs connected_node_def\<close>)
  moreover have "program_step ?srv p3 None p4" unfolding p4_def by (rule program_step.arrive) (use on in \<open>simp add: defs connected_node_def\<close>)
  moreover have "program_step ?srv p4 (Some (Invoked 1 (Deliver ?m))) p5"
    unfolding p5_def by (rule program_step.receive) (use on s2 in \<open>simp_all add: defs connected_node_def\<close>)
  ultimately have "run (program_step ?srv) ?p ([] @ [Invoked 0 PruneKeyPackages] @ [Invoked 1 (Deliver ?m)]) p5"
    by (metis append.assoc run.start run.silent [where M = "program_step ?srv"] run.observed [where M = "program_step ?srv"])
  then have run: "run (program_step ?srv) ?p [Invoked 0 PruneKeyPackages, Invoked 1 (Deliver ?m)] p5" by simp
  have "lives p5 = lives ?p" by (simp add: defs)
  from loops_work_in_order [OF run this] have "[?m] @ inbound p5 = arrived p5"
    by (simp add: messages_taken_def List.map_filter_simps)
  with run show ?thesis by (intro exI [of _ p5]) (simp add: p5_def)
qed

text \<open>
  C10. A shutdown signal is honoured. Let the signal have come, and let nobody kill the program, nothing new come in and no client go
  away. Then however the jobs under way are scheduled, and whichever of their database calls fail, the program makes at most nine
  steps for each of them and three more; and when it can make no more, it has ended and every request that was under way at
  the signal was answered. Only a message or a prune may be cut off by the end of the process.
\<close>

theorem shutdown_completes:
  assumes "run (program_step srv) (installed db) tr0 p" and "phase p = Draining"
  shows "(\<forall>n p'. (closing_step srv ^^ n) p p' \<longrightarrow> n \<le> 9 * card (outstanding (service_world p)) + 3) \<and>
     (\<forall>p'. (closing_step srv)\<^sup>*\<^sup>* p p' \<and> \<not> (\<exists>p''. closing_step srv p' p'') \<longrightarrow>
        phase p' = Exited \<and>
        (\<forall>i \<in> outstanding (service_world p). \<not> loop_job p i \<longrightarrow> answered_job (service_world p') i))"
proof (intro conjI allI impI ballI)
  note start = closing_start [OF assms]
  show "n \<le> 9 * card (outstanding (service_world p)) + 3" if "(closing_step srv ^^ n) p p'" for n p'
    using closing_steps_bound [OF that start(1,2)] start(3) by linarith
  fix p' assume run: "(closing_step srv)\<^sup>*\<^sup>* p p' \<and> \<not> (\<exists>p''. closing_step srv p' p'')"
  then have steps: "(closing_step srv)\<^sup>*\<^sup>* p p'" and last: "\<not> (\<exists>p''. closing_step srv p' p'')" by auto
  note closing = closing_steps_keep(1) [OF steps start(1,2)]
  then show ended: "phase p' = Exited" using closing_step_possible last unfolding closing_def by blast
  fix i assume "i \<in> outstanding (service_world p)" and "\<not> loop_job p i"
  from closing_keeps_request [OF steps start(1,2) this] closing ended show "answered_job (service_world p') i"
    unfolding closing_def outstanding_def answered_job_def by (cases "jobs (service_world p') i") (auto, metis job.exhaust)
qed

text \<open>The signal comes while a log is being posted; the program ends, and the post was answered.\<close>

theorem shutdown_completes_witness:
  "\<exists>p p'. phase p = Draining \<and> outstanding (service_world p) = {0} \<and>
     (closing_step sample_service)\<^sup>*\<^sup>* p p' \<and> phase p' = Exited \<and> answered_job (service_world p') 0"
proof -
  let ?srv = sample_service and ?post = "Http (post_log [5, 6])" and ?w = "opened_world empty_tables"
  define p where "p = (started (installed empty_tables))\<lparr>phase := Serving\<rparr>"
  define w where "w = ?w\<lparr>jobs := (jobs ?w)(0 \<mapsto> Running ?post)\<rparr>"
  have up: "run (program_step ?srv) (installed empty_tables) [] p"
    unfolding p_def by (rule starts_up) (simp_all add: installed_def alive_def)
  have "concurrent_step ?srv ?w (Some (Invoked 0 ?post)) w"
    unfolding w_def by (rule concurrent_step.invoke) (simp add: opened_world_def)
  then have "program_step ?srv p (Some (Invoked 0 ?post)) (p\<lparr>service_world := w\<rparr>)"
    by (intro program_step.request) (simp_all add: p_def installed_def started_def)
  note posted = run.observed [where M = "program_step ?srv", OF up this]
  have "program_step ?srv (p\<lparr>service_world := w\<rparr>) None (p\<lparr>service_world := w\<rparr>\<lparr>phase := Draining\<rparr>)"
    by (rule program_step.signal) (simp add: p_def)
  note run = run.silent [where M = "program_step ?srv", OF posted this]
  let ?p = "p\<lparr>service_world := w\<rparr>\<lparr>phase := Draining\<rparr>"
  have drain: "phase ?p = Draining" by simp
  have one: "outstanding (service_world ?p) = {0}" by (auto simp: outstanding_def w_def opened_world_def split: if_splits)
  have client: "\<not> loop_job ?p 0" by (simp add: loop_job_def p_def started_def)
  note ends = shutdown_completes [OF run drain]
  obtain n p' where p': "(closing_step ?srv ^^ n) ?p p'" "\<not> (\<exists>p''. closing_step ?srv p' p'')"
    using bounded_runs_end [OF ends [THEN conjunct1]] by blast
  then have steps: "(closing_step ?srv)\<^sup>*\<^sup>* ?p p'" by (blast dest: relpowp_imp_rtranclp)
  with ends p'(2) one client have "phase p' = Exited" "answered_job (service_world p') 0" by auto
  with steps drain one show ?thesis by blast
qed

section \<open>Refusals and keys\<close>

text \<open>
  C22. Nothing is half written: a submission on any of the three paths is either accepted or leaves
  all three tables as they were, also when the database fails in the middle of it.
\<close>

theorem submissions_are_all_or_nothing:
  "(is_ok (fst (apply_keypackage d b s)) \<or> pool (snd (apply_keypackage d b s)) = pool s) \<and>
   (is_ok (fst (apply_account d b s)) \<or> pool (snd (apply_account d b s)) = pool s) \<and>
   (is_ok (fst (apply_account_log api a slog s)) \<or> pool (snd (apply_account_log api a slog s)) = pool s)"
  using apply_refused_pool(1) [of d b s] apply_refused_pool(2) [of d b s] apply_refused_pool(3) [of api a slog s]
  by (auto simp: is_ok_def split: sum.splits) (metis prod.collapse)+

text \<open>
  C39. Keys in upper case are accepted but not found. In every reachable store, and under whatever failures, a keypackage or an
  account bundle submitted under the upper-case spelling of its key has exactly the result and the effect it has under the
  lower-case one. But a fetch looks the string up as it stands: if the key has a letter in it, fetching under the
  upper-case spelling gives 404 on both v0 endpoints whenever the database answers, also right after
  that submission.
\<close>

theorem uppercase_key_accepted_but_not_found:
  assumes "hex_laws (codecs srv)" and "reachable srv s"
    and "hex_encode (codecs srv) key = lower" and "map upper_char lower = upper" and "upper \<noteq> lower"
    and "kpr_device_id body = lower" and "acr_account_pub abody = lower"
  defines "d \<equiv> codecs srv" and "api \<equiv> account_log srv"
  shows "submit_key_package d api (body\<lparr>kpr_device_id := upper\<rparr>) s = submit_key_package d api body s \<and>
     submit_account_v0 d api (abody\<lparr>acr_account_pub := upper\<rparr>) s = submit_account_v0 d api abody s \<and>
     (\<forall>t \<in> {s, snd (submit_key_package d api body s), snd (submit_account_v0 d api abody s)}. \<forall>now.
        fst (fetch_key_package d upper (at_instant (now, []) t)) = Inl (not_found ''no keypackage for device'') \<and>
        fst (fetch_account_v0 d upper (at_instant (now, []) t)) = Inl (not_found ''no account bundle for account_pub''))"
proof -
  have hex: "hex_laws d" using assms(1) by (simp add: d_def)
  have lower: "hex_encode d key = lower" using assms(3) by (simp add: d_def)
  note same = uppercase_submissions [OF hex, of _ key, unfolded lower assms(4)]
  have rows: "rows_authentic d s" unfolding d_def by (rule authentic.reachable_keep [OF assms(2) refl refl])
  have writes: "writes d api s (snd (submit_key_package d api body s))" "writes d api s (snd (submit_account_v0 d api abody s))"
    by (rule submit_writes)+
  have kept: "rows_authentic d (snd (submit_key_package d api body s))" "rows_authentic d (snd (submit_account_v0 d api abody s))"
    using authentic.writes_keep [OF writes(1) rows] authentic.writes_keep [OF writes(2) rows] .
  have missing: "fst (fetch_key_package d upper (at_instant (now, []) t)) = Inl (not_found ''no keypackage for device'') \<and>
      fst (fetch_account_v0 d upper (at_instant (now, []) t)) = Inl (not_found ''no account bundle for account_pub'')"
    if "rows_authentic d t" for t now
  proof -
    have "k \<noteq> upper" if "signed_by d k p g" for k p g
      using uppercase_not_canonical [OF hex, of key, unfolded lower assms(4), OF assms(5)] that by (auto simp: signed_by_def)
    then have "\<forall>r \<in> set (keypackages (pool t)). kp_device_id r \<noteq> upper" "\<forall>r \<in> set (account_bundles (pool t)). ab_account_pub r \<noteq> upper"
      using that unfolding rows_authentic_def by blast+
    then show ?thesis using uppercase_not_found [of "at_instant (now, []) t" upper d] by (simp add: quiet_def)
  qed
  show ?thesis unfolding same(1) [OF assms(6)] same(2) [OF assms(7)] using missing rows kept by blast
qed

text \<open>A key with letters in its hex, posted in upper case to a new store, is stored and not found.\<close>

theorem uppercase_key_accepted_but_not_found_witness:
  "let d = sample_deps; key = replicate 32 171; upper = map upper_char (hex_encode d key);
       body = (key_package_request d key [1] (sample_sign key [1]))\<lparr>kpr_device_id := upper\<rparr>;
       (r, t) = submit_key_package d sample_log body (fresh_store 0)
   in r = Inr NO_CONTENT \<and> fst (fetch_key_package d upper (at_instant (7, []) t)) = Inl (not_found ''no keypackage for device'')"
proof -
  let ?d = sample_deps and ?key = "replicate 32 171 :: bytes"
  let ?lower = "hex_encode ?d ?key" and ?body = "key_package_request ?d ?key [1] (sample_sign ?key [1])"
  have dec: "decode_key_package ?d ?body = Inr \<lparr>bkey = ?key, bpayload = [1], bsignature = sample_sign ?key [1]\<rparr>"
    by (simp add: decode_key_package_def key_package_request_def
        decode_bundle_encoded [OF sample_hex_laws sample_base64_laws])
  obtain t where run: "submit_key_package ?d sample_log ?body (fresh_store 0) = (Inr NO_CONTENT, t)"
    using authentic_sign [of 171 "[1]"]
    by (simp add: submit_key_package_run dec apply_keypackage_quiet sql_insert_keypackage_def empty_tables_def
        verify_def authentic_def next_rowid_def key_hex_def)
  have "?key = 171 # replicate 31 171" using replicate_Suc [of 31 "171 :: u8"] by simp
  moreover have "upper_char (hex_digit (unat (171 :: u8) div 16)) \<noteq> hex_digit (unat (171 :: u8) div 16)"
    by (simp add: hex_digit_def upper_char_def char_of_eq_iff)
  ultimately have letters: "map upper_char ?lower \<noteq> ?lower"
    by (simp add: sample_deps_def)
  have "reachable sample_service (fresh_store 0)" by (rule reachable.start) simp
  note found = uppercase_key_accepted_but_not_found [OF _ this _ refl, of ?key, where body = ?body
      and abody = "\<lparr>acr_account_pub = ?lower, acr_payload = [], acr_signature = []\<rparr>"]
  show ?thesis unfolding Let_def
    using found [unfolded sample_service_simps, OF sample_hex_laws refl letters] run by (simp add: key_package_request_def)
qed

text \<open>
  C36. The primary keys hold at every moment of a concurrent run: a device has at most one keypackage per
  millisecond, an account at most one bundle and at most one log, and rowids are unique.
\<close>

theorem primary_keys_hold:
  assumes "run (concurrent_step srv) (opened_world empty_tables) tr w"
  shows "let db = committed (locked w) in
     distinct (map (\<lambda>r. (kp_device_id r, kp_received_at r)) (keypackages db)) \<and> distinct (map kp_rowid (keypackages db)) \<and>
     distinct (map ab_account_pub (account_bundles db)) \<and> distinct (map al_account_pub (account_logs db))"
proof -
  obtain u :: atomic where u: "reachable srv (data u)" "pool (data u) = committed (locked w)" by (rule concurrent_run [OF assms]) (rule that)
  show ?thesis using primary_keys.reachable_keep [OF u(1) refl refl] u(2) by (simp add: store_wf_def tables_wf_defs Let_def)
qed

theorem primary_keys_hold_witness:
  "\<exists>w :: world. sql_select_log (base16_encode [7]) (committed (locked w)) \<noteq> None \<and>
     distinct (map al_account_pub (account_logs (committed (locked w))))"
proof -
  obtain w where w: "run (concurrent_step sample_service) (opened_world empty_tables) sample_trace w"
    "log_cell (store_of (committed (locked w))) (base16_encode [7]) = Some (sample_artifact [5, 6])"
    by (rule sample_concurrent_run)
  have "sql_select_log (base16_encode [7]) (committed (locked w)) \<noteq> None"
    using w(2) by (auto simp: log_cell_def store_of_def simp del: base16_encode.simps)
  then show ?thesis using primary_keys_hold [OF w(1)] unfolding Let_def by blast
qed

text \<open>
  C37. Every row is well typed at every moment of a concurrent run. A keypackage's device id is the canonical hex of 32
  bytes and its signature has 64; so for an account bundle, whose payload also starts with the header (domain, version
  byte, lamport), so that the comparison of lamports always has a stored one; and a log is stored under the canonical text of its account's address, as the
  bytes of a log that verifies for it, so that comparing with the stored log never fails on it.
\<close>

theorem stored_rows_are_typed:
  assumes "hex_laws (codecs srv)" and "account_log_laws (account_log srv)"
    and "run (concurrent_step srv) (opened_world empty_tables) tr w"
  shows "let d = codecs srv; api = account_log srv; db = committed (locked w) in
     (\<forall>r \<in> set (keypackages db). \<exists>key. hex_decode d (kp_device_id r) = Some key \<and> hex_encode d key = kp_device_id r \<and>
        length key = 32 \<and> length (kp_signature r) = 64) \<and>
     (\<forall>r \<in> set (account_bundles db). \<exists>key version lamport rest. hex_decode d (ab_account_pub r) = Some key \<and>
        hex_encode d key = ab_account_pub r \<and> length key = 32 \<and> length (ab_signature r) = 64 \<and>
        ab_payload r = BUNDLE_DOMAIN @ [version] @ to_le_bytes lamport @ rest) \<and>
     (\<forall>r \<in> set (account_logs db). \<exists>a slog rec. addr_parse api (al_account_pub r) = Some a \<and>
        addr_to_string api a = al_account_pub r \<and> signed_from_bytes api (al_signed_log r) = Inr slog \<and>
        signed_to_bytes api slog = al_signed_log r \<and> record_new api a slog = Inr rec)"
proof -
  obtain u :: atomic where u: "reachable srv (data u)" "pool (data u) = committed (locked w)"
    by (rule concurrent_run [OF assms(3)]) (rule that)
  have key: "\<exists>key. hex_decode (codecs srv) k = Some key \<and> hex_encode (codecs srv) key = k \<and> length key = 32 \<and> length g = 64"
    if "signed_by (codecs srv) k p g" for k p g
    using that hex_lawsD(1) [OF assms(1)] by (auto simp: signed_by_def)
  have header: "\<exists>version lamport rest. p = BUNDLE_DOMAIN @ [version] @ to_le_bytes lamport @ rest"
    if "payload_lamport p \<noteq> None" for p
    using that by (auto simp: payload_lamport_Some_iff account_header_def)
  have rows: "rows_authentic (codecs srv) (data u)" by (rule authentic.reachable_keep [OF u(1) refl refl])
  have logs: "logs_verified (account_log srv) (data u)"
    by (rule store_invariant.reachable_keep [OF account_log_crate.logs_invariant [OF account_log_crate.intro [OF assms(2)]] u(1) refl refl])
  have log: "\<exists>a slog rec. addr_parse api (al_account_pub r) = Some a \<and> addr_to_string api a = al_account_pub r \<and>
      signed_from_bytes api (al_signed_log r) = Inr slog \<and> signed_to_bytes api slog = al_signed_log r \<and> record_new api a slog = Inr rec"
    if "row_verified api r" and "account_log_laws api" for api :: "('a, 'b, 'c) account_log_api" and r
    using that account_log_lawsD(1) [OF that(2), unfolded addr_laws_def] artifact_lawsD(2) [OF account_log_lawsD(2) [OF that(2)]]
    by (metis row_verified_def)
  show ?thesis unfolding Let_def u(2) [symmetric]
    using rows logs key header log assms(2) unfolding rows_authentic_def logs_verified_def by blast
qed

theorem stored_rows_are_typed_witness:
  "\<exists>w :: world. account_logs (committed (locked w)) \<noteq> [] \<and>
     (\<forall>r \<in> set (account_logs (committed (locked w))). \<exists>a slog rec. addr_parse sample_log (al_account_pub r) = Some a \<and>
        signed_from_bytes sample_log (al_signed_log r) = Inr slog \<and> record_new sample_log a slog = Inr rec)"
proof -
  obtain w where w: "run (concurrent_step sample_service) (opened_world empty_tables) sample_trace w"
    "log_cell (store_of (committed (locked w))) (base16_encode [7]) = Some (sample_artifact [5, 6])"
    by (rule sample_concurrent_run)
  have "account_logs (committed (locked w)) \<noteq> []"
    using w(2) by (auto simp: log_cell_def store_of_def sql_select_log_def simp del: base16_encode.simps)
  moreover have "hex_laws (codecs sample_service)" "account_log_laws (account_log sample_service)"
    by (simp_all add: sample_hex_laws sample_account_log_laws)
  note stored_rows_are_typed [OF this w(1)]
  ultimately show ?thesis unfolding Let_def sample_service_simps by blast
qed

end
